(* ===== verification/Prelude.thy ===== *)
theory Prelude
  imports Main "HOL-Library.Word" "HOL-Library.Monad_Syntax" "HOL-Library.Sublist"
begin

text \<open>
  Vocabulary shared by every component of the chat library and of the servers built on it.

  \<^item> A C++ \<open>assert\<close> (the sources are compiled with assertions on), a null dereference or an
    out-of-range access ends the process: an operation that can do so returns an \<open>option\<close> and
    \<^term>\<open>None\<close> is the abort. \<open>ensure\<close> is the assertion itself.
  \<^item> \<open>byte\<close> is the C++ \<open>char\<close>, \<open>bytes\<close> a \<open>std::string\<close> or a \<open>char\<close> array.
  \<^item> \<open>c_div\<close> and \<open>c_mod\<close> are the C++ operators \<open>/\<close> and \<open>%\<close> (they truncate towards zero).
  \<^item> \<open>copy_to\<close> is \<open>std::copy\<close> into an array, \<open>search_first\<close> is \<open>std::search\<close>,
    \<open>find_char\<close> is \<open>std::find\<close>, \<open>rfind_char\<close> is \<open>strrchr\<close>; \<open>set_insert\<close> and \<open>set_erase\<close> are the
    operations of \<open>std::set\<close>.
  \<^item> \<open>show_nat\<close>, \<open>show_int\<close>, \<open>pad_left\<close> are the conversions \<open>%u\<close>, \<open>%d\<close> and the field
    widths of \<open>printf\<close>.
\<close>

named_theorems model_defs \<open>definitions of the small accessors, unfolded by default in proofs\<close>
named_theorems step_simps \<open>functional behaviour of the operations, one fact per branch\<close>

type_synonym byte = char
type_synonym bytes = "char list"

section \<open>Assertions\<close>

definition ensure :: "bool \<Rightarrow> unit option" where
  "ensure P = (if P then Some () else None)"

lemma ensure_simps [simp]: "ensure True = Some ()" "ensure False = None"
  by (simp_all add: ensure_def)

lemma ensure_eq_Some [simp]: "ensure P = Some u \<longleftrightarrow> P"
  by (simp add: ensure_def)

lemma ensure_eq_None [simp]: "ensure P = None \<longleftrightarrow> \<not> P"
  by (simp add: ensure_def)

lemma bind_ensure_Some [simp]: "ensure P \<bind> f = Some y \<longleftrightarrow> P \<and> f () = Some y"
  by (auto simp: ensure_def)

lemma bind_ensure_True: "P \<Longrightarrow> (ensure P \<bind> f) = f ()"
  by simp

section \<open>Division as in C++\<close>

definition c_div :: "int \<Rightarrow> int \<Rightarrow> int" where
  "c_div a b = sgn a * sgn b * (\<bar>a\<bar> div \<bar>b\<bar>)"

definition c_mod :: "int \<Rightarrow> int \<Rightarrow> int" where
  "c_mod a b = a - b * c_div a b"

lemma c_div_nonneg [simp]: "0 \<le> a \<Longrightarrow> 0 < b \<Longrightarrow> c_div a b = a div b"
  by (auto simp: c_div_def sgn_if)

lemma c_mod_nonneg [simp]: "0 \<le> a \<Longrightarrow> 0 < b \<Longrightarrow> c_mod a b = a mod b"
  by (simp add: c_mod_def minus_mult_div_eq_mod)

lemma c_div_neg: "a < 0 \<Longrightarrow> 0 < b \<Longrightarrow> c_div a b = - (- a div b)"
  by (auto simp: c_div_def sgn_if)

lemma c_mod_neg: "a < 0 \<Longrightarrow> 0 < b \<Longrightarrow> c_mod a b = - (- a mod b)"
  unfolding c_mod_def using minus_mult_div_eq_mod [of "- a" b] by (simp only: c_div_neg)

lemma c_div_mod_eq: "b * c_div a b + c_mod a b = a"
  by (simp add: c_mod_def)

lemma c_mod_lower:
  assumes "0 < b" shows "- b < c_mod a b"
proof (cases "0 \<le> a")
  case True
  with assms have "c_mod a b = a mod b" by simp
  with assms pos_mod_sign [OF assms, of a] show ?thesis by linarith
next
  case False
  with assms have "c_mod a b = - (- a mod b)" by (intro c_mod_neg) auto
  with pos_mod_bound [OF assms, of "- a"] show ?thesis by linarith
qed

lemma c_mod_upper:
  assumes "0 < b" shows "c_mod a b < b"
proof (cases "0 \<le> a")
  case True
  with assms pos_mod_bound [OF assms, of a] show ?thesis by simp
next
  case False
  with assms have "c_mod a b = - (- a mod b)" by (intro c_mod_neg) auto
  with pos_mod_sign [OF assms, of "- a"] assms show ?thesis by linarith
qed

lemma c_mod_sign: "0 < b \<Longrightarrow> 0 \<le> a \<Longrightarrow> 0 \<le> c_mod a b"
  by simp

lemma c_mod_sign_neg:
  assumes "0 < b" "a < 0" shows "c_mod a b \<le> 0"
  using c_mod_neg [OF assms(2,1)] pos_mod_sign [OF assms(1), of "- a"] by linarith

section \<open>Arrays: copying, searching\<close>

definition copy_to :: "'a list \<Rightarrow> nat \<Rightarrow> 'a list \<Rightarrow> 'a list" where
  "copy_to dst off src = take off dst @ src @ drop (off + length src) dst"

lemma length_copy_to [simp]:
  "off + length src \<le> length dst \<Longrightarrow> length (copy_to dst off src) = length dst"
  by (simp add: copy_to_def)

lemma length_copy_to_ge: "off \<le> length dst \<Longrightarrow> length dst \<le> length (copy_to dst off src)"
  by (simp add: copy_to_def)

lemma take_copy_to [simp]:
  "n \<le> off \<Longrightarrow> off + length src \<le> length dst \<Longrightarrow> take n (copy_to dst off src) = take n dst"
  by (simp add: copy_to_def min_absorb1)

lemma take_drop_copy_to:
  assumes "off + length src \<le> length dst" "i \<le> off"
  shows "take (off + length src - i) (drop i (copy_to dst off src))
       = take (off - i) (drop i dst) @ src"
proof -
  have "drop i (copy_to dst off src)
      = take (off - i) (drop i dst) @ src @ drop (off + length src) dst"
    using assms by (simp add: copy_to_def drop_take)
  moreover have "length (take (off - i) (drop i dst)) = off - i"
    using assms by simp
  ultimately show ?thesis using assms by simp
qed

lemma take_drop_copy_to_same [simp]:
  "off + length src \<le> length dst \<Longrightarrow>
   take (length src) (drop off (copy_to dst off src)) = src"
  by (simp add: copy_to_def)

lemma take_take_drop_split:
  "a \<le> b \<Longrightarrow> take a xs @ take (b - a) (drop a xs) = take b xs"
  by (metis le_add_diff_inverse take_add)

text \<open>
  \<open>search_first pat xs\<close> is the offset of the first occurrence of a pattern; \<^term>\<open>None\<close> is the
  end iterator that \<open>std::search\<close> returns when there is none.
\<close>

fun search_first :: "'a list \<Rightarrow> 'a list \<Rightarrow> nat option" where
  "search_first pat [] = (if pat = [] then Some 0 else None)"
| "search_first pat (x # xs) =
     (if prefix pat (x # xs) then Some 0 else map_option Suc (search_first pat xs))"

lemma search_first_Some:
  "search_first pat xs = Some i \<Longrightarrow> i + length pat \<le> length xs \<and> take (length pat) (drop i xs) = pat"
proof (induction xs arbitrary: i)
  case Nil
  then show ?case by (auto split: if_splits)
next
  case (Cons x xs)
  show ?case
  proof (cases "prefix pat (x # xs)")
    case True
    then have "take (length pat) (x # xs) = pat" "length pat \<le> length (x # xs)"
      using prefix_length_le [OF True] by (auto simp: prefix_def)
    with True Cons.prems show ?thesis by auto
  next
    case False
    with Cons show ?thesis by auto
  qed
qed

lemma search_first_least:
  "search_first pat xs = Some i \<Longrightarrow> j < i \<Longrightarrow> \<not> prefix pat (drop j xs)"
proof (induction xs arbitrary: i j)
  case Nil
  then show ?case by (auto split: if_splits)
next
  case (Cons x xs)
  then show ?case by (cases j) (auto split: if_splits)
qed

lemma search_first_None:
  "search_first pat xs = None \<Longrightarrow> \<not> prefix pat (drop j xs)"
proof (induction xs arbitrary: j)
  case Nil
  then show ?case by (auto split: if_splits)
next
  case (Cons x xs)
  then show ?case by (cases j) (auto split: if_splits)
qed

fun find_char :: "'a \<Rightarrow> 'a list \<Rightarrow> nat option" where
  "find_char c [] = None"
| "find_char c (x # xs) = (if x = c then Some 0 else map_option Suc (find_char c xs))"

lemma find_char_Some:
  "find_char c xs = Some i \<Longrightarrow> i < length xs \<and> xs ! i = c \<and> c \<notin> set (take i xs)"
  by (induction xs arbitrary: i) (auto split: if_splits)

lemma find_char_None [simp]: "find_char c xs = None \<longleftrightarrow> c \<notin> set xs"
  by (induction xs) auto

lemma find_char_append [simp]:
  "c \<notin> set xs \<Longrightarrow> find_char c (xs @ c # ys) = Some (length xs)"
  by (induction xs) auto

definition rfind_char :: "'a \<Rightarrow> 'a list \<Rightarrow> nat option" where
  "rfind_char c xs = map_option (\<lambda>i. length xs - 1 - i) (find_char c (rev xs))"

lemma rfind_char_None [simp]: "rfind_char c xs = None \<longleftrightarrow> c \<notin> set xs"
  by (simp add: rfind_char_def)

lemma rfind_char_append [simp]:
  "c \<notin> set ys \<Longrightarrow> rfind_char c (xs @ c # ys) = Some (length xs)"
  using find_char_append [of c "rev ys" "rev xs"] by (simp add: rfind_char_def)

section \<open>Decimal output\<close>

definition digit_char :: "nat \<Rightarrow> char" where
  "digit_char d = char_of (48 + d)"

fun show_nat :: "nat \<Rightarrow> string" where
  "show_nat n = (if n < 10 then [digit_char n] else show_nat (n div 10) @ [digit_char (n mod 10)])"

declare show_nat.simps [simp del]

definition show_int :: "int \<Rightarrow> string" where
  "show_int i = (if i < 0 then CHR ''-'' # show_nat (nat (- i)) else show_nat (nat i))"

definition pad_left :: "nat \<Rightarrow> char \<Rightarrow> string \<Rightarrow> string" where
  "pad_left w c s = replicate (w - length s) c @ s"

text \<open>\<open>%0<w>d\<close>: zeroes go between the sign and the digits.\<close>

definition show_int0 :: "nat \<Rightarrow> int \<Rightarrow> string" where
  "show_int0 w i =
     (if i < 0 then CHR ''-'' # pad_left (w - 1) (CHR ''0'') (show_nat (nat (- i)))
      else pad_left w (CHR ''0'') (show_nat (nat i)))"

fun read_nat :: "nat \<Rightarrow> string \<Rightarrow> nat" where
  "read_nat acc [] = acc"
| "read_nat acc (c # cs) = read_nat (10 * acc + (of_char c - 48)) cs"

lemma of_char_digit_char [simp]: "d < 10 \<Longrightarrow> (of_char (digit_char d) :: nat) = 48 + d"
  by (simp add: digit_char_def)

lemma read_nat_append: "read_nat acc (xs @ ys) = read_nat (read_nat acc xs) ys"
  by (induction xs arbitrary: acc) auto

lemma show_nat_nonempty [simp]: "show_nat n \<noteq> []"
  by (subst show_nat.simps) simp

lemma read_show_nat [simp]: "read_nat 0 (show_nat n) = n"
proof (induction n rule: show_nat.induct)
  case (1 n)
  show ?case
  proof (cases "n < 10")
    case True
    then show ?thesis by (subst show_nat.simps) simp
  next
    case False
    with 1 have "read_nat 0 (show_nat (n div 10)) = n div 10" by simp
    with False show ?thesis
      by (subst show_nat.simps) (simp add: read_nat_append)
  qed
qed

lemma show_nat_inject [simp]: "show_nat m = show_nat n \<longleftrightarrow> m = n"
  by (metis read_show_nat)

definition is_digit :: "char \<Rightarrow> bool" where
  "is_digit c \<longleftrightarrow> 48 \<le> (of_char c :: nat) \<and> (of_char c :: nat) \<le> 57"

lemma is_digit_digit_char [simp]: "d < 10 \<Longrightarrow> is_digit (digit_char d)"
  by (simp add: is_digit_def)

lemma show_nat_digits: "c \<in> set (show_nat n) \<Longrightarrow> is_digit c"
proof (induction n rule: show_nat.induct)
  case (1 n)
  then show ?case
    by (cases "n < 10") (auto simp: show_nat.simps [of n])
qed

lemma length_show_nat_le: "n < 10 ^ Suc k \<Longrightarrow> length (show_nat n) \<le> Suc k"
proof (induction k arbitrary: n)
  case 0
  then show ?case by (simp add: show_nat.simps [of n])
next
  case (Suc k)
  show ?case
  proof (cases "n < 10")
    case True
    then show ?thesis by (simp add: show_nat.simps [of n])
  next
    case False
    have "n div 10 < 10 ^ Suc k"
      using Suc.prems by (simp add: less_mult_imp_div_less mult.commute)
    from Suc.IH [OF this] False show ?thesis
      by (simp add: show_nat.simps [of n])
  qed
qed

text \<open>\<open>atoi\<close> and \<open>atol\<close>: blanks, a sign, digits.\<close>

definition atol :: "string \<Rightarrow> int" where
  "atol s = (let t = dropWhile (\<lambda>c. c = CHR '' '' \<or> c = CHR 0x09 \<or> c = CHR 0x0A) s;
                 digits = (\<lambda>t. int (read_nat 0 (takeWhile is_digit t)))
             in case t of [] \<Rightarrow> 0 | c # u \<Rightarrow> if c = CHR ''-'' then - digits u else if c = CHR ''+'' then digits u else digits t)"

lemma atol_digits:
  assumes "ds \<noteq> []" "\<forall>c\<in>set ds. is_digit c" "case rest of [] \<Rightarrow> True | c # cs \<Rightarrow> \<not> is_digit c"
  shows "atol (ds @ rest) = int (read_nat 0 ds)"
proof -
  obtain c cs where c: "ds = c # cs" using assms(1) by (cases ds) auto
  then have "is_digit c" using assms(2) by simp
  then have "c \<noteq> CHR '' ''" "c \<noteq> CHR 0x09" "c \<noteq> CHR 0x0A" "c \<noteq> CHR ''-''" "c \<noteq> CHR ''+''" by (auto simp: is_digit_def)
  moreover have "takeWhile is_digit rest = []" using assms(3) by (cases rest) auto
  then have "takeWhile is_digit (ds @ rest) = ds" using assms(2) by (simp add: takeWhile_append2)
  then have "takeWhile is_digit (c # cs @ rest) = c # cs" using c by simp
  ultimately show ?thesis
    unfolding atol_def c Let_def by (simp del: takeWhile.simps read_nat.simps takeWhile_eq_all_conv)
qed

lemma atol_show_nat: "atol (show_nat n) = int n"
  using atol_digits [of "show_nat n" "[]"] show_nat_digits by (simp add: Ball_def)

lemma read_nat_zeroes: "read_nat 0 (replicate k (CHR ''0'') @ s) = read_nat 0 s"
  by (induction k) auto

lemma length_pad_left [simp]: "length (pad_left w c s) = max w (length s)"
  by (simp add: pad_left_def)

section \<open>Ordered sets\<close>

text \<open>A \<open>std::set\<close> is the ascending list of its elements, the order of its iterator.\<close>

definition set_insert :: "'a :: linorder \<Rightarrow> 'a list \<Rightarrow> 'a list" where
  "set_insert c xs = insort_insert c xs"

definition set_erase :: "'a :: linorder \<Rightarrow> 'a list \<Rightarrow> 'a list" where
  "set_erase c xs = remove1 c xs"

definition std_set :: "'a :: linorder list \<Rightarrow> bool" where
  "std_set xs \<longleftrightarrow> sorted xs \<and> distinct xs"

lemma set_insert_ok: "std_set xs \<Longrightarrow> std_set (set_insert c xs) \<and> set (set_insert c xs) = insert c (set xs)"
  by (simp add: std_set_def set_insert_def sorted_insort_insert distinct_insort_insert set_insort_insert)

lemma set_erase_ok: "std_set xs \<Longrightarrow> std_set (set_erase c xs) \<and> set (set_erase c xs) = set xs - {c}"
  by (simp add: std_set_def set_erase_def sorted_remove1)

end
