(* ===== verification/Endian.thy ===== *)
theory Endian
  imports Prelude
begin

text \<open>
  \<^verbatim>\<open>Endian.h\<close>: conversion of 16, 32 and 64 bit integers between host and network byte order.
  The host is a little-endian machine (x86-64, the platform of the Makefiles). \<open>le_bytes\<close> and
  \<open>le_value\<close> are the memory image of an integer and its inverse, so \<open>mem32 w\<close> is what
  \<open>memcpy\<close> sees at the address of an \<open>int32_t\<close>; \<open>htobe32\<close> on such a host reverses the image.
  The main facts: each pair of conversions is an involution, and the image of a converted
  integer is its big-endian byte sequence, which is what the wire format needs.
\<close>

section \<open>Memory images\<close>

fun le_bytes :: "nat \<Rightarrow> nat \<Rightarrow> bytes" where
  "le_bytes 0 x = []"
| "le_bytes (Suc n) x = char_of (x mod 256) # le_bytes n (x div 256)"

fun le_value :: "bytes \<Rightarrow> nat" where
  "le_value [] = 0"
| "le_value (c # cs) = of_char c + 256 * le_value cs"

lemma length_le_bytes [simp]: "length (le_bytes n x) = n"
  by (induction n arbitrary: x) auto

lemma of_char_less_256 [simp]: "(of_char c :: nat) < 256"
  by (metis of_char_mod_256 mod_less_divisor zero_less_numeral)

lemma le_value_le_bytes [simp]: "le_value (le_bytes n x) = x mod 256 ^ n"
proof (induction n arbitrary: x)
  case 0
  then show ?case by simp
next
  case (Suc n)
  have "x mod 256 + 256 * (x div 256 mod 256 ^ n) = x mod (256 * 256 ^ n)"
    by (simp add: mod_mult2_eq)
  with Suc show ?case by simp
qed

lemma le_bytes_le_value [simp]: "length bs = n \<Longrightarrow> le_bytes n (le_value bs) = bs"
  by (induction bs arbitrary: n) auto

lemma le_value_bound: "le_value bs < 256 ^ length bs"
proof (induction bs)
  case Nil
  then show ?case by simp
next
  case (Cons c cs)
  have "(of_char c :: nat) < 256" by simp
  moreover have "le_value cs + 1 \<le> 256 ^ length cs" using Cons by simp
  ultimately have "of_char c + 256 * le_value cs < 256 * (le_value cs + 1)" by simp
  also have "\<dots> \<le> 256 * 256 ^ length cs"
    using \<open>le_value cs + 1 \<le> 256 ^ length cs\<close> by (rule mult_le_mono2)
  finally show ?case by simp
qed

definition mem16 :: "16 word \<Rightarrow> bytes" where "mem16 w = le_bytes 2 (unat w)"
definition mem32 :: "32 word \<Rightarrow> bytes" where "mem32 w = le_bytes 4 (unat w)"
definition mem64 :: "64 word \<Rightarrow> bytes" where "mem64 w = le_bytes 8 (unat w)"

definition load16 :: "bytes \<Rightarrow> 16 word" where "load16 bs = word_of_nat (le_value bs)"
definition load32 :: "bytes \<Rightarrow> 32 word" where "load32 bs = word_of_nat (le_value bs)"
definition load64 :: "bytes \<Rightarrow> 64 word" where "load64 bs = word_of_nat (le_value bs)"

lemma length_mem [simp]: "length (mem16 w) = 2" "length (mem32 v) = 4" "length (mem64 u) = 8"
  by (simp_all add: mem16_def mem32_def mem64_def)

lemma unat_bounds: "unat (w :: 16 word) < 256 ^ 2" "unat (v :: 32 word) < 256 ^ 4"
  "unat (u :: 64 word) < 256 ^ 8"
proof -
  have "unat w < 2 ^ LENGTH(16)" "unat v < 2 ^ LENGTH(32)" "unat u < 2 ^ LENGTH(64)"
    by (rule unsigned_less)+
  then show "unat w < 256 ^ 2" "unat v < 256 ^ 4" "unat u < 256 ^ 8" by simp_all
qed

lemma load_mem [simp]: "load16 (mem16 w) = w" "load32 (mem32 v) = v" "load64 (mem64 u) = u"
  using unat_bounds by (simp_all add: load16_def mem16_def load32_def mem32_def load64_def mem64_def)

lemma mem_load [simp]:
  "length bs = 2 \<Longrightarrow> mem16 (load16 bs) = bs"
  "length bs = 4 \<Longrightarrow> mem32 (load32 bs) = bs"
  "length bs = 8 \<Longrightarrow> mem64 (load64 bs) = bs"
  using le_value_bound [of bs]
  by (simp_all add: load16_def mem16_def load32_def mem32_def load64_def mem64_def
      unat_of_nat take_bit_eq_mod)

section \<open>Conversions\<close>

definition hostToNetwork64 :: "64 word \<Rightarrow> 64 word" where
  "hostToNetwork64 host64 = load64 (rev (mem64 host64))"

definition hostToNetwork32 :: "32 word \<Rightarrow> 32 word" where
  "hostToNetwork32 host32 = load32 (rev (mem32 host32))"

definition hostToNetwork16 :: "16 word \<Rightarrow> 16 word" where
  "hostToNetwork16 host16 = load16 (rev (mem16 host16))"

definition networkToHost64 :: "64 word \<Rightarrow> 64 word" where
  "networkToHost64 net64 = load64 (rev (mem64 net64))"

definition networkToHost32 :: "32 word \<Rightarrow> 32 word" where
  "networkToHost32 net32 = load32 (rev (mem32 net32))"

definition networkToHost16 :: "16 word \<Rightarrow> 16 word" where
  "networkToHost16 net16 = load16 (rev (mem16 net16))"

lemma network_host [simp]:
  "networkToHost16 (hostToNetwork16 w) = w"
  "networkToHost32 (hostToNetwork32 v) = v"
  "networkToHost64 (hostToNetwork64 u) = u"
  by (simp_all add: hostToNetwork16_def networkToHost16_def hostToNetwork32_def
      networkToHost32_def hostToNetwork64_def networkToHost64_def)

lemma mem_hostToNetwork:
  "mem16 (hostToNetwork16 w) = rev (mem16 w)"
  "mem32 (hostToNetwork32 v) = rev (mem32 v)"
  "mem64 (hostToNetwork64 u) = rev (mem64 u)"
  by (simp_all add: hostToNetwork16_def hostToNetwork32_def hostToNetwork64_def)

text \<open>\<open>be32\<close>, \<open>be64\<close>: the bytes of an integer on the wire, and how a reader gets it back.\<close>

definition be32 :: "32 word \<Rightarrow> bytes" where "be32 w = rev (mem32 w)"
definition be64 :: "64 word \<Rightarrow> bytes" where "be64 w = rev (mem64 w)"

lemma length_be [simp]: "length (be32 w) = 4" "length (be64 u) = 8"
  by (simp_all add: be32_def be64_def)

lemma read_be32 [simp]: "networkToHost32 (load32 (be32 w)) = w"
  by (simp add: be32_def networkToHost32_def)

lemma read_be64 [simp]: "networkToHost64 (load64 (be64 w)) = w"
  by (simp add: be64_def networkToHost64_def)

lemma be32_read: "length bs = 4 \<Longrightarrow> be32 (networkToHost32 (load32 bs)) = bs"
  by (simp add: be32_def networkToHost32_def)

end
