(* ===== verification/Buffer.thy ===== *)
theory Buffer
  imports Endian
begin

text \<open>
  \<^verbatim>\<open>Buffer.h\<close> and \<^verbatim>\<open>Buffer.cc\<close>: the byte buffer between sockets and codecs. The record has the
  class's three members; a pointer into the array is its offset. \<open>content\<close> is the abstraction:
  the readable bytes as a list. Every operation is shown to keep \<open>buf_inv\<close> (reader index, writer
  index and array size are ordered) and to act on \<open>content\<close> as the corresponding queue
  operation; \<open>byte_queue\<close> is that contract as a locale, interpreted on the operations below.
  \<open>shrink\<close> is the exception: it does not reset the indices (see \<open>shrink_keeps_content\<close>).
  A \<open>size_t\<close> is a \<^typ>\<open>nat\<close>: an array never reaches 2^64 bytes, so no index wraps.
\<close>

section \<open>State and accessors\<close>

record buffer =
  store :: bytes
  readerIndex :: nat
  writerIndex :: nat

definition kCheapPrepend :: nat where "kCheapPrepend = 8"
definition kInitialSize :: nat where "kInitialSize = 1024"
definition kCRLF :: bytes where "kCRLF = [CHR 0x0D, CHR 0x0A]"
definition kExtraBuf :: nat where "kExtraBuf = 65536"

definition Buffer_new :: buffer where
  "Buffer_new = \<lparr>store = replicate (kCheapPrepend + kInitialSize) (CHR 0x00),
     readerIndex = kCheapPrepend, writerIndex = kCheapPrepend\<rparr>"

definition swap_buf :: "buffer \<Rightarrow> buffer \<Rightarrow> buffer \<times> buffer" where
  "swap_buf lhs rhs =
     (lhs\<lparr>store := store rhs, readerIndex := readerIndex rhs, writerIndex := writerIndex rhs\<rparr>,
      rhs\<lparr>store := store lhs, readerIndex := readerIndex lhs, writerIndex := writerIndex lhs\<rparr>)"

definition readableBytes :: "buffer \<Rightarrow> nat" where
  "readableBytes b = writerIndex b - readerIndex b"

definition writableBytes :: "buffer \<Rightarrow> nat" where
  "writableBytes b = length (store b) - writerIndex b"

definition prependableBytes :: "buffer \<Rightarrow> nat" where
  "prependableBytes b = readerIndex b"

definition peek :: "buffer \<Rightarrow> nat" where
  "peek b = readerIndex b"

definition beginWrite :: "buffer \<Rightarrow> nat" where
  "beginWrite b = writerIndex b"

text \<open>The bytes between two pointers, as in \<open>string(p, q)\<close>.\<close>

definition slice :: "buffer \<Rightarrow> nat \<Rightarrow> nat \<Rightarrow> bytes" where
  "slice b p q = take (q - p) (drop p (store b))"

definition content :: "buffer \<Rightarrow> bytes" where
  "content b = slice b (peek b) (beginWrite b)"

definition buf_inv :: "buffer \<Rightarrow> bool" where
  "buf_inv b \<longleftrightarrow> readerIndex b \<le> writerIndex b \<and> writerIndex b \<le> length (store b)"

lemmas buf_defs = readableBytes_def writableBytes_def prependableBytes_def peek_def
  beginWrite_def slice_def content_def buf_inv_def

declare readableBytes_def [model_defs] writableBytes_def [model_defs]
  prependableBytes_def [model_defs] peek_def [model_defs] beginWrite_def [model_defs]

section \<open>Reading\<close>

definition findCRLF :: "buffer \<Rightarrow> nat option" where
  "findCRLF b = map_option (\<lambda>i. peek b + i) (search_first kCRLF (content b))"

definition retrieve :: "buffer \<Rightarrow> nat \<Rightarrow> buffer option" where
  "retrieve b len = do {
     ensure (len \<le> readableBytes b);
     Some (b\<lparr>readerIndex := readerIndex b + len\<rparr>)
   }"

definition retrieveUntil :: "buffer \<Rightarrow> nat \<Rightarrow> buffer option" where
  "retrieveUntil b endp = do {
     ensure (peek b \<le> endp);
     ensure (endp \<le> beginWrite b);
     retrieve b (endp - peek b)
   }"

definition retrieveAll :: "buffer \<Rightarrow> buffer" where
  "retrieveAll b = b\<lparr>readerIndex := kCheapPrepend, writerIndex := kCheapPrepend\<rparr>"

definition retrieveAsString :: "buffer \<Rightarrow> nat \<Rightarrow> (bytes \<times> buffer) option" where
  "retrieveAsString b len = do {
     ensure (len \<le> readableBytes b);
     b' \<leftarrow> retrieve b len;
     Some (slice b (peek b) (peek b + len), b')
   }"

definition retrieveAllAsString :: "buffer \<Rightarrow> (bytes \<times> buffer) option" where
  "retrieveAllAsString b = retrieveAsString b (readableBytes b)"

definition peekInt64 :: "buffer \<Rightarrow> 64 word option" where
  "peekInt64 b = do {
     ensure (8 \<le> readableBytes b);
     Some (networkToHost64 (load64 (slice b (peek b) (peek b + 8))))
   }"

definition peekInt32 :: "buffer \<Rightarrow> 32 word option" where
  "peekInt32 b = do {
     ensure (4 \<le> readableBytes b);
     Some (networkToHost32 (load32 (slice b (peek b) (peek b + 4))))
   }"

section \<open>Writing\<close>

text \<open>\<open>vector::resize\<close> pads with zero bytes.\<close>

definition resize :: "bytes \<Rightarrow> nat \<Rightarrow> bytes" where
  "resize v n = take n v @ replicate (n - length v) (CHR 0x00)"

definition makeSpace :: "buffer \<Rightarrow> nat \<Rightarrow> buffer option" where
  "makeSpace b len =
     (if writableBytes b + prependableBytes b < len + kCheapPrepend
      then Some (b\<lparr>store := resize (store b) (writerIndex b + len)\<rparr>)
      else do {
        ensure (kCheapPrepend < readerIndex b);
        let readable = readableBytes b;
        let b' = b\<lparr>store := copy_to (store b) kCheapPrepend
                     (slice b (readerIndex b) (writerIndex b)),
                   readerIndex := kCheapPrepend, writerIndex := kCheapPrepend + readable\<rparr>;
        ensure (readable = readableBytes b');
        Some b'
      })"

definition ensureWritableBytes :: "buffer \<Rightarrow> nat \<Rightarrow> buffer option" where
  "ensureWritableBytes b len = do {
     b' \<leftarrow> (if writableBytes b < len then makeSpace b len else Some b);
     ensure (len \<le> writableBytes b');
     Some b'
   }"

definition hasWritten :: "buffer \<Rightarrow> nat \<Rightarrow> buffer" where
  "hasWritten b len = b\<lparr>writerIndex := writerIndex b + len\<rparr>"

definition append_buf :: "buffer \<Rightarrow> bytes \<Rightarrow> buffer option" where
  "append_buf b data = do {
     b' \<leftarrow> ensureWritableBytes b (length data);
     Some (hasWritten (b'\<lparr>store := copy_to (store b') (beginWrite b') data\<rparr>) (length data))
   }"

definition appendInt64 :: "buffer \<Rightarrow> 64 word \<Rightarrow> buffer option" where
  "appendInt64 b x = append_buf b (mem64 (hostToNetwork64 x))"

definition appendInt32 :: "buffer \<Rightarrow> 32 word \<Rightarrow> buffer option" where
  "appendInt32 b x = append_buf b (mem32 (hostToNetwork32 x))"

definition prepend :: "buffer \<Rightarrow> bytes \<Rightarrow> buffer option" where
  "prepend b data = do {
     ensure (length data \<le> prependableBytes b);
     let r = readerIndex b - length data;
     Some (b\<lparr>store := copy_to (store b) r data, readerIndex := r\<rparr>)
   }"

definition shrink :: "buffer \<Rightarrow> nat \<Rightarrow> buffer" where
  "shrink b reserve =
     b\<lparr>store := copy_to (replicate (kCheapPrepend + readableBytes b + reserve) (CHR 0x00))
                 kCheapPrepend (slice b (peek b) (peek b + readableBytes b))\<rparr>"

text \<open>
  \<open>readFd\<close> is one \<open>readv\<close> into the free space of the buffer and, past it, into a 64 KB array on
  the stack. The system call is an argument: its error, or the bytes it delivered (at most the
  sum of the two \<open>iov_len\<close>). The result is the return value, the saved \<open>errno\<close> and the buffer.
\<close>

definition readFd :: "buffer \<Rightarrow> int + bytes \<Rightarrow> (int \<times> int option \<times> buffer) option" where
  "readFd b rv =
     (case rv of
        Inl err \<Rightarrow> Some (-1, Some err, b)
      | Inr data \<Rightarrow>
          let writable = writableBytes b; n = length data in
          if n \<le> writable
          then Some (int n, None,
                 b\<lparr>store := copy_to (store b) (writerIndex b) data,
                   writerIndex := writerIndex b + n\<rparr>)
          else do {
            b' \<leftarrow> append_buf (b\<lparr>store := copy_to (store b) (writerIndex b) (take writable data),
                                  writerIndex := length (store b)\<rparr>) (drop writable data);
            Some (int n, None, b')
          })"

section \<open>The abstraction\<close>

lemma length_content [simp]: "buf_inv b \<Longrightarrow> length (content b) = readableBytes b"
  by (auto simp: buf_defs)

lemma Buffer_new_inv [simp]: "buf_inv Buffer_new"
  by (simp add: buf_defs Buffer_new_def)

lemma Buffer_new_content [simp]: "content Buffer_new = []"
  by (simp add: buf_defs Buffer_new_def)

lemma content_split:
  "buf_inv b \<Longrightarrow> n \<le> readableBytes b \<Longrightarrow> slice b (peek b) (peek b + n) = take n (content b)"
  by (simp add: buf_defs min_def)

lemma slice_content:
  "buf_inv b \<Longrightarrow> i \<le> j \<Longrightarrow> j \<le> readableBytes b \<Longrightarrow>
   slice b (peek b + i) (peek b + j) = take (j - i) (drop i (content b))"
  by (simp add: buf_defs drop_take min_def add.commute)

lemma retrieve_ok [step_simps]:
  assumes "buf_inv b" "n \<le> readableBytes b"
  obtains b' where "retrieve b n = Some b'" "buf_inv b'" "content b' = drop n (content b)"
    "readableBytes b' = readableBytes b - n" "peek b' = peek b + n" "store b' = store b"
    "writerIndex b' = writerIndex b"
  using assms by (intro that [of "b\<lparr>readerIndex := readerIndex b + n\<rparr>"])
    (auto simp: retrieve_def buf_defs drop_take add.commute)

lemma retrieve_fail [step_simps]: "readableBytes b < n \<Longrightarrow> retrieve b n = None"
  by (simp add: retrieve_def)

lemma retrieveUntil_ok:
  assumes "buf_inv b" "n \<le> readableBytes b"
  obtains b' where "retrieveUntil b (peek b + n) = Some b'" "buf_inv b'" "content b' = drop n (content b)" "readableBytes b' = readableBytes b - n"
proof -
  obtain b' where "retrieve b n = Some b'" "buf_inv b'" "content b' = drop n (content b)" "readableBytes b' = readableBytes b - n"
    using retrieve_ok [OF assms] .
  moreover have "peek b + n \<le> beginWrite b" using assms by (auto simp: buf_defs)
  ultimately show thesis by (intro that [of b']) (simp_all add: retrieveUntil_def)
qed

lemma makeSpace_ok:
  assumes inv: "buf_inv b" and less: "writableBytes b < len"
  obtains b' where "makeSpace b len = Some b'" "buf_inv b'" "content b' = content b"
    "len \<le> writableBytes b'"
proof (cases "writableBytes b + prependableBytes b < len + kCheapPrepend")
  case True
  with inv less show ?thesis
    by (intro that [of "b\<lparr>store := resize (store b) (writerIndex b + len)\<rparr>"])
      (auto simp: makeSpace_def resize_def buf_defs)
next
  case False
  let ?src = "slice b (readerIndex b) (writerIndex b)"
  let ?b = "b\<lparr>store := copy_to (store b) kCheapPrepend ?src,
                readerIndex := kCheapPrepend, writerIndex := kCheapPrepend + readableBytes b\<rparr>"
  from False less have r: "kCheapPrepend < readerIndex b"
    by (simp add: prependableBytes_def)
  have l: "length ?src = readableBytes b" "kCheapPrepend + length ?src \<le> length (store b)"
    using inv r by (auto simp: buf_defs)
  have "content ?b = content b"
    using take_drop_copy_to_same [OF l(2)] l(1) by (simp add: buf_defs)
  moreover have "buf_inv ?b" "len \<le> writableBytes ?b"
    using inv l False r by (auto simp: buf_defs)
  ultimately show ?thesis
    using False r by (intro that [of ?b]) (auto simp: makeSpace_def readableBytes_def)
qed

lemma ensureWritableBytes_ok:
  assumes "buf_inv b"
  obtains b' where "ensureWritableBytes b len = Some b'" "buf_inv b'" "content b' = content b"
    "len \<le> writableBytes b'"
proof (cases "writableBytes b < len")
  case True
  from makeSpace_ok [OF assms True] show ?thesis
    using True that by (fastforce simp: ensureWritableBytes_def)
next
  case False
  with assms that [of b] show ?thesis by (simp add: ensureWritableBytes_def)
qed

lemma write_content:
  assumes "buf_inv b" "length data \<le> writableBytes b"
  shows "content (b\<lparr>store := copy_to (store b) (writerIndex b) data,
                    writerIndex := writerIndex b + length data\<rparr>) = content b @ data"
    and "buf_inv (b\<lparr>store := copy_to (store b) (writerIndex b) data,
                    writerIndex := writerIndex b + length data\<rparr>)"
  using assms take_drop_copy_to [of "writerIndex b" data "store b" "readerIndex b"]
  by (auto simp: buf_defs)

lemma append_buf_ok [step_simps]:
  assumes "buf_inv b"
  obtains b' where "append_buf b data = Some b'" "buf_inv b'" "content b' = content b @ data"
proof -
  obtain b1 where b1: "ensureWritableBytes b (length data) = Some b1" "buf_inv b1"
    "content b1 = content b" "length data \<le> writableBytes b1"
    using ensureWritableBytes_ok [OF assms] .
  show thesis
    using write_content [OF b1(2,4)] b1
    by (intro that) (auto simp: append_buf_def hasWritten_def beginWrite_def)
qed

lemma append_buf_prependable:
  "append_buf b data = Some b' \<Longrightarrow> kCheapPrepend \<le> prependableBytes b \<Longrightarrow> kCheapPrepend \<le> prependableBytes b'"
  by (auto simp: append_buf_def ensureWritableBytes_def makeSpace_def hasWritten_def prependableBytes_def
      Let_def split: if_splits bind_splits)

lemma prepend_ok [step_simps]:
  assumes "buf_inv b" "length data \<le> prependableBytes b"
  obtains b' where "prepend b data = Some b'" "buf_inv b'" "content b' = data @ content b"
    "prependableBytes b' = prependableBytes b - length data"
proof -
  let ?r = "readerIndex b - length data"
  let ?b = "b\<lparr>store := copy_to (store b) ?r data, readerIndex := ?r\<rparr>"
  have r: "min (length (store b)) ?r = ?r" "?r + length data = readerIndex b"
    using assms by (auto simp: buf_defs)
  then have "drop ?r (copy_to (store b) ?r data) = data @ drop (readerIndex b) (store b)"
    by (simp add: copy_to_def)
  then have "content ?b = data @ content b" "buf_inv ?b"
    using assms by (auto simp: buf_defs)
  then show thesis
    using assms by (intro that [of ?b]) (auto simp: prepend_def prependableBytes_def Let_def)
qed

lemma prepend_fail [step_simps]: "prependableBytes b < length data \<Longrightarrow> prepend b data = None"
  by (simp add: prepend_def)

lemma readFd_ok:
  assumes "buf_inv b"
  obtains b' where "readFd b (Inr data) = Some (int (length data), None, b')" "buf_inv b'"
    "content b' = content b @ data"
proof (cases "length data \<le> writableBytes b")
  case True
  then show thesis
    using write_content [OF assms True] by (intro that) (auto simp: readFd_def Let_def)
next
  case False
  let ?hd = "take (writableBytes b) data"
  let ?b = "b\<lparr>store := copy_to (store b) (writerIndex b) ?hd, writerIndex := length (store b)\<rparr>"
  have "length ?hd = writableBytes b" using False by simp
  then have hd: "writerIndex b + length ?hd = length (store b)" "length ?hd \<le> writableBytes b"
    using assms by (auto simp: buf_defs)
  have "buf_inv ?b" "content ?b = content b @ ?hd"
    using write_content [OF assms hd(2)] hd(1) by simp_all
  then obtain b' where "append_buf ?b (drop (writableBytes b) data) = Some b'" "buf_inv b'"
    "content b' = (content b @ ?hd) @ drop (writableBytes b) data"
    using append_buf_ok by metis
  then show thesis
    using False by (intro that) (auto simp: readFd_def Let_def)
qed

lemma shrink_keeps_content:
  assumes "buf_inv b" "readerIndex b = kCheapPrepend"
  shows "buf_inv (shrink b n)" "content (shrink b n) = content b"
  using assms take_drop_copy_to_same
      [of kCheapPrepend "content b" "replicate (kCheapPrepend + readableBytes b + n) (CHR 0x00)"]
  by (auto simp: shrink_def buf_defs)

lemma shrink_can_break: "\<exists>b. buf_inv b \<and> \<not> buf_inv (shrink b 0)"
  by (rule exI [of _ "\<lparr>store = replicate 20 (CHR 0x00), readerIndex = 18, writerIndex = 20\<rparr>"])
    (simp add: shrink_def buf_defs kCheapPrepend_def copy_to_def)

lemma retrieveAll_ok:
  "kCheapPrepend \<le> length (store b) \<Longrightarrow> buf_inv (retrieveAll b) \<and> content (retrieveAll b) = []"
  by (simp add: retrieveAll_def buf_defs)

section \<open>Lines\<close>

text \<open>A text with no line break inside, and the lines at the front of a buffer.\<close>

definition no_crlf :: "string \<Rightarrow> bool" where
  "no_crlf s \<longleftrightarrow> search_first kCRLF s = None"

lemma length_kCRLF [simp]: "length kCRLF = 2"
  by (simp add: kCRLF_def)

lemma search_first_append: "search_first pat xs = Some i \<Longrightarrow> search_first pat (xs @ ys) = Some i"
proof (induction xs arbitrary: i)
  case Nil
  then show ?case by (cases ys) (auto split: if_splits)
next
  case (Cons x xs)
  show ?case
  proof (cases "prefix pat (x # xs)")
    case True
    then have "prefix pat ((x # xs) @ ys)" by (rule prefix_prefix)
    then show ?thesis using True Cons.prems by simp
  next
    case False
    then obtain k where k: "search_first pat xs = Some k" "i = Suc k" using Cons.prems by auto
    have "length pat \<le> length xs" using search_first_Some [OF k(1)] by simp
    then have "\<not> prefix pat ((x # xs) @ ys)"
      using False prefix_length_prefix [of pat "(x # xs) @ ys" "x # xs"] by auto
    then show ?thesis using Cons.IH [OF k(1)] k(2) by simp
  qed
qed

lemma search_first_crlf: "no_crlf s \<Longrightarrow> search_first kCRLF (s @ kCRLF @ ys) = Some (length s)"
proof (induction s)
  case Nil
  then show ?case by (simp add: kCRLF_def)
next
  case (Cons c s)
  have n: "no_crlf s" "\<not> prefix kCRLF (c # s)" using Cons.prems by (auto simp: no_crlf_def split: if_splits)
  have "\<not> prefix kCRLF ((c # s) @ kCRLF @ ys)" using n(2) by (cases s) (auto simp: kCRLF_def)
  then show ?case using Cons.IH [OF n(1)] by simp
qed

lemma line_slice:
  assumes b: "buf_inv b" and i: "search_first kCRLF (content b) = Some i"
  shows "i + 2 \<le> readableBytes b" "slice b (peek b) (peek b + i) = take i (content b)"
  using search_first_Some [OF i] b content_split [OF b, of i] by simp_all

section \<open>The queue contract\<close>

fun put_all :: "('b \<Rightarrow> bytes \<Rightarrow> 'b option) \<Rightarrow> 'b \<Rightarrow> bytes list \<Rightarrow> 'b option" where
  "put_all put b [] = Some b"
| "put_all put b (x # xs) = do { b' \<leftarrow> put b x; put_all put b' xs }"

locale byte_queue =
  fixes inv :: "'b \<Rightarrow> bool"
    and contents :: "'b \<Rightarrow> bytes"
    and put :: "'b \<Rightarrow> bytes \<Rightarrow> 'b option"
    and get :: "'b \<Rightarrow> nat \<Rightarrow> 'b option"
  assumes put_ok: "inv b \<Longrightarrow> \<exists>b'. put b xs = Some b' \<and> inv b' \<and> contents b' = contents b @ xs"
    and get_ok: "inv b \<Longrightarrow> n \<le> length (contents b) \<Longrightarrow>
      \<exists>b'. get b n = Some b' \<and> inv b' \<and> contents b' = drop n (contents b)"
    and get_fail: "inv b \<Longrightarrow> length (contents b) < n \<Longrightarrow> get b n = None"
begin

lemma put_all_ok:
  "inv b \<Longrightarrow> \<exists>b'. put_all put b xss = Some b' \<and> inv b' \<and> contents b' = contents b @ concat xss"
proof (induction xss arbitrary: b)
  case Nil
  then show ?case by simp
next
  case (Cons xs xss)
  obtain b1 where b1: "put b xs = Some b1" "inv b1" "contents b1 = contents b @ xs"
    using put_ok [OF Cons.prems] by blast
  then show ?case using Cons.IH [OF b1(2)] by auto
qed

lemma fifo:
  assumes "inv b"
  shows "\<exists>b' b''. put_all put b xss = Some b' \<and> get b' (length (contents b)) = Some b''
    \<and> inv b'' \<and> contents b'' = concat xss"
proof -
  obtain b' where b': "put_all put b xss = Some b'" "inv b'" "contents b' = contents b @ concat xss"
    using put_all_ok [OF assms] by blast
  moreover obtain b'' where "get b' (length (contents b)) = Some b''" "inv b''"
    "contents b'' = drop (length (contents b)) (contents b')"
    using get_ok [OF b'(2), of "length (contents b)"] b'(3) by auto
  ultimately show ?thesis by auto
qed

end

interpretation bq: byte_queue buf_inv content append_buf retrieve
proof
  show "buf_inv b \<Longrightarrow> \<exists>b'. append_buf b xs = Some b' \<and> buf_inv b' \<and> content b' = content b @ xs" for b xs
    by (metis append_buf_ok)
  show "\<exists>b'. retrieve b n = Some b' \<and> buf_inv b' \<and> content b' = drop n (content b)"
    if "buf_inv b" "n \<le> length (content b)" for b n
    using that by (metis retrieve_ok length_content)
  show "retrieve b n = None" if "buf_inv b" "length (content b) < n" for b n
    using that by (simp add: retrieve_fail)
qed

section \<open>Operation sequences\<close>

text \<open>
  A client's view of the buffer: a sequence of calls and their replies. \<open>queue_op\<close> is the
  specification, on the readable bytes alone; \<open>buffer_op\<close> performs the same call on the buffer.
  \<open>None\<close> is a failed assertion on both sides.
\<close>

datatype buf_op =
    Op_append bytes | Op_appendInt64 "64 word" | Op_appendInt32 "32 word" | Op_ensureWritableBytes nat
  | Op_readFd bytes | Op_retrieve nat | Op_retrieveAsString nat | Op_retrieveAllAsString | Op_retrieveAll
  | Op_peekInt64 | Op_peekInt32 | Op_findCRLF

datatype reply = R_unit | R_string bytes | R_int64 "64 word" | R_int32 "32 word" | R_pos "nat option" | R_size int

definition queue_op :: "bytes \<Rightarrow> buf_op \<Rightarrow> (reply \<times> bytes) option" where
  "queue_op q oper =
     (case oper of
        Op_append xs \<Rightarrow> Some (R_unit, q @ xs)
      | Op_appendInt64 w \<Rightarrow> Some (R_unit, q @ be64 w)
      | Op_appendInt32 w \<Rightarrow> Some (R_unit, q @ be32 w)
      | Op_ensureWritableBytes n \<Rightarrow> Some (R_unit, q)
      | Op_readFd xs \<Rightarrow> Some (R_size (int (length xs)), q @ xs)
      | Op_retrieve n \<Rightarrow> do { ensure (n \<le> length q); Some (R_unit, drop n q) }
      | Op_retrieveAsString n \<Rightarrow> do { ensure (n \<le> length q); Some (R_string (take n q), drop n q) }
      | Op_retrieveAllAsString \<Rightarrow> Some (R_string q, [])
      | Op_retrieveAll \<Rightarrow> Some (R_unit, [])
      | Op_peekInt64 \<Rightarrow> do { ensure (8 \<le> length q); Some (R_int64 (networkToHost64 (load64 (take 8 q))), q) }
      | Op_peekInt32 \<Rightarrow> do { ensure (4 \<le> length q); Some (R_int32 (networkToHost32 (load32 (take 4 q))), q) }
      | Op_findCRLF \<Rightarrow> Some (R_pos (search_first kCRLF q), q))"

definition buffer_op :: "buffer \<Rightarrow> buf_op \<Rightarrow> (reply \<times> buffer) option" where
  "buffer_op b oper =
     (case oper of
        Op_append xs \<Rightarrow> map_option (Pair R_unit) (append_buf b xs)
      | Op_appendInt64 w \<Rightarrow> map_option (Pair R_unit) (appendInt64 b w)
      | Op_appendInt32 w \<Rightarrow> map_option (Pair R_unit) (appendInt32 b w)
      | Op_ensureWritableBytes n \<Rightarrow> map_option (Pair R_unit) (ensureWritableBytes b n)
      | Op_readFd xs \<Rightarrow> map_option (\<lambda>(n, e, b'). (R_size n, b')) (readFd b (Inr xs))
      | Op_retrieve n \<Rightarrow> map_option (Pair R_unit) (retrieve b n)
      | Op_retrieveAsString n \<Rightarrow> map_option (\<lambda>(s, b'). (R_string s, b')) (retrieveAsString b n)
      | Op_retrieveAllAsString \<Rightarrow> map_option (\<lambda>(s, b'). (R_string s, b')) (retrieveAllAsString b)
      | Op_retrieveAll \<Rightarrow> Some (R_unit, retrieveAll b)
      | Op_peekInt64 \<Rightarrow> map_option (\<lambda>w. (R_int64 w, b)) (peekInt64 b)
      | Op_peekInt32 \<Rightarrow> map_option (\<lambda>w. (R_int32 w, b)) (peekInt32 b)
      | Op_findCRLF \<Rightarrow> Some (R_pos (map_option (\<lambda>p. p - peek b) (findCRLF b)), b))"

fun run_ops :: "('b \<Rightarrow> buf_op \<Rightarrow> (reply \<times> 'b) option) \<Rightarrow> 'b \<Rightarrow> buf_op list \<Rightarrow> (reply list \<times> 'b) option" where
  "run_ops step b [] = Some ([], b)"
| "run_ops step b (oper # ops) = do {
     (r, b') \<leftarrow> step b oper;
     (rs, b'') \<leftarrow> run_ops step b' ops;
     Some (r # rs, b'')
   }"

definition buf_ok :: "buffer \<Rightarrow> bool" where
  "buf_ok b \<longleftrightarrow> buf_inv b \<and> kCheapPrepend \<le> length (store b)"

definition buf_sim :: "('r \<times> buffer) option \<Rightarrow> ('r \<times> bytes) option \<Rightarrow> bool" where
  "buf_sim x y \<longleftrightarrow> rel_option (\<lambda>(r, b) (r', q). r = r' \<and> buf_ok b \<and> content b = q) x y"

lemma makeSpace_size:
  "makeSpace b n = Some b' \<Longrightarrow> buf_inv b \<Longrightarrow> writableBytes b < n \<Longrightarrow> length (store b) \<le> length (store b')"
  by (auto simp: makeSpace_def resize_def writableBytes_def buf_inv_def Let_def
      intro!: length_copy_to_ge split: if_splits)

lemma ensureWritableBytes_size:
  assumes "ensureWritableBytes b n = Some b'" "buf_inv b"
  shows "length (store b) \<le> length (store b')"
proof (cases "writableBytes b < n")
  case True
  then have "makeSpace b n = Some b'"
    using assms(1) by (auto simp: ensureWritableBytes_def split: bind_splits)
  then show ?thesis using makeSpace_size assms True by blast
next
  case False
  then show ?thesis using assms(1) by (simp add: ensureWritableBytes_def)
qed

lemma append_buf_size:
  assumes "append_buf b xs = Some b'" "buf_inv b"
  shows "length (store b) \<le> length (store b')"
proof -
  obtain b1 where b1: "ensureWritableBytes b (length xs) = Some b1" "buf_inv b1"
    using ensureWritableBytes_ok [OF assms(2)] .
  have "length (store b1) \<le> length (store b')"
    using assms(1) b1 by (auto simp: append_buf_def hasWritten_def beginWrite_def buf_inv_def
        intro!: length_copy_to_ge)
  with ensureWritableBytes_size [OF b1(1) assms(2)] show ?thesis by simp
qed

lemma readFd_size:
  assumes "readFd b (Inr xs) = Some (n, e, b')" "buf_inv b"
  shows "length (store b) \<le> length (store b')"
proof (cases "length xs \<le> writableBytes b")
  case True
  then show ?thesis
    using assms by (auto simp: readFd_def Let_def buf_inv_def intro!: length_copy_to_ge)
next
  case False
  let ?hd = "take (writableBytes b) xs"
  let ?b = "b\<lparr>store := copy_to (store b) (writerIndex b) ?hd, writerIndex := length (store b)\<rparr>"
  have l: "writerIndex b + length ?hd = length (store b)"
    using False assms(2) by (simp add: writableBytes_def buf_inv_def)
  then have "buf_inv ?b" using assms(2) by (simp add: buf_inv_def)
  then show ?thesis
    using append_buf_size [of ?b "drop (writableBytes b) xs" b'] False assms(1) l
    by (auto simp: readFd_def Let_def split: bind_splits)
qed

lemma buf_sim_Some [simp]: "buf_sim (Some (r, b)) y \<longleftrightarrow> buf_ok b \<and> y = Some (r, content b)"
  by (cases y) (auto simp: buf_sim_def)

lemma buf_sim_None [simp]: "buf_sim None y \<longleftrightarrow> y = None"
  by (cases y) (auto simp: buf_sim_def)

lemma append_sim:
  assumes "buf_ok b"
  shows "buf_sim (map_option (Pair R_unit) (append_buf b xs)) (Some (R_unit, content b @ xs))"
proof -
  obtain b' where b': "append_buf b xs = Some b'" "buf_inv b'" "content b' = content b @ xs"
    using append_buf_ok assms by (metis buf_ok_def)
  then show ?thesis
    using append_buf_size [OF b'(1)] assms by (simp add: buf_ok_def)
qed

lemma retrieveAsString_ok:
  assumes "buf_ok b" "n \<le> readableBytes b"
  obtains b' where "retrieveAsString b n = Some (take n (content b), b')" "buf_ok b'"
    "content b' = drop n (content b)"
proof -
  have inv: "buf_inv b" using assms by (simp add: buf_ok_def)
  obtain b' where "retrieve b n = Some b'" "buf_inv b'" "content b' = drop n (content b)" "store b' = store b"
    using retrieve_ok [OF inv assms(2)] .
  then show thesis
    using that [of b'] content_split [OF inv assms(2)] assms by (simp add: retrieveAsString_def buf_ok_def)
qed

lemma buffer_op_sim:
  assumes ok: "buf_ok b"
  shows "buf_sim (buffer_op b oper) (queue_op (content b) oper)"
proof (cases oper)
  case (Op_append xs)
  then show ?thesis using append_sim [OF ok] by (simp add: buffer_op_def queue_op_def)
next
  case (Op_appendInt64 w)
  then show ?thesis
    using append_sim [OF ok, of "be64 w"]
    by (simp add: buffer_op_def queue_op_def appendInt64_def mem_hostToNetwork be64_def)
next
  case (Op_appendInt32 w)
  then show ?thesis
    using append_sim [OF ok, of "be32 w"]
    by (simp add: buffer_op_def queue_op_def appendInt32_def mem_hostToNetwork be32_def)
next
  case (Op_ensureWritableBytes n)
  obtain b' where b': "ensureWritableBytes b n = Some b'" "buf_inv b'" "content b' = content b"
    using ensureWritableBytes_ok ok by (metis buf_ok_def)
  then show ?thesis
    using Op_ensureWritableBytes ensureWritableBytes_size [OF b'(1)] ok
    by (simp add: buffer_op_def queue_op_def buf_ok_def)
next
  case (Op_readFd xs)
  obtain b' where b': "readFd b (Inr xs) = Some (int (length xs), None, b')" "buf_inv b'"
      "content b' = content b @ xs"
    using readFd_ok ok by (metis buf_ok_def)
  then show ?thesis
    using Op_readFd readFd_size [OF b'(1)] ok by (simp add: buffer_op_def queue_op_def buf_ok_def)
next
  case (Op_retrieve n)
  show ?thesis
  proof (cases "n \<le> readableBytes b")
    case True
    have inv: "buf_inv b" using ok by (simp add: buf_ok_def)
    obtain b' where "retrieve b n = Some b'" "buf_inv b'" "content b' = drop n (content b)"
        "store b' = store b"
      using retrieve_ok [OF inv True] .
    then show ?thesis
      using Op_retrieve ok True by (simp add: buffer_op_def queue_op_def buf_ok_def)
  qed (use ok Op_retrieve in \<open>simp add: buffer_op_def queue_op_def buf_ok_def retrieve_fail\<close>)
next
  case (Op_retrieveAsString n)
  show ?thesis
  proof (cases "n \<le> readableBytes b")
    case True
    obtain b' where "retrieveAsString b n = Some (take n (content b), b')" "buf_ok b'"
        "content b' = drop n (content b)"
      using retrieveAsString_ok [OF ok True] .
    then show ?thesis
      using Op_retrieveAsString ok True by (simp add: buffer_op_def queue_op_def buf_ok_def)
  qed (use ok Op_retrieveAsString in \<open>simp add: buffer_op_def queue_op_def buf_ok_def retrieveAsString_def\<close>)
next
  case Op_retrieveAllAsString
  obtain b' where "retrieveAsString b (readableBytes b) = Some (take (readableBytes b) (content b), b')"
      "buf_ok b'" "content b' = drop (readableBytes b) (content b)"
    using retrieveAsString_ok [OF ok order_refl] .
  then show ?thesis
    using ok Op_retrieveAllAsString
    by (simp add: buffer_op_def queue_op_def buf_ok_def retrieveAllAsString_def)
next
  case Op_retrieveAll
  then show ?thesis
    using ok retrieveAll_ok [of b] by (simp add: buffer_op_def queue_op_def buf_ok_def retrieveAll_def)
next
  case Op_peekInt64
  then show ?thesis
    using ok content_split [of b 8]
    by (cases "8 \<le> readableBytes b") (auto simp: buffer_op_def queue_op_def buf_ok_def peekInt64_def)
next
  case Op_peekInt32
  then show ?thesis
    using ok content_split [of b 4]
    by (cases "4 \<le> readableBytes b") (auto simp: buffer_op_def queue_op_def buf_ok_def peekInt32_def)
next
  case Op_findCRLF
  then show ?thesis
    using ok by (simp add: buffer_op_def queue_op_def findCRLF_def option.map_comp comp_def option.map_ident)
qed

lemma run_ops_sim: "buf_ok b \<Longrightarrow> buf_sim (run_ops buffer_op b ops) (run_ops queue_op (content b) ops)"
proof (induction ops arbitrary: b)
  case Nil
  then show ?case by simp
next
  case (Cons oper ops)
  show ?case
  proof (cases "buffer_op b oper")
    case None
    then show ?thesis using buffer_op_sim [OF Cons.prems, of oper] by simp
  next
    case (Some rb)
    obtain r b' where rb: "rb = (r, b')" by (cases rb)
    have s: "buf_ok b'" "queue_op (content b) oper = Some (r, content b')"
      using buffer_op_sim [OF Cons.prems, of oper] Some rb by simp_all
    show ?thesis
      using Cons.IH [OF s(1)] s Some rb
      by (cases "run_ops buffer_op b' ops") (auto)
  qed
qed

section \<open>Properties\<close>


text \<open>
  \<open>prepend\<close> puts its bytes in front of the readable ones and keeps the rest, and there is always
  room for the first 8 bytes on a buffer that was only appended to.
\<close>

theorem prepend_after_appends:
  assumes "length hdr \<le> 8"
  shows "\<exists>b b'. put_all append_buf Buffer_new xss = Some b \<and> prepend b hdr = Some b'
    \<and> buf_inv b' \<and> content b' = hdr @ concat xss"
proof -
  have pre: "put_all append_buf b xss = Some b' \<Longrightarrow> kCheapPrepend \<le> prependableBytes b
      \<Longrightarrow> kCheapPrepend \<le> prependableBytes b'" for b b'
    by (induction xss arbitrary: b) (auto split: bind_splits dest: append_buf_prependable)
  obtain b where b: "put_all append_buf Buffer_new xss = Some b" "buf_inv b" "content b = concat xss"
    using bq.put_all_ok [OF Buffer_new_inv, of xss] by auto
  have "length hdr \<le> prependableBytes b"
    using pre [OF b(1)] assms by (simp add: Buffer_new_def prependableBytes_def kCheapPrepend_def)
  with b show ?thesis
    using prepend_ok [OF b(2)] by metis
qed

theorem prepend_after_appends_witness:
  "\<exists>b b'. put_all append_buf Buffer_new [''ab'', ''c''] = Some b \<and> prepend b ''1234'' = Some b'
    \<and> buf_inv b' \<and> content b' = ''1234abc''"
  using prepend_after_appends [of "''1234''" "[''ab'', ''c'']"] by simp

end
