(* ===== verification/Framing.thy ===== *)
theory Framing
  imports Buffer
begin

text \<open>
  What the message handlers of the servers have in common: a connection delivers a byte stream in
  arbitrary pieces, each piece is appended to the input buffer (\<open>Buffer::readFd\<close>) and a handler
  takes complete frames off the front of the buffer until none is left or the stream is malformed.

  \<open>framing\<close> is the contract of one frame recogniser on the readable bytes: it consumes a positive
  number of bytes that are there, and more bytes behind do not change its mind.
  \<open>framed_reader\<close> adds a handler on \<^typ>\<open>buffer\<close> that implements the loop. Inside the locale:
  the messages delivered do not depend on how the stream was cut into pieces.
\<close>

datatype ('m, 'e) frame = More | Bad 'e | Frame 'm nat

function decode :: "(bytes \<Rightarrow> ('m, 'e) frame) \<Rightarrow> bytes \<Rightarrow> 'm list \<times> bytes \<times> 'e option" where
  "decode frame xs =
     (case frame xs of
        More \<Rightarrow> ([], xs, None)
      | Bad e \<Rightarrow> ([], xs, Some e)
      | Frame m n \<Rightarrow>
          if 0 < n \<and> n \<le> length xs
          then (case decode frame (drop n xs) of (ms, rest, e) \<Rightarrow> (m # ms, rest, e))
          else ([], xs, None))"
  by pat_completeness auto
termination
  by (relation "measure (\<lambda>(frame, xs). length xs)") auto

declare decode.simps [simp del]

lemma decode_More [simp]: "frame xs = More \<Longrightarrow> decode frame xs = ([], xs, None)"
  by (simp add: decode.simps)

lemma decode_Bad [simp]: "frame xs = Bad e \<Longrightarrow> decode frame xs = ([], xs, Some e)"
  by (simp add: decode.simps)

text \<open>The input side of a connection: pieces arrive, the handler runs after each.\<close>

fun session :: "(buffer \<Rightarrow> ('m list \<times> 'e option \<times> buffer) option) \<Rightarrow> buffer \<Rightarrow> bytes list
    \<Rightarrow> ('m list \<times> buffer) option" where
  "session handler b [] = Some ([], b)"
| "session handler b (piece # pieces) = do {
     (n, err, b1) \<leftarrow> readFd b (Inr piece);
     (ms, e, b2) \<leftarrow> handler b1;
     (ms', b3) \<leftarrow> session handler b2 pieces;
     Some (ms @ ms', b3)
   }"

locale framing =
  fixes frame :: "bytes \<Rightarrow> ('m, 'e) frame"
  assumes frame_consumes: "frame xs = Frame m n \<Longrightarrow> 0 < n \<and> n \<le> length xs"
    and frame_stable: "frame xs = Frame m n \<Longrightarrow> frame (xs @ ys) = Frame m n"
    and bad_stable: "frame xs = Bad e \<Longrightarrow> frame (xs @ ys) = Bad e"
begin

lemma decode_Frame:
  "frame xs = Frame m n \<Longrightarrow>
   decode frame xs = (case decode frame (drop n xs) of (ms, rest, e) \<Rightarrow> (m # ms, rest, e))"
  using frame_consumes by (simp add: decode.simps [of frame xs])

lemma decode_cases [case_names More Bad Frame]:
  assumes "frame xs = More \<Longrightarrow> P" "\<And>e. frame xs = Bad e \<Longrightarrow> P"
    "\<And>m n. frame xs = Frame m n \<Longrightarrow> 0 < n \<Longrightarrow> n \<le> length xs \<Longrightarrow> P"
  shows P
  using assms frame_consumes by (cases "frame xs") auto

lemma decode_append:
  "decode frame xs = (ms, rest, e) \<Longrightarrow>
   decode frame (xs @ ys) =
     (case e of
        None \<Rightarrow> (case decode frame (rest @ ys) of (ms', rest', e') \<Rightarrow> (ms @ ms', rest', e'))
      | Some e' \<Rightarrow> (ms, rest @ ys, e))"
proof (induction "length xs" arbitrary: xs ms rest e rule: less_induct)
  case less
  show ?case
  proof (cases xs rule: decode_cases)
    case More
    with less.prems show ?thesis by (auto split: prod.splits)
  next
    case (Bad e')
    with less.prems show ?thesis by (auto simp: bad_stable)
  next
    case (Frame m n)
    obtain ms1 where d: "decode frame (drop n xs) = (ms1, rest, e)" "ms = m # ms1"
      using less.prems unfolding decode_Frame [OF Frame(1)] by (auto split: prod.splits)
    have "length (drop n xs) < length xs" using Frame by simp
    from less.hyps [OF this d(1)]
    have "decode frame (drop n (xs @ ys)) =
      (case e of
         None \<Rightarrow> (case decode frame (rest @ ys) of (ms', rest', e') \<Rightarrow> (ms1 @ ms', rest', e'))
       | Some e' \<Rightarrow> (ms1, rest @ ys, e))"
      using Frame by simp
    then show ?thesis
      unfolding decode_Frame [OF frame_stable [OF Frame(1)]] d(2)
      by (simp split: option.split prod.split)
  qed
qed

lemma decode_rest_quiet: "decode frame xs = (ms, rest, e) \<Longrightarrow> decode frame rest = ([], rest, e)"
proof (induction "length xs" arbitrary: xs ms rule: less_induct)
  case less
  show ?case
  proof (cases xs rule: decode_cases)
    case (Frame m n)
    then obtain ms1 where "decode frame (drop n xs) = (ms1, rest, e)"
      using less.prems unfolding decode_Frame [OF Frame(1)] by (auto split: prod.splits)
    then show ?thesis
      using less.hyps [of "drop n xs"] Frame by simp
  qed (use less.prems in auto)
qed

lemma decode_frames:
  assumes "\<And>m ys. m \<in> set ms \<Longrightarrow> frame (enc m @ ys) = Frame m (length (enc m))"
  shows "decode frame (concat (map enc ms) @ ys) =
    (case decode frame ys of (ms', rest, e) \<Rightarrow> (ms @ ms', rest, e))"
  using assms
proof (induction ms)
  case Nil
  then show ?case by simp
next
  case (Cons m ms)
  have "frame (enc m @ concat (map enc ms) @ ys) = Frame m (length (enc m))"
    using Cons.prems by simp
  from decode_Frame [OF this] Cons show ?case by (auto split: prod.splits)
qed

end

locale framed_reader = framing frame for frame :: "bytes \<Rightarrow> ('m, 'e) frame" +
  fixes handler :: "buffer \<Rightarrow> ('m list \<times> 'e option \<times> buffer) option"
  assumes handler_refines: "buf_inv b \<Longrightarrow> decode frame (content b) = (ms, rest, e) \<Longrightarrow>
    \<exists>b'. handler b = Some (ms, e, b') \<and> buf_inv b' \<and> content b' = rest"
begin

lemma session_decode:
  assumes "buf_inv b" "decode frame (content b) = ([], content b, e0)"
    and "decode frame (content b @ concat pieces) = (ms, rest, e)"
  shows "\<exists>b'. session handler b pieces = Some (ms, b') \<and> buf_inv b' \<and> content b' = rest"
  using assms
proof (induction pieces arbitrary: b e0 ms)
  case Nil
  then show ?case by simp
next
  case (Cons p ps)
  obtain b1 where b1: "readFd b (Inr p) = Some (int (length p), None, b1)" "buf_inv b1"
    "content b1 = content b @ p"
    using readFd_ok [OF Cons.prems(1)] .
  obtain ms1 r e1 where d: "decode frame (content b1) = (ms1, r, e1)" by (metis prod_cases3)
  obtain b2 where b2: "handler b1 = Some (ms1, e1, b2)" "buf_inv b2" "content b2 = r"
    using handler_refines [OF b1(2) d] by blast
  have q: "decode frame (content b2) = ([], content b2, e1)"
    using decode_rest_quiet [OF d] b2(3) by simp
  obtain ms2 r2 e2 where d2: "decode frame (content b2 @ concat ps) = (ms2, r2, e2)"
    by (metis prod_cases3)
  have "decode frame (content b1 @ concat ps) = (ms1 @ ms2, r2, e2)"
  proof (cases e1)
    case None
    then show ?thesis using decode_append [OF d] d2 b2(3) by simp
  next
    case (Some x)
    then show ?thesis using decode_append [OF d] decode_append [OF q] d2 b2(3) by simp
  qed
  then have "ms = ms1 @ ms2" "r2 = rest" "e2 = e"
    using Cons.prems(3) b1(3) by simp_all
  then obtain b3 where "session handler b2 ps = Some (ms2, b3)" "buf_inv b3" "content b3 = rest"
    using Cons.IH [OF b2(2) q] d2 by blast
  then show ?case
    using b1(1) b2(1) \<open>ms = _\<close> by simp
qed

text \<open>
  A stream of encoded messages, cut anywhere, is delivered message for message, and nothing is
  left in the buffer.
\<close>

lemma session_roundtrip:
  assumes enc: "\<And>m ys. m \<in> set ms \<Longrightarrow> frame (enc m @ ys) = Frame m (length (enc m))"
    and empty: "frame [] = More" and b: "buf_inv b" "content b = []"
    and pieces: "concat pieces = concat (map enc ms)"
  shows "\<exists>b'. session handler b pieces = Some (ms, b') \<and> buf_inv b' \<and> content b' = []"
proof -
  have d: "decode frame (content b @ concat pieces) = (ms, [], None)"
    using decode_frames [OF enc, of ms "[]"] empty b pieces by simp
  have q: "decode frame (content b) = ([], content b, None)"
    using empty b by simp
  show ?thesis
    by (rule session_decode [OF b(1) q d])
qed

end

end
