(* ===== verification/LengthHeaderCodec.thy ===== *)
theory LengthHeaderCodec
  imports Framing
begin

text \<open>
  \<open>LengthHeaderCodec\<close> of the chat servers (\<open>src/excercises/chat/codec.h\<close>): a message is a 32-bit
  big-endian length followed by that many bytes. \<open>LH_onMessage\<close> returns the messages handed to
  \<open>messageCallback_\<close>, the offending length when the handler shut the connection down, and the
  buffer. It is an instance of \<open>framed_reader\<close>.
\<close>

definition LH_kHeaderLen :: nat where "LH_kHeaderLen = 4"

function LH_onMessage :: "buffer \<Rightarrow> (bytes list \<times> int option \<times> buffer) option" where
  "LH_onMessage buf =
     (if LH_kHeaderLen \<le> readableBytes buf then
        let be = load32 (slice buf (peek buf) (peek buf + 4));
            len = sint (networkToHost32 be) in
        if len > 65536 \<or> len < 0 then Some ([], Some len, buf)
        else if nat len + LH_kHeaderLen \<le> readableBytes buf then do {
          buf1 \<leftarrow> retrieve buf LH_kHeaderLen;
          let message = slice buf1 (peek buf1) (peek buf1 + nat len);
          buf2 \<leftarrow> retrieve buf1 (nat len);
          (ms, e, buf3) \<leftarrow> LH_onMessage buf2;
          Some (message # ms, e, buf3)
        }
        else Some ([], None, buf)
      else Some ([], None, buf))"
  by pat_completeness auto
termination
  by (relation "measure readableBytes")
    (auto simp: retrieve_def readableBytes_def LH_kHeaderLen_def split: bind_splits)

declare LH_onMessage.simps [simp del]

definition LH_send :: "bytes \<Rightarrow> buffer option" where
  "LH_send message = do {
     buf \<leftarrow> append_buf Buffer_new message;
     let len = (word_of_nat (length message) :: 32 word);
     let be = hostToNetwork32 len;
     prepend buf (mem32 be)
   }"

text \<open>The frame recogniser the handler implements.\<close>

definition LH_frame :: "bytes \<Rightarrow> (bytes, int) frame" where
  "LH_frame xs =
     (if length xs < 4 then More
      else let len = sint (networkToHost32 (load32 (take 4 xs))) in
        if len > 65536 \<or> len < 0 then Bad len
        else if nat len + 4 \<le> length xs then Frame (take (nat len) (drop 4 xs)) (nat len + 4)
        else More)"

definition LH_encode :: "bytes \<Rightarrow> bytes" where
  "LH_encode m = be32 (word_of_nat (length m)) @ m"

lemma LH_framing: "framing LH_frame"
  by unfold_locales (auto simp: LH_frame_def Let_def split: if_splits)

interpretation lhf: framing LH_frame
  by (rule LH_framing)

lemma LH_onMessage_refines:
  "buf_inv b \<Longrightarrow> decode LH_frame (content b) = (ms, rest, e) \<Longrightarrow>
   \<exists>b'. LH_onMessage b = Some (ms, e, b') \<and> buf_inv b' \<and> content b' = rest"
proof (induction "readableBytes b" arbitrary: b ms rule: less_induct)
  case less
  note inv = less.prems(1)
  have hd: "4 \<le> readableBytes b \<Longrightarrow> slice b (peek b) (peek b + 4) = take 4 (content b)"
    using content_split [OF inv] by simp
  show ?case
  proof (cases "content b" rule: lhf.decode_cases)
    case More
    then show ?thesis
      using less.prems hd by (subst LH_onMessage.simps)
        (auto simp: LH_frame_def Let_def LH_kHeaderLen_def split: if_splits)
  next
    case (Bad e')
    then show ?thesis
      using less.prems hd by (subst LH_onMessage.simps)
        (auto simp: LH_frame_def Let_def LH_kHeaderLen_def split: if_splits)
  next
    case (Frame m n)
    let ?len = "sint (networkToHost32 (load32 (take 4 (content b))))"
    have len: "\<not> (?len > 65536 \<or> ?len < 0)" "n = nat ?len + 4" "n \<le> readableBytes b"
      "m = take (nat ?len) (drop 4 (content b))"
      using Frame(1) inv by (auto simp: LH_frame_def Let_def split: if_splits)
    obtain b1 where b1: "retrieve b 4 = Some b1" "buf_inv b1" "content b1 = drop 4 (content b)"
        "readableBytes b1 = readableBytes b - 4"
      using retrieve_ok [OF inv, of 4] len by (metis le_add2 le_trans)
    have le: "nat ?len \<le> readableBytes b1" using b1 len by simp
    obtain b2 where r2: "retrieve b1 (nat ?len) = Some b2" "buf_inv b2"
        "content b2 = drop (nat ?len) (content b1)" "readableBytes b2 = readableBytes b1 - nat ?len"
      by (rule retrieve_ok [OF b1(2) le])
    then have b2: "retrieve b1 (nat ?len) = Some b2" "buf_inv b2"
        "content b2 = drop n (content b)" "readableBytes b2 = readableBytes b - n"
      using b1 len by simp_all
    obtain ms1 where d: "decode LH_frame (content b2) = (ms1, rest, e)" "ms = m # ms1"
      using less.prems(2) unfolding lhf.decode_Frame [OF Frame(1)] b2 by (auto split: prod.splits)
    have "readableBytes b2 < readableBytes b" using b2 len by linarith
    then obtain b3 where b3: "LH_onMessage b2 = Some (ms1, e, b3)" "buf_inv b3" "content b3 = rest"
      using less.hyps [OF _ b2(2) d(1)] by blast
    have "slice b1 (peek b1) (peek b1 + nat ?len) = m"
      using content_split [OF b1(2), of "nat ?len"] b1 len by simp
    then show ?thesis
      using b1 b2 b3 d len hd by (subst LH_onMessage.simps) (simp add: Let_def LH_kHeaderLen_def)
  qed
qed

interpretation lh: framed_reader LH_frame LH_onMessage
  by unfold_locales (rule LH_onMessage_refines)

lemma LH_frame_encode:
  assumes "length m \<le> 65536"
  shows "LH_frame (LH_encode m @ ys) = Frame m (length (LH_encode m))"
proof -
  have "sint (word_of_nat (length m) :: 32 word) = int (length m)"
    using assms by (simp add: signed_of_nat signed_take_bit_int_eq_self)
  then show ?thesis
    using assms by (simp add: LH_frame_def LH_encode_def Let_def)
qed

lemma LH_send_content:
  obtains b where "LH_send m = Some b" "buf_inv b" "content b = LH_encode m"
proof -
  obtain b1 where b1: "append_buf Buffer_new m = Some b1" "buf_inv b1" "content b1 = m"
    using append_buf_ok [OF Buffer_new_inv] by auto
  have "4 \<le> prependableBytes b1"
    using append_buf_prependable [OF b1(1)] by (simp add: Buffer_new_def prependableBytes_def kCheapPrepend_def)
  then obtain b2 where "prepend b1 (mem32 (hostToNetwork32 (word_of_nat (length m)))) = Some b2"
      "buf_inv b2" "content b2 = mem32 (hostToNetwork32 (word_of_nat (length m))) @ m"
    using prepend_ok [OF b1(2), of "mem32 (hostToNetwork32 (word_of_nat (length m)))"] b1 by auto
  then show thesis
    using b1 by (intro that) (auto simp: LH_send_def LH_encode_def be32_def mem_hostToNetwork)
qed

section \<open>Properties\<close>

lemma LH_stream_decode:
  assumes "\<forall>m\<in>set ms. length m \<le> 65536" "map LH_send ms = map Some bufs"
  shows "decode LH_frame (concat (map content bufs) @ ys) =
    (case decode LH_frame ys of (ms', rest, e) \<Rightarrow> (ms @ ms', rest, e))"
proof -
  have "map content bufs = map LH_encode ms"
    using assms(2)
  proof (induction ms arbitrary: bufs)
    case (Cons m ms)
    obtain b where "LH_send m = Some b" "content b = LH_encode m"
      using LH_send_content .
    with Cons show ?case
      by (cases bufs) auto
  qed simp
  then show ?thesis
    using lhf.decode_frames [of ms LH_encode ys] assms(1) by (simp add: LH_frame_encode)
qed

text \<open>
  C1: messages of at most 65536 bytes sent with \<open>LengthHeaderCodec::send\<close> reach the receiver's
  \<open>messageCallback_\<close> exactly once, unchanged and in order, however the network cuts the byte stream
  into the pieces that \<open>readFd\<close> delivers; no assertion fails and no byte is left in the buffer.
\<close>

theorem LH_stream_roundtrip:
  assumes "\<forall>m\<in>set ms. length m \<le> 65536" "map LH_send ms = map Some bufs"
    and "concat pieces = concat (map content bufs)"
  shows "\<exists>b'. session LH_onMessage Buffer_new pieces = Some (ms, b') \<and> buf_inv b' \<and> content b' = []"
proof -
  have "LH_frame [] = More" by (simp add: LH_frame_def)
  then show ?thesis
    using LH_stream_decode [OF assms(1,2), of "[]"] assms(3)
    by (intro lh.session_decode [of _ None]) auto
qed

theorem LH_stream_roundtrip_witness:
  "\<exists>b'. session LH_onMessage Buffer_new [take 2 (be32 2), drop 2 (be32 2) @ ''h'', ''i'' @ be32 0]
     = Some ([''hi'', ''''], b') \<and> buf_inv b' \<and> content b' = []"
proof -
  obtain b1 where b1: "LH_send ''hi'' = Some b1" "content b1 = LH_encode ''hi''"
    using LH_send_content .
  obtain b2 where b2: "LH_send '''' = Some b2" "content b2 = LH_encode ''''"
    using LH_send_content .
  have "concat [take 2 (be32 2), drop 2 (be32 2) @ ''h'', ''i'' @ be32 0] = content b1 @ content b2"
    by (simp add: b1 b2 LH_encode_def flip: append_assoc)
  then show ?thesis
    using LH_stream_roundtrip [of "[''hi'', '''']" "[b1, b2]"
        "[take 2 (be32 2), drop 2 (be32 2) @ ''h'', ''i'' @ be32 0]"] b1 b2 by simp
qed

text \<open>
  C5: a header announcing a negative length or more than 65536 bytes stops the stream for good: the
  messages before it are delivered, whatever follows it is never handed to the callback and stays
  in the buffer, and the handler reports the bad length (the call of \<open>shutdown\<close>).
\<close>

theorem LH_invalid_length_stops:
  assumes "\<forall>m\<in>set ms. length m \<le> 65536" "map LH_send ms = map Some bufs"
    and "sint h < 0 \<or> 65536 < sint h"
    and "concat pieces = concat (map content bufs) @ be32 h @ junk"
  shows "\<exists>b'. session LH_onMessage Buffer_new pieces = Some (ms, b') \<and> content b' = be32 h @ junk
    \<and> LH_onMessage b' = Some ([], Some (sint h), b')"
proof -
  have bad: "LH_frame (be32 h @ junk) = Bad (sint h)"
    using assms(3) by (auto simp: LH_frame_def Let_def)
  then have d: "decode LH_frame (content Buffer_new @ concat pieces) = (ms, be32 h @ junk, Some (sint h))"
    using LH_stream_decode [OF assms(1,2), of "be32 h @ junk"] assms(4) by simp
  have "LH_frame [] = More" by (simp add: LH_frame_def)
  then obtain b' where b': "session LH_onMessage Buffer_new pieces = Some (ms, b')" "buf_inv b'"
      "content b' = be32 h @ junk"
    using lh.session_decode [OF Buffer_new_inv _ d, of None] by auto
  have r: "readableBytes b' = 4 + length junk"
    using length_content [OF b'(2)] b'(3) by simp
  have "LH_onMessage b' = Some ([], Some (sint h), b')"
    using assms(3) b' content_split [OF b'(2), of 4] r
    by (subst LH_onMessage.simps) (auto simp: Let_def LH_kHeaderLen_def)
  with b' show ?thesis by blast
qed

theorem LH_invalid_length_stops_witness:
  "\<exists>b'. session LH_onMessage Buffer_new [be32 (-1), ''xy''] = Some ([], b') \<and> content b' = be32 (-1) @ ''xy''
    \<and> LH_onMessage b' = Some ([], Some (-1), b')"
  using LH_invalid_length_stops [of "[]" "[]" "-1" "[be32 (-1), ''xy'']" "''xy''"] by simp

end
