(* ===== verification/ProtobufCodec.thy ===== *)
theory ProtobufCodec
  imports Framing
begin

text \<open>
  \<open>ProtobufCodec\<close> and \<open>ProtobufDispatcher\<close> of the chat server
  (\<open>src/excercises/chatServer/codec/\<close>). The wire format is

  \<^verbatim>\<open>len | nameLen | typeName '\0' | protobufData | checkSum\<close>

  The protobuf runtime is the record \<open>protobuf\<close> of the functions the codec calls, and zlib's
  \<open>adler32\<close> a further argument; \<open>pb_message\<close> states what the codec relies on for a message. The
  handler is an instance of \<open>framed_reader\<close>, with the \<open>ErrorCode\<close> given to \<open>errorCallback_\<close> as the
  error.
\<close>

record ('m, 'd) protobuf =
  GetTypeName :: "'m \<Rightarrow> string"
  GetDescriptor :: "'m \<Rightarrow> 'd"
  IsInitialized :: "'m \<Rightarrow> bool"
  ByteSize :: "'m \<Rightarrow> nat"
  SerializeWithCachedSizesToArray :: "'m \<Rightarrow> bytes"
  FindMessageTypeByName :: "string \<Rightarrow> 'd option"
  GetPrototype :: "'d \<Rightarrow> 'm option"
  New :: "'m \<Rightarrow> 'm"
  ParseFromArray :: "'m \<Rightarrow> bytes \<Rightarrow> bool \<times> 'm"

type_synonym checksum = "64 word \<Rightarrow> bytes \<Rightarrow> 64 word"

datatype ErrorCode =
  kNoError | kInvalidLength | kCheckSumError | kInvalidNameLen | kUnknownMessageType | kParseError

definition errorCodeToString :: "ErrorCode \<Rightarrow> string" where
  "errorCodeToString errorCode =
     (case errorCode of
        kNoError \<Rightarrow> ''NoError''
      | kInvalidLength \<Rightarrow> ''InvalidLength''
      | kCheckSumError \<Rightarrow> ''CheckSumError''
      | kInvalidNameLen \<Rightarrow> ''InvalidNameLen''
      | kUnknownMessageType \<Rightarrow> ''UnknownMessageType''
      | kParseError \<Rightarrow> ''ParseError'')"

definition kHeaderLen :: int where "kHeaderLen = 4"
definition kMinMessageLen :: int where "kMinMessageLen = 2 * kHeaderLen + 2"
definition kMaxMessageLen :: int where "kMaxMessageLen = 64 * 1024 * 1024"

section \<open>Sending\<close>

text \<open>
  \<open>fillEmptyBuffer\<close>: the failed \<open>GOOGLE_DCHECK\<close> and \<open>ByteSizeConsistencyError\<close>, which logs a fatal
  error, abort the process. A name of 2 GB, whose length does not fit \<open>int32_t\<close>, is outside the
  model.
\<close>

definition pb_checksum :: "checksum \<Rightarrow> bytes \<Rightarrow> 32 word" where
  "pb_checksum adler32 xs = ucast (adler32 1 xs)"

definition fillEmptyBuffer ::
    "('m, 'd) protobuf \<Rightarrow> checksum \<Rightarrow> buffer \<Rightarrow> 'm \<Rightarrow> buffer option" where
  "fillEmptyBuffer pb adler32 buf message = do {
     ensure (readableBytes buf = 0);
     let typeName = GetTypeName pb message;
     ensure (length typeName + 1 < 2 ^ 31);
     let nameLen = length typeName + 1;
     buf \<leftarrow> appendInt32 buf (word_of_nat nameLen);
     buf \<leftarrow> append_buf buf (typeName @ [CHR 0x00]);
     ensure (IsInitialized pb message);
     let byte_size = ByteSize pb message;
     buf \<leftarrow> ensureWritableBytes buf byte_size;
     let out = SerializeWithCachedSizesToArray pb message;
     ensure (length out = byte_size);
     let buf = hasWritten (buf\<lparr>store := copy_to (store buf) (beginWrite buf) out\<rparr>) byte_size;
     let checkSum = pb_checksum adler32 (slice buf (peek buf) (peek buf + readableBytes buf));
     buf \<leftarrow> appendInt32 buf checkSum;
     ensure (readableBytes buf = 4 + nameLen + byte_size + 4);
     let len = hostToNetwork32 (word_of_nat (readableBytes buf));
     prepend buf (mem32 len)
   }"

definition pb_send :: "('m, 'd) protobuf \<Rightarrow> checksum \<Rightarrow> 'm \<Rightarrow> buffer option" where
  "pb_send pb adler32 message = fillEmptyBuffer pb adler32 Buffer_new message"

section \<open>Receiving\<close>

definition asInt32 :: "bytes \<Rightarrow> int" where
  "asInt32 buf = sint (networkToHost32 (load32 (take 4 buf)))"

definition createMessage :: "('m, 'd) protobuf \<Rightarrow> string \<Rightarrow> 'm option" where
  "createMessage pb typeName =
     (case FindMessageTypeByName pb typeName of
        None \<Rightarrow> None
      | Some descriptor \<Rightarrow>
          (case GetPrototype pb descriptor of
             None \<Rightarrow> None
           | Some prototype \<Rightarrow> Some (New pb prototype)))"

text \<open>\<open>parse\<close> gets the \<open>len\<close> bytes behind the header; \<open>buf + n\<close> is \<^term>\<open>drop n buf\<close>.\<close>

definition parse ::
    "('m, 'd) protobuf \<Rightarrow> checksum \<Rightarrow> bytes \<Rightarrow> int \<Rightarrow> 'm option \<times> ErrorCode" where
  "parse pb adler32 buf len =
     (let expectedCheckSum = asInt32 (drop (nat (len - kHeaderLen)) buf);
          checkSum = sint (pb_checksum adler32 (take (nat (len - kHeaderLen)) buf)) in
      if checkSum = expectedCheckSum then
        let nameLen = asInt32 buf in
        if nameLen \<ge> 2 \<and> nameLen \<le> len - 2 * kHeaderLen then
          let typeName = take (nat (nameLen - 1)) (drop (nat kHeaderLen) buf) in
          (case createMessage pb typeName of
             Some message \<Rightarrow>
               let dataLen = len - nameLen - 2 * kHeaderLen;
                   data = take (nat dataLen) (drop (nat (kHeaderLen + nameLen)) buf) in
               (case ParseFromArray pb message data of
                  (True, message') \<Rightarrow> (Some message', kNoError)
                | (False, message') \<Rightarrow> (Some message', kParseError))
           | None \<Rightarrow> (None, kUnknownMessageType))
        else (None, kInvalidNameLen)
      else (None, kCheckSumError))"

function pb_onMessage ::
    "('m, 'd) protobuf \<Rightarrow> checksum \<Rightarrow> buffer \<Rightarrow> ('m list \<times> ErrorCode option \<times> buffer) option" where
  "pb_onMessage pb adler32 buf =
     (if int (readableBytes buf) \<ge> kMinMessageLen + kHeaderLen then do {
        len \<leftarrow> map_option sint (peekInt32 buf);
        if len > kMaxMessageLen \<or> len < kMinMessageLen then Some ([], Some kInvalidLength, buf)
        else if int (readableBytes buf) \<ge> len + kHeaderLen then
          (case parse pb adler32 (slice buf (peek buf + nat kHeaderLen)
                                   (peek buf + nat kHeaderLen + nat len)) len of
             (Some message, kNoError) \<Rightarrow> do {
               buf1 \<leftarrow> retrieve buf (nat (kHeaderLen + len));
               (ms, e, buf2) \<leftarrow> pb_onMessage pb adler32 buf1;
               Some (message # ms, e, buf2)
             }
           | (_, errorCode) \<Rightarrow> Some ([], Some errorCode, buf))
        else Some ([], None, buf)
      }
      else Some ([], None, buf))"
  by pat_completeness auto
termination
  by (relation "measure (\<lambda>(pb, adler32, b). readableBytes b)")
    (auto simp: retrieve_def readableBytes_def kHeaderLen_def kMinMessageLen_def split: bind_splits)

declare pb_onMessage.simps [simp del]

text \<open>\<open>defaultErrorCallback\<close>: the log line and whether the connection is shut down.\<close>

definition defaultErrorCallback :: "bool option \<Rightarrow> ErrorCode \<Rightarrow> string \<times> bool" where
  "defaultErrorCallback connected errorCode =
     (''ProtobufCodec::defaultErrorCallback - '' @ errorCodeToString errorCode, connected = Some True)"

section \<open>Dispatcher\<close>

text \<open>
  \<open>ProtobufDispatcher\<close>: a callback per descriptor. A \<open>CallbackT<T>\<close> carries the descriptor of \<open>T\<close>,
  against which \<open>down_pointer_cast\<close> checks the message (\<open>None\<close>: the assertion fails).
\<close>

datatype ('d, 'c) CallbackT = CallbackT (cb_type: 'd) (callback: 'c)

record ('d, 'c) ProtobufDispatcher =
  callbacks :: "'d \<rightharpoonup> ('d, 'c) CallbackT"
  defaultCallback :: 'c

definition ProtobufDispatcher_new :: "'c \<Rightarrow> ('d, 'c) ProtobufDispatcher" where
  "ProtobufDispatcher_new defaultCb = \<lparr>callbacks = Map.empty, defaultCallback = defaultCb\<rparr>"

definition CallbackT_onMessage :: "('m, 'd) protobuf \<Rightarrow> ('d, 'c) CallbackT \<Rightarrow> 'm \<Rightarrow> ('c \<times> 'm) option" where
  "CallbackT_onMessage pb cb message = do {
     ensure (GetDescriptor pb message = cb_type cb);
     Some (callback cb, message)
   }"

definition onProtobufMessage ::
    "('m, 'd) protobuf \<Rightarrow> ('d, 'c) ProtobufDispatcher \<Rightarrow> 'm \<Rightarrow> ('c \<times> 'm) option" where
  "onProtobufMessage pb d message =
     (case callbacks d (GetDescriptor pb message) of
        Some cb \<Rightarrow> CallbackT_onMessage pb cb message
      | None \<Rightarrow> Some (defaultCallback d, message))"

definition registerMessageCallback ::
    "('d, 'c) ProtobufDispatcher \<Rightarrow> 'd \<Rightarrow> 'c \<Rightarrow> ('d, 'c) ProtobufDispatcher" where
  "registerMessageCallback d T cb = d\<lparr>callbacks := (callbacks d)(T \<mapsto> CallbackT T cb)\<rparr>"

section \<open>Frames\<close>

definition pb_frame :: "('m, 'd) protobuf \<Rightarrow> checksum \<Rightarrow> bytes \<Rightarrow> ('m, ErrorCode) frame" where
  "pb_frame pb adler32 xs =
     (if length xs < 14 then More
      else let len = asInt32 xs in
        if len > kMaxMessageLen \<or> len < kMinMessageLen then Bad kInvalidLength
        else if int (length xs) \<ge> len + 4 then
          (case parse pb adler32 (take (nat len) (drop 4 xs)) len of
             (Some m, kNoError) \<Rightarrow> Frame m (nat (4 + len))
           | (_, e) \<Rightarrow> Bad e)
        else More)"

lemma asInt32_append [simp]: "4 \<le> length xs \<Longrightarrow> asInt32 (xs @ ys) = asInt32 xs"
  by (simp add: asInt32_def)

lemma asInt32_be32 [simp]: "asInt32 (be32 w @ ys) = sint w" "asInt32 (be32 w) = sint w"
  by (simp_all add: asInt32_def)

lemma pb_frame_append:
  "pb_frame pb adler32 xs \<noteq> More \<Longrightarrow> pb_frame pb adler32 (xs @ ys) = pb_frame pb adler32 xs"
  by (auto simp: pb_frame_def Let_def nat_le_iff split: if_splits)

interpretation pbf: framing "pb_frame pb adler32" for pb adler32
proof
  fix xs ys :: bytes and m n e
  show "pb_frame pb adler32 xs = Frame m n \<Longrightarrow> 0 < n \<and> n \<le> length xs"
    by (auto simp: pb_frame_def Let_def kMinMessageLen_def kHeaderLen_def
        split: if_splits prod.splits option.splits ErrorCode.splits)
  show "pb_frame pb adler32 xs = Frame m n \<Longrightarrow> pb_frame pb adler32 (xs @ ys) = Frame m n"
    "pb_frame pb adler32 xs = Bad e \<Longrightarrow> pb_frame pb adler32 (xs @ ys) = Bad e"
    by (simp_all add: pb_frame_append)
qed

text \<open>One iteration of the loop of \<open>onMessage\<close>, on a well-formed buffer.\<close>

lemma pb_onMessage_step:
  assumes inv: "buf_inv b"
  shows "pb_onMessage pb adler32 b =
    (case pb_frame pb adler32 (content b) of
       More \<Rightarrow> Some ([], None, b)
     | Bad e \<Rightarrow> Some ([], Some e, b)
     | Frame m n \<Rightarrow> do {
         b1 \<leftarrow> retrieve b n;
         (ms, e, b2) \<leftarrow> pb_onMessage pb adler32 b1;
         Some (m # ms, e, b2)
       })"
proof (cases "14 \<le> readableBytes b")
  case False
  then show ?thesis
    using inv by (subst pb_onMessage.simps) (simp add: pb_frame_def kHeaderLen_def kMinMessageLen_def)
next
  case True
  obtain z where len: "peekInt32 b = Some z" "sint z = asInt32 (content b)"
    using True content_split [OF inv, of 4] by (simp add: peekInt32_def asInt32_def)
  have sl: "slice b (peek b + 4) (peek b + 4 + n) = take n (drop 4 (content b))"
    if "4 + n \<le> readableBytes b" for n
    using slice_content [OF inv, of 4 "4 + n"] that by (simp add: add.assoc)
  show ?thesis
  proof (cases "asInt32 (content b) > kMaxMessageLen \<or> asInt32 (content b) < kMinMessageLen")
    case True
    then show ?thesis
      using \<open>14 \<le> readableBytes b\<close> inv len
      by (subst pb_onMessage.simps) (simp add: pb_frame_def kHeaderLen_def kMinMessageLen_def)
  next
    case ok: False
    then have pos: "0 \<le> asInt32 (content b)"
      by (simp add: kMinMessageLen_def kHeaderLen_def)
    show ?thesis
    proof (cases "asInt32 (content b) + 4 \<le> int (readableBytes b)")
      case False
      then show ?thesis
        using True inv len ok
        by (subst pb_onMessage.simps) (simp add: pb_frame_def kHeaderLen_def kMinMessageLen_def Let_def)
    next
      case le: True
      have "slice b (peek b + 4) (peek b + 4 + nat (asInt32 (content b)))
          = take (nat (asInt32 (content b))) (drop 4 (content b))"
        using le pos by (intro sl) simp
      then show ?thesis
        using True inv len ok le
        by (subst pb_onMessage.simps)
          (auto simp: pb_frame_def kHeaderLen_def kMinMessageLen_def Let_def
            split: prod.split option.split ErrorCode.split)
    qed
  qed
qed

lemma pb_onMessage_refines:
  "buf_inv b \<Longrightarrow> decode (pb_frame pb adler32) (content b) = (ms, rest, e) \<Longrightarrow>
   \<exists>b'. pb_onMessage pb adler32 b = Some (ms, e, b') \<and> buf_inv b' \<and> content b' = rest"
proof (induction "readableBytes b" arbitrary: b ms rule: less_induct)
  case less
  show ?case
  proof (cases "content b" rule: pbf.decode_cases [of pb adler32])
    case (Frame m n)
    have n: "0 < n" "n \<le> readableBytes b" using Frame less.prems by simp_all
    obtain b1 where b1: "retrieve b n = Some b1" "buf_inv b1" "content b1 = drop n (content b)"
        "readableBytes b1 = readableBytes b - n"
      using retrieve_ok [OF less.prems(1) n(2)] .
    obtain ms1 where d: "decode (pb_frame pb adler32) (content b1) = (ms1, rest, e)" "ms = m # ms1"
      using less.prems(2) unfolding pbf.decode_Frame [OF Frame(1)] b1 by (auto split: prod.splits)
    have "readableBytes b1 < readableBytes b" using b1 n by linarith
    then obtain b2 where "pb_onMessage pb adler32 b1 = Some (ms1, e, b2)" "buf_inv b2" "content b2 = rest"
      using less.hyps [OF _ b1(2) d(1)] by blast
    then show ?thesis
      using Frame b1 d less.prems by (simp add: pb_onMessage_step)
  qed (use less.prems in \<open>auto simp: pb_onMessage_step\<close>)
qed

interpretation pbr: framed_reader "pb_frame pb adler32" "pb_onMessage pb adler32" for pb adler32
  by unfold_locales (rule pb_onMessage_refines)

section \<open>Round trip\<close>

definition pb_body :: "('m, 'd) protobuf \<Rightarrow> 'm \<Rightarrow> bytes" where
  "pb_body pb m = be32 (word_of_nat (length (GetTypeName pb m) + 1)) @ GetTypeName pb m @ [CHR 0x00]
     @ SerializeWithCachedSizesToArray pb m"

definition pb_wrap :: "bytes \<Rightarrow> 32 word \<Rightarrow> bytes" where
  "pb_wrap body cs = be32 (word_of_nat (length body + 4)) @ body @ be32 cs"

definition pb_encode :: "('m, 'd) protobuf \<Rightarrow> checksum \<Rightarrow> 'm \<Rightarrow> bytes" where
  "pb_encode pb adler32 m = pb_wrap (pb_body pb m) (pb_checksum adler32 (pb_body pb m))"

text \<open>What the codec relies on of the protobuf runtime, for one message.\<close>

definition pb_message :: "('m, 'd) protobuf \<Rightarrow> 'm \<Rightarrow> bool" where
  "pb_message pb m \<longleftrightarrow>
     IsInitialized pb m \<and> ByteSize pb m = length (SerializeWithCachedSizesToArray pb m)
     \<and> (\<exists>d p. FindMessageTypeByName pb (GetTypeName pb m) = Some d \<and> GetPrototype pb d = Some p
          \<and> ParseFromArray pb (New pb p) (SerializeWithCachedSizesToArray pb m) = (True, m))"

definition pb_fits :: "('m, 'd) protobuf \<Rightarrow> 'm \<Rightarrow> bool" where
  "pb_fits pb m \<longleftrightarrow> GetTypeName pb m \<noteq> [] \<and>
     9 + length (GetTypeName pb m) + length (SerializeWithCachedSizesToArray pb m) \<le> 64 * 1024 * 1024"

lemma sint_word_of_nat: "n < 2 ^ 31 \<Longrightarrow> sint (word_of_nat n :: 32 word) = int n"
  by (simp add: signed_of_nat signed_take_bit_int_eq_self)

lemma pb_send_content:
  assumes "pb_message pb m" "length (GetTypeName pb m) + 1 < 2 ^ 31"
  obtains b where "pb_send pb adler32 m = Some b" "buf_inv b" "content b = pb_encode pb adler32 m"
proof -
  let ?name = "GetTypeName pb m" and ?out = "SerializeWithCachedSizesToArray pb m"
  let ?n = "word_of_nat (length ?name + 1) :: 32 word"
  let ?cs = "pb_checksum adler32 (pb_body pb m)"
  note pre = append_buf_prependable
  obtain b1 where b1: "appendInt32 Buffer_new ?n = Some b1" "buf_inv b1" "content b1 = be32 ?n"
    using append_buf_ok [OF Buffer_new_inv, of "be32 ?n"]
    by (metis appendInt32_def be32_def mem_hostToNetwork(2) Buffer_new_content append_Nil)
  obtain b2 where b2: "append_buf b1 (?name @ [CHR 0x00]) = Some b2" "buf_inv b2"
      "content b2 = be32 ?n @ ?name @ [CHR 0x00]"
    using append_buf_ok [OF b1(2)] b1(3) by metis
  obtain b3 where b3: "ensureWritableBytes b2 (length ?out) = Some b3" "buf_inv b3"
      "content b3 = content b2" "length ?out \<le> writableBytes b3"
    using ensureWritableBytes_ok [OF b2(2)] .
  define b4 where "b4 = hasWritten (b3\<lparr>store := copy_to (store b3) (beginWrite b3) ?out\<rparr>) (length ?out)"
  have ap4: "append_buf b2 ?out = Some b4"
    by (simp add: append_buf_def b3 b4_def)
  then have b4: "buf_inv b4" "content b4 = pb_body pb m"
    using append_buf_ok [OF b2(2), of ?out] b2(3) by (auto simp: pb_body_def)
  have cs: "slice b4 (peek b4) (peek b4 + readableBytes b4) = pb_body pb m"
    using content_split [OF b4(1), of "readableBytes b4"] b4 length_content [OF b4(1)] by simp
  obtain b5 where b5: "appendInt32 b4 ?cs = Some b5" "buf_inv b5" "content b5 = pb_body pb m @ be32 ?cs"
    using append_buf_ok [OF b4(1), of "be32 ?cs"] b4(2)
    by (metis appendInt32_def be32_def mem_hostToNetwork(2))
  have len: "readableBytes b5 = length (pb_body pb m) + 4"
    using length_content [OF b5(2)] b5(3) by simp
  have "kCheapPrepend \<le> prependableBytes b5"
    using pre [OF b1(1) [unfolded appendInt32_def]] pre [OF b2(1)] pre [OF ap4]
      pre [OF b5(1) [unfolded appendInt32_def]]
    by (simp add: Buffer_new_def prependableBytes_def)
  then have "length (be32 (word_of_nat (readableBytes b5))) \<le> prependableBytes b5"
    by (simp add: kCheapPrepend_def)
  then obtain b6 where b6: "prepend b5 (be32 (word_of_nat (readableBytes b5))) = Some b6" "buf_inv b6"
      "content b6 = be32 (word_of_nat (readableBytes b5)) @ content b5"
    by (rule prepend_ok [OF b5(2)])
  have "pb_send pb adler32 m = Some b6"
    using assms b1 b2 b3 b5 b6 len
    by (simp add: pb_send_def fillEmptyBuffer_def pb_message_def b4_def [symmetric] cs Let_def
        mem_hostToNetwork be32_def [symmetric] pb_body_def)
      (simp add: readableBytes_def Buffer_new_def)
  then show thesis
    using b6 len b5 by (intro that) (auto simp: pb_encode_def pb_wrap_def)
qed

lemma pb_frame_wrap:
  assumes "6 \<le> length body" "length body + 4 \<le> 64 * 1024 * 1024"
  shows "pb_frame pb adler32 (pb_wrap body cs @ ys) =
    (case parse pb adler32 (body @ be32 cs) (int (length body) + 4) of
       (Some m, kNoError) \<Rightarrow> Frame m (length (pb_wrap body cs))
     | (_, e) \<Rightarrow> Bad e)"
proof -
  have "sint (word_of_nat (length body + 4) :: 32 word) = int (length body) + 4"
    using assms by (subst sint_word_of_nat) simp_all
  moreover have "nat (8 + int (length body)) = length (pb_wrap body cs)"
    by (simp add: pb_wrap_def)
  moreover have "take (nat (int (length body) + 4)) (body @ be32 cs @ ys) = body @ be32 cs"
    by (simp add: nat_add_distrib)
  ultimately show ?thesis
    using assms by (simp add: pb_frame_def pb_wrap_def Let_def kMaxMessageLen_def kMinMessageLen_def
        kHeaderLen_def del: take_append)
      (simp add: nat_add_distrib pb_wrap_def split: prod.split option.split ErrorCode.split)
qed

lemma parse_bad_checksum:
  "cs \<noteq> pb_checksum adler32 body \<Longrightarrow>
   parse pb adler32 (body @ be32 cs) (int (length body) + 4) = (None, kCheckSumError)"
  by (auto simp: parse_def kHeaderLen_def Let_def dest: signed_word_eqI)

lemma parse_encode:
  assumes "pb_message pb m" "pb_fits pb m"
  shows "parse pb adler32 (pb_body pb m @ be32 (pb_checksum adler32 (pb_body pb m)))
    (int (length (pb_body pb m)) + 4) = (Some m, kNoError)"
proof -
  let ?name = "GetTypeName pb m" and ?out = "SerializeWithCachedSizesToArray pb m"
  have name: "length ?name + 1 < 2 ^ 31" "length ?name \<noteq> 0"
    using assms(2) by (auto simp: pb_fits_def)
  have n: "sint (word_of_nat (length ?name + 1) :: 32 word) = int (length ?name) + 1"
    using name by (subst sint_word_of_nat) simp_all
  have cm: "\<exists>f. createMessage pb ?name = Some f \<and> ParseFromArray pb f ?out = (True, m)"
    using assms(1) by (auto simp: pb_message_def createMessage_def)
  have drop1: "take (length ?name) (drop 4 (pb_body pb m @ ys)) = ?name" for ys
    by (simp add: pb_body_def)
  have drop2: "take (length ?out) (drop (5 + length ?name) (pb_body pb m @ ys)) = ?out" for ys
    by (simp add: pb_body_def)
  have a: "asInt32 (pb_body pb m @ ys) = int (length ?name) + 1" for ys
    using n by (simp add: pb_body_def)
  have l: "length (pb_body pb m) = 5 + length ?name + length ?out"
    by (simp add: pb_body_def)
  have ns: "nat kHeaderLen = 4" "nat (kHeaderLen + (int (length ?name) + 1)) = 5 + length ?name"
    "nat (int (length (pb_body pb m)) + 4 - (int (length ?name) + 1) - 2 * kHeaderLen) = length ?out"
    "nat (int (length (pb_body pb m)) + 4 - kHeaderLen) = length (pb_body pb m)"
    "nat (int (length ?name) + 1 - 1) = length ?name"
    by (simp_all add: kHeaderLen_def l nat_add_distrib)
  have rng: "2 \<le> int (length ?name) + 1 \<and>
      int (length ?name) + 1 \<le> int (length (pb_body pb m)) + 4 - 2 * kHeaderLen"
    using name by (cases ?name) (simp_all add: kHeaderLen_def l)
  obtain f where f: "createMessage pb ?name = Some f" "ParseFromArray pb f ?out = (True, m)"
    using cm by blast
  show ?thesis
    unfolding parse_def Let_def a ns drop1 drop2 f
    using rng f by simp
qed

lemma pb_frame_encode:
  assumes "pb_message pb m" "pb_fits pb m"
  shows "pb_frame pb adler32 (pb_encode pb adler32 m @ ys) = Frame m (length (pb_encode pb adler32 m))"
proof -
  have "6 \<le> length (pb_body pb m)" "length (pb_body pb m) + 4 \<le> 64 * 1024 * 1024"
    using assms(2) by (cases "GetTypeName pb m"; simp add: pb_fits_def pb_body_def)+
  then show ?thesis
    unfolding pb_encode_def by (simp add: pb_frame_wrap parse_encode [OF assms])
qed

lemma pb_stream_decode:
  assumes "\<forall>m\<in>set ms. pb_message pb m \<and> pb_fits pb m" "map (pb_send pb adler32) ms = map Some bufs"
  shows "decode (pb_frame pb adler32) (concat (map content bufs) @ ys) =
    (case decode (pb_frame pb adler32) ys of (ms', rest, e) \<Rightarrow> (ms @ ms', rest, e))"
proof -
  have "map content bufs = map (pb_encode pb adler32) ms"
    using assms
  proof (induction ms arbitrary: bufs)
    case (Cons m ms)
    have "pb_message pb m" "length (GetTypeName pb m) + 1 < 2 ^ 31"
      using Cons.prems(1) by (auto simp: pb_fits_def)
    then obtain b where "pb_send pb adler32 m = Some b" "content b = pb_encode pb adler32 m"
      by (rule pb_send_content)
    with Cons show ?case by (cases bufs) auto
  qed simp
  then show ?thesis
    using pbf.decode_frames [of ms pb adler32 "pb_encode pb adler32" ys] assms(1)
    by (simp add: pb_frame_encode)
qed

section \<open>Properties\<close>

text \<open>
  A runtime with the single message type \<open>Text\<close>, whose messages are strings, and the Adler-32 sum
  of RFC 1950, for the instances below.
\<close>

definition text_pb :: "(string, unit) protobuf" where
  "text_pb = \<lparr>GetTypeName = \<lambda>m. ''Text'', GetDescriptor = \<lambda>m. (), IsInitialized = \<lambda>m. True,
     ByteSize = length, SerializeWithCachedSizesToArray = \<lambda>m. m,
     FindMessageTypeByName = \<lambda>n. if n = ''Text'' then Some () else None,
     GetPrototype = \<lambda>d. Some '''', New = \<lambda>p. p, ParseFromArray = \<lambda>m data. (True, data)\<rparr>"

definition adler32_ref :: checksum where
  "adler32_ref a xs =
     (let (s1, s2) = fold (\<lambda>c (s1, s2). let t = (s1 + of_char c) mod 65521 in (t, (s2 + t) mod 65521))
            xs (uint a mod 65536, uint a div 65536)
      in word_of_int (s2 * 65536 + s1))"

lemma text_pb_ok: "length m \<le> 1000 \<Longrightarrow> pb_message text_pb m \<and> pb_fits text_pb m"
  by (simp add: pb_message_def pb_fits_def text_pb_def)

text \<open>
  C2: protobuf messages sent with \<open>ProtobufCodec::send\<close> reach the peer's \<open>messageCallback_\<close> exactly
  once, unchanged and in order, for every way the byte stream is cut into pieces, for any checksum
  function and any runtime that parses what it serialises, provided a message has a type name and
  fits the 64 MB limit.
\<close>

theorem pb_stream_roundtrip:
  assumes "\<forall>m\<in>set ms. pb_message pb m \<and> pb_fits pb m" "map (pb_send pb adler32) ms = map Some bufs"
    and "concat pieces = concat (map content bufs)"
  shows "\<exists>b'. session (pb_onMessage pb adler32) Buffer_new pieces = Some (ms, b')
    \<and> buf_inv b' \<and> content b' = []"
proof -
  have "pb_frame pb adler32 [] = More" by (simp add: pb_frame_def)
  then show ?thesis
    using pb_stream_decode [OF assms(1,2), of "[]"] assms(3)
    by (intro pbr.session_decode [of _ pb adler32 None]) auto
qed

theorem pb_stream_roundtrip_witness:
  "\<exists>b1 b2 b'. pb_send text_pb adler32_ref ''hello'' = Some b1 \<and> pb_send text_pb adler32_ref '''' = Some b2
    \<and> session (pb_onMessage text_pb adler32_ref) Buffer_new
        [take 7 (content b1), drop 7 (content b1) @ content b2] = Some ([''hello'', ''''], b')
    \<and> buf_inv b' \<and> content b' = []"
proof -
  obtain b1 b2 where b: "pb_send text_pb adler32_ref ''hello'' = Some b1"
      "pb_send text_pb adler32_ref '''' = Some b2"
    using pb_send_content [of text_pb "''hello''"] pb_send_content [of text_pb "''''"] text_pb_ok
    by (simp add: text_pb_def) metis
  then show ?thesis
    using pb_stream_roundtrip [of "[''hello'', '''']" text_pb adler32_ref "[b1, b2]"
        "[take 7 (content b1), drop 7 (content b1) @ content b2]"] text_pb_ok
    by simp
qed

text \<open>
  C4: a frame whose trailing checksum is not the checksum of its body is never parsed into a message:
  the messages before it are delivered, the frame and everything behind it stay in the buffer, and
  \<open>errorCallback_\<close> gets \<open>kCheckSumError\<close>, now and at every later call.
\<close>

theorem pb_corrupt_frame_stops:
  assumes "\<forall>m\<in>set ms. pb_message pb m \<and> pb_fits pb m" "map (pb_send pb adler32) ms = map Some bufs"
    and "6 \<le> length body" "length body + 4 \<le> 64 * 1024 * 1024" "cs \<noteq> pb_checksum adler32 body"
    and "concat pieces = concat (map content bufs) @ pb_wrap body cs @ junk"
  shows "\<exists>b'. session (pb_onMessage pb adler32) Buffer_new pieces = Some (ms, b')
    \<and> content b' = pb_wrap body cs @ junk
    \<and> pb_onMessage pb adler32 b' = Some ([], Some kCheckSumError, b')"
proof -
  have bad: "pb_frame pb adler32 (pb_wrap body cs @ junk) = Bad kCheckSumError"
    using assms(3-5) by (simp add: pb_frame_wrap parse_bad_checksum)
  have d: "decode (pb_frame pb adler32) (content Buffer_new @ concat pieces)
      = (ms, pb_wrap body cs @ junk, Some kCheckSumError)"
    using pb_stream_decode [OF assms(1,2), of "pb_wrap body cs @ junk"] assms(6) bad by simp
  have q: "decode (pb_frame pb adler32) (content Buffer_new) = ([], content Buffer_new, None)"
    by (simp add: pb_frame_def)
  obtain b' where b': "session (pb_onMessage pb adler32) Buffer_new pieces = Some (ms, b')" "buf_inv b'"
      "content b' = pb_wrap body cs @ junk"
    using pbr.session_decode [OF Buffer_new_inv q d] by blast
  then show ?thesis
    using bad by (auto simp: pb_onMessage_step)
qed

theorem pb_corrupt_frame_stops_witness:
  "\<exists>b'. session (pb_onMessage text_pb adler32_ref) Buffer_new [pb_wrap ''abcdef'' 0] = Some ([], b')
    \<and> content b' = pb_wrap ''abcdef'' 0
    \<and> pb_onMessage text_pb adler32_ref b' = Some ([], Some kCheckSumError, b')"
proof -
  have "0 \<noteq> pb_checksum adler32_ref ''abcdef''"
    by (simp add: pb_checksum_def adler32_ref_def)
  then show ?thesis
    using pb_corrupt_frame_stops [of "[]" text_pb adler32_ref "[]" "''abcdef''" 0
        "[pb_wrap ''abcdef'' 0]" "[]"] by simp
qed

text \<open>
  C6: after any sequence of registrations a message is handed, with its own concrete type, to the
  callback registered last for its descriptor and to the default callback when there is none; the
  assertion on the down-cast never fails.
\<close>

theorem dispatcher_latest:
  "onProtobufMessage pb (fold (\<lambda>(T, cb) d. registerMessageCallback d T cb) regs (ProtobufDispatcher_new dflt)) m
   = Some (case map_of (rev regs) (GetDescriptor pb m) of Some cb \<Rightarrow> cb | None \<Rightarrow> dflt, m)"
proof -
  let ?d = "fold (\<lambda>(T, cb) d. registerMessageCallback d T cb) regs (ProtobufDispatcher_new dflt)"
  have "callbacks ?d = (\<lambda>T. map_option (CallbackT T) (map_of (rev regs) T)) \<and> defaultCallback ?d = dflt"
    by (induction regs rule: rev_induct)
      (auto simp: ProtobufDispatcher_new_def registerMessageCallback_def fun_eq_iff)
  then show ?thesis
    by (auto simp: onProtobufMessage_def CallbackT_onMessage_def split: option.splits)
qed

end
