(* ===== verification/Date.thy ===== *)
theory Date
  imports Prelude
begin

text \<open>
  \<open>Date\<close> (\<open>src/Date.h\<close>, \<open>src/Date.cc\<close>): dates as Julian day numbers, with the conversion from and to
  year, month and day. \<open>int\<close> is unbounded here; \<open>julian_no_overflow\<close> gives a range in which no
  intermediate value of the C++ code leaves 32 bits. \<open>civil_day\<close> is the Gregorian calendar itself
  (lengths of the years and months before a date), against which the formulas are proved.
\<close>

record YearMonthDay =
  year :: int
  month :: int
  day :: int

definition kDaysPerWeek :: int where "kDaysPerWeek = 7"

definition getJulianDayNumber :: "int \<Rightarrow> int \<Rightarrow> int \<Rightarrow> int" where
  "getJulianDayNumber y0 m0 d0 =
     (let a = c_div (14 - m0) 12;
          y = y0 + 4800 - a;
          m = m0 + 12 * a - 3
      in d0 + c_div (153 * m + 2) 5 + y * 365 + c_div y 4 - c_div y 100 + c_div y 400 - 32045)"

definition getYearMonthDay :: "int \<Rightarrow> YearMonthDay" where
  "getYearMonthDay julianDayNumber =
     (let a = julianDayNumber + 32044;
          b = c_div (4 * a + 3) 146097;
          c = a - c_div (b * 146097) 4;
          d = c_div (4 * c + 3) 1461;
          e = c - c_div (1461 * d) 4;
          m = c_div (5 * e + 2) 153
      in \<lparr>year = b * 100 + d - 4800 + c_div m 10, month = m + 3 - 12 * c_div m 10,
          day = e - c_div (153 * m + 2) 5 + 1\<rparr>)"

definition kJulianDayOf1970_01_01 :: int where
  "kJulianDayOf1970_01_01 = getJulianDayNumber 1970 1 1"

text \<open>A \<open>Date\<close> is its \<open>julianDayNumber_\<close>; the constructors and members.\<close>

datatype Date = Date (julianDayNumber: int)

definition Date_invalid :: Date where "Date_invalid = Date 0"

definition Date_ymd :: "int \<Rightarrow> int \<Rightarrow> int \<Rightarrow> Date" where
  "Date_ymd y m d = Date (getJulianDayNumber y m d)"

definition Date_valid :: "Date \<Rightarrow> bool" where "Date_valid x \<longleftrightarrow> julianDayNumber x > 0"

definition yearMonthDay :: "Date \<Rightarrow> YearMonthDay" where
  "yearMonthDay x = getYearMonthDay (julianDayNumber x)"

definition weekDay :: "Date \<Rightarrow> int" where
  "weekDay x = c_mod (julianDayNumber x + 1) kDaysPerWeek"

definition toIsoString :: "Date \<Rightarrow> string" where
  "toIsoString x =
     (let ymd = yearMonthDay x in
      take 31 (pad_left 4 (CHR '' '') (show_int (year ymd)) @ ''-'' @ show_int0 2 (month ymd) @ ''-''
        @ show_int0 2 (day ymd)))"

text \<open>\<open>operator<\<close>, which makes dates a linear order.\<close>

definition Date_less :: "Date \<Rightarrow> Date \<Rightarrow> bool" where
  "Date_less x y \<longleftrightarrow> julianDayNumber x < julianDayNumber y"

instantiation Date :: linorder
begin

definition less_Date :: "Date \<Rightarrow> Date \<Rightarrow> bool" where
  "less_Date = Date_less"

definition less_eq_Date :: "Date \<Rightarrow> Date \<Rightarrow> bool" where
  "less_eq_Date x y \<longleftrightarrow> julianDayNumber x \<le> julianDayNumber y"

instance
  by standard (auto simp: less_Date_def Date_less_def less_eq_Date_def intro: Date.expand)

end

section \<open>The calendar\<close>

definition leap :: "int \<Rightarrow> bool" where
  "leap y \<longleftrightarrow> y mod 4 = 0 \<and> (y mod 100 \<noteq> 0 \<or> y mod 400 = 0)"

definition month_length :: "int \<Rightarrow> int \<Rightarrow> int" where
  "month_length y m =
     (if m = 2 then (if leap y then 29 else 28) else if m \<in> {4, 6, 9, 11} then 30 else 31)"

definition year_length :: "int \<Rightarrow> int" where
  "year_length y = (if leap y then 366 else 365)"

definition valid_date :: "int \<Rightarrow> int \<Rightarrow> int \<Rightarrow> bool" where
  "valid_date y m d \<longleftrightarrow> 1 \<le> m \<and> m \<le> 12 \<and> 1 \<le> d \<and> d \<le> month_length y m"

text \<open>The day after a date.\<close>

definition next_date :: "int \<Rightarrow> int \<Rightarrow> int \<Rightarrow> int \<times> int \<times> int" where
  "next_date y m d =
     (if d < month_length y m then (y, m, d + 1)
      else if m < 12 then (y, m + 1, 1) else (y + 1, 1, 1))"

section \<open>The formulas\<close>

text \<open>
  Both conversions count in years that start on the first of March: \<open>y\<close> is such a year, counted
  from 4801 BC, \<open>m\<close> its month from 0 and \<open>e\<close> the day in it.
\<close>

definition march_day :: "int \<Rightarrow> int \<Rightarrow> int" where
  "march_day y e = e + 365 * y + y div 4 - y div 100 + y div 400"

definition march_leap :: "int \<Rightarrow> bool" where
  "march_leap y \<longleftrightarrow> y mod 4 = 3 \<and> (y mod 100 \<noteq> 99 \<or> y mod 400 = 399)"

lemma succ_mod_zero:
  fixes n y :: int
  assumes "0 < n"
  shows "(y + 1) mod n = 0 \<longleftrightarrow> y mod n = n - 1"
proof -
  have r: "0 \<le> y mod n" "y mod n < n" using assms by simp_all
  have "(y + 1) mod n = (y mod n + 1) mod n" by (simp add: mod_add_left_eq)
  also have "\<dots> = (if y mod n = n - 1 then 0 else y mod n + 1)"
    using r by simp
  finally show ?thesis using r by auto
qed

lemma march_leap_leap: "march_leap y \<longleftrightarrow> leap (y - 4799)"
proof -
  have "(y - 4799) mod 400 = (y + 1 + (-12) * 400) mod 400" "(y - 4799) mod 100 = (y + 1 + (-48) * 100) mod 100"
    "(y - 4799) mod 4 = (y + 1 + (-1200) * 4) mod 4" by simp_all
  moreover have "(4 :: int) - 1 = 3" "(100 :: int) - 1 = 99" "(400 :: int) - 1 = 399" by simp_all
  ultimately show ?thesis
    unfolding march_leap_def leap_def mod_mult_self1 by (simp only: succ_mod_zero zero_less_numeral)
qed

lemma month_cases:
  fixes m :: int
  assumes "0 \<le> m" "m \<le> 11"
  obtains "m = 0" | "m = 1" | "m = 2" | "m = 3" | "m = 4" | "m = 5" | "m = 6" | "m = 7" | "m = 8"
    | "m = 9" | "m = 10" | "m = 11"
proof -
  have "nat m \<in> set [0..<12]" using assms by auto
  also have "[0..<12] = [0, 1, 2, 3, 4, 5, 6, 7, 8, 9, 10, 11 :: nat]" by (simp add: upt_rec)
  finally show thesis using assms that by (auto simp: nat_eq_iff)
qed

lemma march_formula:
  assumes "0 \<le> Y" "0 \<le> M"
  shows "d + c_div (153 * M + 2) 5 + Y * 365 + c_div Y 4 - c_div Y 100 + c_div Y 400 - 32045 =
    march_day Y ((153 * M + 2) div 5 + (d - 1)) - 32044"
proof -
  have "c_div (153 * M + 2) 5 = (153 * M + 2) div 5" "c_div Y 4 = Y div 4" "c_div Y 100 = Y div 100"
    "c_div Y 400 = Y div 400"
    using assms by (subst c_div_nonneg; simp)+
  then show ?thesis unfolding march_day_def by presburger
qed

lemma julian_march:
  assumes "1 \<le> m" "m \<le> 12" "-4800 \<le> y" "m \<le> 2 \<longrightarrow> -4800 < y"
  shows "getJulianDayNumber y m d + 32044 =
    march_day (if m \<le> 2 then y + 4799 else y + 4800)
      ((153 * (if m \<le> 2 then m + 9 else m - 3) + 2) div 5 + (d - 1))"
proof (cases "m \<le> 2")
  case True
  then have a: "c_div (14 - m) 12 = 1" "m + 12 * 1 - 3 = m + 9" "y + 4800 - 1 = y + 4799" using assms by simp_all
  have "0 \<le> y + 4799" "0 \<le> m + 9" using True assms by simp_all
  from march_formula [OF this] show ?thesis
    using True unfolding getJulianDayNumber_def Let_def a by simp
next
  case False
  then have a: "c_div (14 - m) 12 = 0" "m + 12 * 0 - 3 = m - 3" "y + 4800 - 0 = y + 4800" using assms by simp_all
  have "0 \<le> y + 4800" "0 \<le> m - 3" using False assms by simp_all
  from march_formula [OF this] show ?thesis
    using False unfolding getJulianDayNumber_def Let_def a by simp
qed

lemma div_eqI:
  fixes n q x :: int
  assumes "n * q \<le> x" "x < n * (q + 1)" "0 < n"
  shows "x div n = q"
proof (rule int_div_pos_eq)
  show "x = n * q + (x - n * q)" by simp
  show "0 \<le> x - n * q" "x - n * q < n" using assms by (simp_all add: algebra_simps)
qed

lemma month_of_day:
  fixes m k :: int
  assumes "0 \<le> m" "m \<le> 11" "0 \<le> k" "(153 * m + 2) div 5 + k < (153 * (m + 1) + 2) div 5"
  shows "(5 * ((153 * m + 2) div 5 + k) + 2) div 153 = m"
proof -
  define q where "q = (153 * m + 2) div 5"
  have q: "5 * q \<le> 153 * m + 2" "153 * m - 2 \<le> 5 * q"
    unfolding q_def by linarith+
  have "\<And>x :: int. 5 * (x div 5) \<le> x" by linarith
  define q' where "q' = (153 * (m + 1) + 2) div 5"
  from \<open>\<And>x. 5 * (x div 5) \<le> x\<close> [of "153 * (m + 1) + 2"] have q': "5 * q' \<le> 153 * m + 155"
    by (simp add: q'_def)
  have k: "q + k < q'" using assms(4) by (simp add: q_def q'_def)
  have "5 * (q + k) + 2 \<ge> 153 * m" "5 * (q + k) + 2 < 153 * (m + 1)"
    using q q' k assms(3) by simp_all
  then show ?thesis
    unfolding q_def [symmetric] by (intro div_eqI) simp_all
qed

text \<open>From a day in a March year to the numbers the inverse computes.\<close>

lemma century_of_day:
  fixes b r e :: int
  assumes "0 \<le> b" "0 \<le> r" "r \<le> 99" "0 \<le> e" "e \<le> 365" "e = 365 \<longrightarrow> r mod 4 = 3 \<and> (r = 99 \<longrightarrow> b mod 4 = 3)"
  defines "a \<equiv> march_day (100 * b + r) e"
  shows "(4 * a + 3) div 146097 = b" "a - (b * 146097) div 4 = 365 * r + r div 4 + e"
proof -
  have d: "(100 * b + r) div 4 = 25 * b + r div 4" "(100 * b + r) div 100 = b" "(100 * b + r) div 400 = b div 4"
    using assms(2,3) by linarith+
  have a: "a = 36524 * b + b div 4 + (365 * r + r div 4 + e)"
    unfolding a_def march_day_def d by simp
  define s where "s = b mod 4"
  define t where "t = b div 4"
  have bt: "b = 4 * t + s" "0 \<le> s" "s \<le> 3" by (simp_all add: s_def t_def)
  define c where "c = 365 * r + r div 4 + e"
  have c0: "0 \<le> c" using assms by (simp add: c_def)
  have c1: "4 * c + (3 - s) < 146097"
  proof (cases "e = 365 \<and> r = 99")
    case True
    then have "s = 3" using assms(6) by (simp add: s_def)
    with True show ?thesis by (simp add: c_def)
  next
    case False
    then have "c \<le> 36523" using assms(2-5) unfolding c_def by linarith
    then show ?thesis using bt by linarith
  qed
  have "4 * a + 3 = 146097 * b + (4 * c + (3 - s))"
    using a bt unfolding c_def t_def [symmetric] by simp
  then show "(4 * a + 3) div 146097 = b"
    using c0 c1 bt by linarith
  have "(b * 146097) div 4 = 36524 * b + b div 4" by linarith
  then show "a - (b * 146097) div 4 = 365 * r + r div 4 + e" using a by linarith
qed

lemma year_of_day:
  fixes r e :: int
  assumes "0 \<le> r" "0 \<le> e" "e \<le> 365" "e = 365 \<longrightarrow> r mod 4 = 3"
  defines "c \<equiv> 365 * r + r div 4 + e"
  shows "(4 * c + 3) div 1461 = r" "c - (1461 * r) div 4 = e"
proof -
  define s t where "s = r mod 4" and "t = r div 4"
  have rt: "r = 4 * t + s" "0 \<le> s" "s \<le> 3" by (simp_all add: s_def t_def)
  have eq: "4 * c + 3 = 1461 * r + (4 * e + (3 - s))"
    using rt unfolding c_def t_def [symmetric] by simp
  have "4 * e + (3 - s) < 1461" using assms(3,4) rt unfolding s_def [symmetric] by linarith
  with eq show "(4 * c + 3) div 1461 = r" using assms(2) rt by linarith
  have "(1461 * r) div 4 = 365 * r + r div 4" by linarith
  then show "c - (1461 * r) div 4 = e" by (simp add: c_def)
qed

lemma march_leap_parts:
  fixes y :: int
  assumes "march_leap y"
  shows "(y mod 100) mod 4 = 3" "y mod 100 = 99 \<longrightarrow> (y div 100) mod 4 = 3"
proof -
  have "(y mod 100) mod 4 = y mod 4" by (rule mod_mod_cancel) simp
  then show "(y mod 100) mod 4 = 3" using assms by (simp add: march_leap_def)
  show "y mod 100 = 99 \<longrightarrow> (y div 100) mod 4 = 3"
  proof
    assume r: "y mod 100 = 99"
    then have "y mod 400 = 399" using assms by (simp add: march_leap_def)
    moreover have "y mod (100 * 4) = 100 * (y div 100 mod 4) + y mod 100" by (rule zmod_zmult2_eq) simp
    ultimately show "(y div 100) mod 4 = 3" using r by simp
  qed
qed

lemma getYearMonthDay_march:
  assumes "0 \<le> y" "0 \<le> m" "m \<le> 11" "0 \<le> k"
    and e: "e = (153 * m + 2) div 5 + k" "e < (153 * (m + 1) + 2) div 5" "e \<le> 365" "e = 365 \<longrightarrow> march_leap y"
  shows "getYearMonthDay (march_day y e - 32044) =
    \<lparr>year = y - 4800 + m div 10, month = m + 3 - 12 * (m div 10), day = k + 1\<rparr>"
proof -
  define b r where "b = y div 100" and "r = y mod 100"
  have y: "y = 100 * b + r" by (simp add: b_def r_def)
  have br: "0 \<le> b" "0 \<le> r" "r \<le> 99" "0 \<le> e"
    using assms(1,2,4) e(1) by (simp_all add: b_def r_def pos_imp_zdiv_nonneg_iff)
  have l: "e = 365 \<longrightarrow> r mod 4 = 3 \<and> (r = 99 \<longrightarrow> b mod 4 = 3)"
    using e(4) march_leap_parts unfolding b_def r_def by blast
  define a where "a = march_day y e"
  define c where "c = 365 * r + r div 4 + e"
  have b: "(4 * a + 3) div 146097 = b" "a - (b * 146097) div 4 = c"
    using century_of_day [OF br(1-4) e(3) l] by (simp_all add: a_def y c_def)
  have r: "(4 * c + 3) div 1461 = r" "c - (1461 * r) div 4 = e"
    using year_of_day [OF br(2,4) e(3)] l by (simp_all add: c_def)
  have m: "(5 * e + 2) div 153 = m"
    using month_of_day [OF assms(2-4)] e by simp
  have c0: "0 \<le> c"
    using br unfolding c_def by (intro add_nonneg_nonneg) simp_all
  have "0 \<le> (b * 146097) div 4" using br(1) by simp
  then have a0: "0 \<le> a" using b(2) c0 by linarith
  have eqs: "march_day y e - 32044 + 32044 = a" "c_div (4 * a + 3) 146097 = b"
    "a - c_div (b * 146097) 4 = c" "c_div (4 * c + 3) 1461 = r" "c - c_div (1461 * r) 4 = e"
    "c_div (5 * e + 2) 153 = m" "c_div m 10 = m div 10" "c_div (153 * m + 2) 5 = (153 * m + 2) div 5"
    subgoal by (simp add: a_def)
    subgoal using b(1) a0 by (subst c_div_nonneg) simp_all
    subgoal using b(2) br(1) by (subst c_div_nonneg) simp_all
    subgoal using r(1) c0 by (subst c_div_nonneg) simp_all
    subgoal using r(2) br(2) by (subst c_div_nonneg) simp_all
    subgoal using m br(4) by (subst c_div_nonneg) simp_all
    using assms(2) by (subst c_div_nonneg; simp)+
  have "e - (153 * m + 2) div 5 + 1 = k + 1" "b * 100 + r = y" using e(1) y by simp_all
  then show ?thesis
    unfolding getYearMonthDay_def Let_def eqs by simp
qed

lemma succ_div:
  fixes n y :: int
  assumes "0 < n"
  shows "(y + 1) div n = y div n + (if y mod n = n - 1 then 1 else 0)"
proof -
  define q r where "q = y div n" and "r = y mod n"
  have "y = n * q + r" "0 \<le> r" "r < n" using assms by (simp_all add: q_def r_def)
  then have "(y + 1) div n = q + (if r = n - 1 then 1 else 0)"
    using assms by (intro div_eqI) (auto simp: algebra_simps)
  then show ?thesis by (simp add: q_def r_def)
qed

lemma mod_pred_mono:
  fixes y n k :: int
  assumes "y mod (n * k) = n * k - 1" "0 < n" "0 < k"
  shows "y mod n = n - 1"
proof -
  have "y mod n = (y mod (n * k)) mod n" by (simp add: mod_mult2_eq mod_mod_cancel)
  also have "\<dots> = ((k - 1) * n + (n - 1)) mod n" unfolding assms(1) by (simp add: algebra_simps)
  also have "\<dots> = n - 1" using assms(2) by (simp only: mod_mult_self3 mod_pos_pos_trivial)
  finally show ?thesis .
qed

lemma march_year_length: "march_day (y + 1) 0 = march_day y (if march_leap y then 366 else 365)"
proof -
  define u v w where "u = y div 4" and "v = y div 100" and "w = y div 400"
  define A B C where "A \<longleftrightarrow> y mod 4 = 4 - 1" and "B \<longleftrightarrow> y mod 100 = 100 - 1" and "C \<longleftrightarrow> y mod 400 = 400 - 1"
  have s: "(y + 1) div 4 = u + (if A then 1 else 0)" "(y + 1) div 100 = v + (if B then 1 else 0)"
    "(y + 1) div 400 = w + (if C then 1 else 0)"
    unfolding u_def v_def w_def A_def B_def C_def by (rule succ_div, simp)+
  have BA: "A" if B
    using mod_pred_mono [of y 4 25] that unfolding A_def B_def by simp
  have CB: "B" if C
    using mod_pred_mono [of y 100 4] that unfolding B_def C_def by simp
  have "march_leap y \<longleftrightarrow> A \<and> (\<not> B \<or> C)"
    unfolding march_leap_def A_def B_def C_def by simp
  then show ?thesis
    unfolding march_day_def s u_def [symmetric] v_def [symmetric] w_def [symmetric]
    using BA CB by (cases A; cases B; cases C) simp_all
qed

lemma march_day_surj:
  "\<exists>y e. 0 \<le> y \<and> 0 \<le> e \<and> e \<le> 365 \<and> (e = 365 \<longrightarrow> march_leap y) \<and> int n = march_day y e"
proof (induction n)
  case 0
  have "int 0 = march_day 0 0" by (simp add: march_day_def)
  then show ?case by (intro exI [of _ 0]) simp
next
  case (Suc n)
  then obtain y e where ye: "0 \<le> y" "0 \<le> e" "e \<le> 365" "e = 365 \<longrightarrow> march_leap y" "int n = march_day y e"
    by blast
  show ?case
  proof (cases "e = 365 \<or> e = 364 \<and> \<not> march_leap y")
    case True
    then have "int (Suc n) = march_day (y + 1) 0"
      using ye by (auto simp: march_year_length) (simp_all add: march_day_def)
    with ye(1) show ?thesis by (intro exI [of _ "y + 1"] exI [of _ 0]) simp
  next
    case False
    have "int (Suc n) = march_day y (e + 1)" using ye(5) by (simp add: march_day_def)
    with False ye show ?thesis by (intro exI [of _ y] exI [of _ "e + 1"]) auto
  qed
qed

lemma month_of_day_exists:
  fixes e :: int
  assumes "0 \<le> e" "e \<le> 365"
  obtains m k where "0 \<le> m" "m \<le> 11" "0 \<le> k" "e = (153 * m + 2) div 5 + k" "e < (153 * (m + 1) + 2) div 5"
proof -
  define m where "m = (5 * e + 2) div 153"
  have m: "153 * m \<le> 5 * e + 2" "5 * e + 2 < 153 * m + 153" unfolding m_def by linarith+
  have "0 \<le> m" "m \<le> 11" using m assms by linarith+
  moreover have "(153 * m + 2) div 5 \<le> (5 * e + 4) div 5" using m by (intro zdiv_mono1) simp_all
  then have "0 \<le> e - (153 * m + 2) div 5" by linarith
  moreover have "(5 * (e + 1)) div 5 \<le> (153 * (m + 1) + 2) div 5" using m by (intro zdiv_mono1) simp_all
  then have "e < (153 * (m + 1) + 2) div 5" by simp
  ultimately show thesis by (intro that [of m "e - (153 * m + 2) div 5"]) simp_all
qed

lemma march_ymd_valid:
  fixes y m k :: int
  assumes "0 \<le> m" "m \<le> 11" "0 \<le> k"
    and e: "e = (153 * m + 2) div 5 + k" "e < (153 * (m + 1) + 2) div 5" "e \<le> 365" "e = 365 \<longrightarrow> march_leap y"
  shows "valid_date (y - 4800 + m div 10) (m + 3 - 12 * (m div 10)) (k + 1)"
proof -
  have "march_leap y \<longleftrightarrow> leap (y - 4799)" by (rule march_leap_leap)
  with assms(1,2) show ?thesis
    by (cases m rule: month_cases)
      (use e assms(3) in \<open>auto simp: valid_date_def month_length_def\<close>)
qed

lemma valid_date_march:
  assumes "valid_date y m d"
  defines "M \<equiv> (if m \<le> 2 then m + 9 else m - 3)" and "Y \<equiv> (if m \<le> 2 then y + 4799 else y + 4800)"
  defines "e \<equiv> (153 * M + 2) div 5 + (d - 1)"
  shows "0 \<le> M" "M \<le> 11" "0 \<le> d - 1" "e < (153 * (M + 1) + 2) div 5" "e \<le> 365" "e = 365 \<longrightarrow> march_leap Y"
    "Y - 4800 + M div 10 = y" "M + 3 - 12 * (M div 10) = m"
proof -
  have m: "1 \<le> m" "m \<le> 12" "1 \<le> d" "d \<le> month_length y m" using assms(1) by (simp_all add: valid_date_def)
  have M: "0 \<le> M" "M \<le> 11" using m by (auto simp: M_def)
  then show "0 \<le> M" "M \<le> 11" "0 \<le> d - 1" using m by simp_all
  have l: "M = 11 \<Longrightarrow> march_leap Y \<longleftrightarrow> leap y"
    using m by (auto simp: M_def Y_def march_leap_leap split: if_splits)
  have mm: "m = (if M \<le> 9 then M + 3 else M - 9)" using m by (auto simp: M_def)
  have "e < (153 * (M + 1) + 2) div 5 \<and> e \<le> 365 \<and> (e = 365 \<longrightarrow> M = 11 \<and> d = 29)"
    using M by (cases M rule: month_cases)
      (use m mm in \<open>auto simp: e_def month_length_def split: if_splits\<close>)
  moreover have "leap y" if "M = 11" "d = 29"
    using m(4) mm that by (simp add: month_length_def split: if_splits)
  ultimately show "e < (153 * (M + 1) + 2) div 5" "e \<le> 365" "e = 365 \<longrightarrow> march_leap Y"
    using l by blast+
  show "Y - 4800 + M div 10 = y" "M + 3 - 12 * (M div 10) = m"
    using m by (cases "m \<le> 2"; simp add: M_def Y_def)+
qed

lemma julian_march':
  assumes "valid_date y m d" "-4800 < y"
  shows "getJulianDayNumber y m d + 32044 =
    march_day (if m \<le> 2 then y + 4799 else y + 4800)
      ((153 * (if m \<le> 2 then m + 9 else m - 3) + 2) div 5 + (d - 1))"
  using assms by (intro julian_march) (simp_all add: valid_date_def)

lemma getYearMonthDay_julian:
  assumes "valid_date y m d" "-4800 < y"
  shows "getYearMonthDay (getJulianDayNumber y m d) = \<lparr>year = y, month = m, day = d\<rparr>"
proof -
  define M Y where "M = (if m \<le> 2 then m + 9 else m - 3)" and "Y = (if m \<le> 2 then y + 4799 else y + 4800)"
  note v = valid_date_march [OF assms(1), folded M_def Y_def]
  have "getJulianDayNumber y m d = march_day Y ((153 * M + 2) div 5 + (d - 1)) - 32044"
    using julian_march' [OF assms, folded M_def Y_def] by simp
  moreover have "0 \<le> Y" using assms(2) by (simp add: Y_def)
  ultimately show ?thesis
    using getYearMonthDay_march [OF _ v(1-3) refl v(4-6)] v(7,8) by simp
qed

lemma day_march:
  assumes "-32044 \<le> j"
  obtains y m k e where "0 \<le> y" "0 \<le> m" "m \<le> 11" "0 \<le> k" "e = (153 * m + 2) div 5 + k"
    "e < (153 * (m + 1) + 2) div 5" "e \<le> 365" "e = 365 \<longrightarrow> march_leap y" "j = march_day y e - 32044"
proof -
  obtain y e where ye: "0 \<le> y" "0 \<le> e" "e \<le> 365" "e = 365 \<longrightarrow> march_leap y" "int (nat (j + 32044)) = march_day y e"
    using march_day_surj by blast
  have j: "j = march_day y e - 32044" using ye(5) assms by simp
  obtain m k where mk: "0 \<le> m" "m \<le> 11" "0 \<le> k" "e = (153 * m + 2) div 5 + k" "e < (153 * (m + 1) + 2) div 5"
    using month_of_day_exists [OF ye(2,3)] .
  show thesis by (rule that [OF ye(1) mk ye(3,4) j])
qed

lemma julian_getYearMonthDay:
  assumes "-32044 \<le> j"
  shows "valid_date (year (getYearMonthDay j)) (month (getYearMonthDay j)) (day (getYearMonthDay j))"
    and "getJulianDayNumber (year (getYearMonthDay j)) (month (getYearMonthDay j)) (day (getYearMonthDay j)) = j"
    and "-4800 \<le> year (getYearMonthDay j)"
proof -
  obtain y m k e where d: "0 \<le> y" "0 \<le> m" "m \<le> 11" "0 \<le> k" "e = (153 * m + 2) div 5 + k"
      "e < (153 * (m + 1) + 2) div 5" "e \<le> 365" "e = 365 \<longrightarrow> march_leap y" "j = march_day y e - 32044"
    using day_march [OF assms] .
  have ymd: "getYearMonthDay j = \<lparr>year = y - 4800 + m div 10, month = m + 3 - 12 * (m div 10), day = k + 1\<rparr>"
    using getYearMonthDay_march [OF d(1-8)] d(9) by simp
  show "valid_date (year (getYearMonthDay j)) (month (getYearMonthDay j)) (day (getYearMonthDay j))"
    using march_ymd_valid [OF d(2-8)] by (simp add: ymd)
  show "-4800 \<le> year (getYearMonthDay j)" using d(1,2) by (simp add: ymd)
  show "getJulianDayNumber (year (getYearMonthDay j)) (month (getYearMonthDay j)) (day (getYearMonthDay j)) = j"
  proof (cases "m \<le> 9")
    case True
    then have "m div 10 = 0" using d(2) by simp
    then show ?thesis
      unfolding ymd using julian_march [of "m + 3" "y - 4800" "k + 1"] True d(1,2,5,9) by (simp add: add.commute)
  next
    case False
    then have "m div 10 = 1" using d(3) by simp
    then show ?thesis
      unfolding ymd using julian_march [of "m - 9" "y - 4799" "k + 1"] False d(1,3,5,9) by (simp add: add.commute)
  qed
qed

lemma march_month_next:
  fixes m :: int
  assumes "0 \<le> m" "m \<le> 10"
  shows "(153 * (m + 1) + 2) div 5 = (153 * m + 2) div 5 + month_length y (if m \<le> 9 then m + 3 else m - 9)"
  using assms(1) order_trans [OF assms(2)]
  by (cases m rule: month_cases) (use assms in \<open>simp_all add: month_length_def\<close>)

lemma march_day_succ: "march_day y (e + 1) = march_day y e + 1"
  by (simp add: march_day_def)

lemma next_date_julian:
  assumes "valid_date y m d" "-4800 < y"
  shows "case next_date y m d of (y', m', d') \<Rightarrow>
    valid_date y' m' d' \<and> getJulianDayNumber y' m' d' = getJulianDayNumber y m d + 1"
proof -
  define M where "M = (if m \<le> 2 then m + 9 else m - 3)"
  define Y where "Y = (if m \<le> 2 then y + 4799 else y + 4800)"
  have m: "1 \<le> m" "m \<le> 12" "1 \<le> d" "d \<le> month_length y m" using assms(1) by (simp_all add: valid_date_def)
  note J = julian_march' [OF assms, folded M_def Y_def]
  have step: ?thesis if nd: "next_date y m d = (y', m', d')" and v: "valid_date y' m' d'" "-4800 < y'"
    and day: "march_day (if m' \<le> 2 then y' + 4799 else y' + 4800)
      ((153 * (if m' \<le> 2 then m' + 9 else m' - 3) + 2) div 5 + (d' - 1))
      = march_day Y ((153 * M + 2) div 5 + (d - 1) + 1)" for y' m' d'
    using julian_march' [OF v] J v(1) unfolding nd day march_day_succ by simp
  consider "d < month_length y m" | "d = month_length y m" "m = 2" | "d = month_length y m" "m = 12"
    | "d = month_length y m" "m \<noteq> 2" "m \<noteq> 12"
    using m(4) by (cases "d < month_length y m") auto
  then show ?thesis
  proof cases
    case 1
    have a: "(153 * M + 2) div 5 + (d + 1 - 1) = (153 * M + 2) div 5 + (d - 1) + 1" by simp
    show ?thesis
      by (rule step [of y m "d + 1"])
        (use 1 m assms(2) in \<open>simp_all add: next_date_def valid_date_def M_def [symmetric] Y_def [symmetric] a\<close>)
  next
    case 2
    have MY: "M = 11" "Y = y + 4799" using 2 by (simp_all add: M_def Y_def)
    have "march_day (y + 4799 + 1) 0 = march_day Y (337 + (d - 1) + 1)"
      unfolding march_year_length march_leap_leap using 2 MY by (simp add: month_length_def)
    then have "march_day (y + 4800) 0 = march_day Y (337 + (d - 1) + 1)" by (simp add: add.assoc)
    then show ?thesis
      by (intro step [of y 3 1])
        (use 2 MY assms(2) in \<open>simp_all add: next_date_def valid_date_def month_length_def\<close>)
  next
    case 3
    have MY: "M = 9" "Y = y + 4800" using 3 by (simp_all add: M_def Y_def)
    have "march_day (y + 1 + 4799) 306 = march_day Y (275 + (d - 1) + 1)"
      using 3 MY by (simp add: month_length_def add.assoc)
    then show ?thesis
      by (intro step [of "y + 1" 1 1])
        (use 3 MY assms(2) in \<open>simp_all add: next_date_def valid_date_def month_length_def\<close>)
  next
    case 4
    have M: "0 \<le> M" "M \<le> 10" "(if M \<le> 9 then M + 3 else M - 9) = m"
      using m 4 by (auto simp: M_def)
    have M': "(if m + 1 \<le> 2 then m + 1 + 9 else m + 1 - 3) = M + 1"
      "(if m + 1 \<le> 2 then y + 4799 else y + 4800) = Y"
      using m 4 by (auto simp: M_def Y_def)
    have "(153 * (M + 1) + 2) div 5 + (1 - 1) = (153 * M + 2) div 5 + (d - 1) + 1"
      using march_month_next [OF M(1,2), of y] unfolding M(3) 4(1) [symmetric] by simp
    then show ?thesis
      by (intro step [of y "m + 1" 1], unfold M')
        (use 4 m assms(2) in \<open>simp_all add: next_date_def valid_date_def month_length_def\<close>)
  qed
qed

lemma julian_no_overflow:
  assumes "-32044 \<le> j" "j \<le> 500000000"
  shows "4 * (j + 32044) + 3 < 2 ^ 31"
    "c_div (4 * (j + 32044) + 3) 146097 * 146097 < 2 ^ 31"
proof -
  show "4 * (j + 32044) + 3 < 2 ^ 31" using assms by simp
  have "(4 * (j + 32044) + 3) div 146097 * 146097 \<le> 4 * (j + 32044) + 3" by linarith
  then show "c_div (4 * (j + 32044) + 3) 146097 * 146097 < 2 ^ 31"
    using assms by (subst c_div_nonneg) simp_all
qed

section \<open>Properties\<close>



text \<open>
  Every valid \<open>Date\<close> names one day of the calendar: its year, month and day are a valid date
  (month 1 to 12, day within the month, leap years included), and constructing a \<open>Date\<close> from them
  gives it back.
\<close>

theorem julian_roundtrip:
  assumes "Date_valid x"
  shows "valid_date (year (yearMonthDay x)) (month (yearMonthDay x)) (day (yearMonthDay x))
    \<and> Date_ymd (year (yearMonthDay x)) (month (yearMonthDay x)) (day (yearMonthDay x)) = x"
  using julian_getYearMonthDay [of "julianDayNumber x"] assms
  by (simp add: Date_valid_def yearMonthDay_def Date_ymd_def)

theorem julian_roundtrip_witness:
  "valid_date 1970 1 1 \<and> Date_ymd 1970 1 1 = Date 2440588"
proof -
  have "yearMonthDay (Date 2440588) = \<lparr>year = 1970, month = 1, day = 1\<rparr>"
    by code_simp
  then show ?thesis
    using julian_roundtrip [of "Date 2440588"] by (simp add: Date_valid_def)
qed



end
