(* ===== verification/Timestamp.thy ===== *)
theory Timestamp
  imports Complex_Main Date
begin

text \<open>
  \<open>Timestamp\<close> (\<open>src/Timestamp.h\<close>, \<open>src/Timestamp.cc\<close>): microseconds since the epoch, ordered by
  \<open>operator<\<close>. The \<open>int64_t\<close> count covers 292000 years around 1970 and is an \<open>int\<close> here. The
  \<open>double\<close> seconds of \<open>addTime\<close> and \<open>timeDifference\<close> are rational numbers: the model has no rounding of
  the product \<open>seconds * 1000000\<close>, only the truncation of the cast. \<open>tm\<close> and \<open>gmtime_r\<close> are the broken-down time of
  the C library.
\<close>

datatype Timestamp = Timestamp (microSecondsSinceEpoch: int)

text \<open>\<open>operator<\<close>, which makes timestamps a linear order.\<close>

definition Timestamp_less :: "Timestamp \<Rightarrow> Timestamp \<Rightarrow> bool" where
  "Timestamp_less lhs rhs \<longleftrightarrow> microSecondsSinceEpoch lhs < microSecondsSinceEpoch rhs"

instantiation Timestamp :: linorder
begin

definition less_Timestamp :: "Timestamp \<Rightarrow> Timestamp \<Rightarrow> bool" where
  "less_Timestamp = Timestamp_less"

definition less_eq_Timestamp :: "Timestamp \<Rightarrow> Timestamp \<Rightarrow> bool" where
  "less_eq_Timestamp lhs rhs \<longleftrightarrow> microSecondsSinceEpoch lhs \<le> microSecondsSinceEpoch rhs"

instance
  by standard (auto simp: less_Timestamp_def Timestamp_less_def less_eq_Timestamp_def intro: Timestamp.expand)

end

definition kMicroSecondsPerSecond :: int where "kMicroSecondsPerSecond = 1000 * 1000"

definition Timestamp_invalid :: Timestamp where "Timestamp_invalid = Timestamp 0"

definition Timestamp_valid :: "Timestamp \<Rightarrow> bool" where
  "Timestamp_valid t \<longleftrightarrow> microSecondsSinceEpoch t > 0"

definition secondsSinceEpoch :: "Timestamp \<Rightarrow> int" where
  "secondsSinceEpoch t = c_div (microSecondsSinceEpoch t) kMicroSecondsPerSecond"

definition fromUnixTime :: "int \<Rightarrow> int \<Rightarrow> Timestamp" where
  "fromUnixTime t microseconds = Timestamp (t * kMicroSecondsPerSecond + microseconds)"

text \<open>\<open>now\<close>, from the \<open>tv_sec\<close> and \<open>tv_usec\<close> that \<open>gettimeofday\<close> returns.\<close>

definition Timestamp_now :: "int \<times> int \<Rightarrow> Timestamp" where
  "Timestamp_now tv = (case tv of (tv_sec, tv_usec) \<Rightarrow> Timestamp (tv_sec * kMicroSecondsPerSecond + tv_usec))"

definition timeDifference :: "Timestamp \<Rightarrow> Timestamp \<Rightarrow> rat" where
  "timeDifference high low =
     of_int (microSecondsSinceEpoch high - microSecondsSinceEpoch low) / of_int kMicroSecondsPerSecond"

text \<open>The cast from \<open>double\<close> to \<open>int64_t\<close> truncates towards zero.\<close>

definition trunc :: "rat \<Rightarrow> int" where
  "trunc x = (if x \<ge> 0 then \<lfloor>x\<rfloor> else \<lceil>x\<rceil>)"

definition addTime :: "Timestamp \<Rightarrow> rat \<Rightarrow> Timestamp" where
  "addTime timestamp seconds =
     (let delta = trunc (seconds * of_int kMicroSecondsPerSecond)
      in Timestamp (microSecondsSinceEpoch timestamp + delta))"

definition Timestamp_toString :: "Timestamp \<Rightarrow> string" where
  "Timestamp_toString t =
     (let seconds = c_div (microSecondsSinceEpoch t) kMicroSecondsPerSecond;
          microseconds = c_mod (microSecondsSinceEpoch t) kMicroSecondsPerSecond
      in take 30 (show_int seconds @ ''.'' @ show_int0 6 microseconds))"

section \<open>Broken-down time\<close>

record tm =
  tm_sec :: int
  tm_min :: int
  tm_hour :: int
  tm_mday :: int
  tm_mon :: int
  tm_year :: int
  tm_wday :: int
  tm_yday :: int
  tm_isdst :: bool
  tm_gmtoff :: int
  tm_zone :: string

definition tm_zero :: tm where
  "tm_zero = \<lparr>tm_sec = 0, tm_min = 0, tm_hour = 0, tm_mday = 0, tm_mon = 0, tm_year = 0, tm_wday = 0,
     tm_yday = 0, tm_isdst = False, tm_gmtoff = 0, tm_zone = ''''\<rparr>"

text \<open>
  The C library's \<open>gmtime_r\<close> and \<open>timegm\<close>: whole days by flooring division, the date of the day in
  the Gregorian calendar, the time in the day.
\<close>

definition gmtime_r :: "int \<Rightarrow> tm" where
  "gmtime_r t =
     (let s = t mod 86400; j = t div 86400 + kJulianDayOf1970_01_01; ymd = getYearMonthDay j in
      \<lparr>tm_sec = s mod 60, tm_min = s div 60 mod 60, tm_hour = s div 3600, tm_mday = day ymd,
       tm_mon = month ymd - 1, tm_year = year ymd - 1900, tm_wday = (j + 1) mod 7,
       tm_yday = j - getJulianDayNumber (year ymd) 1 1, tm_isdst = False, tm_gmtoff = 0, tm_zone = ''GMT''\<rparr>)"

definition timegm :: "tm \<Rightarrow> int" where
  "timegm t = (getJulianDayNumber (tm_year t + 1900) (tm_mon t + 1) (tm_mday t) - kJulianDayOf1970_01_01) * 86400
     + tm_hour t * 3600 + tm_min t * 60 + tm_sec t"

definition toFormattedString :: "Timestamp \<Rightarrow> bool \<Rightarrow> string" where
  "toFormattedString t showMicroseconds =
     (let seconds = c_div (microSecondsSinceEpoch t) kMicroSecondsPerSecond;
          tm_time = gmtime_r seconds;
          date = pad_left 4 (CHR '' '') (show_int (tm_year tm_time + 1900)) @ show_int0 2 (tm_mon tm_time + 1)
            @ show_int0 2 (tm_mday tm_time) @ '' '' @ show_int0 2 (tm_hour tm_time) @ '':''
            @ show_int0 2 (tm_min tm_time) @ '':'' @ show_int0 2 (tm_sec tm_time)
      in if showMicroseconds
         then let microseconds = c_mod (microSecondsSinceEpoch t) kMicroSecondsPerSecond
              in take 31 (date @ ''.'' @ show_int0 6 microseconds)
         else take 31 date)"

section \<open>Lemmas\<close>

lemma timestamp_order [simp]:
  "Timestamp a < Timestamp b \<longleftrightarrow> a < b" "Timestamp a \<le> Timestamp b \<longleftrightarrow> a \<le> b"
  by (simp_all add: less_Timestamp_def Timestamp_less_def less_eq_Timestamp_def)

lemma fromUnixTime_now: "Timestamp_now (s, us) = fromUnixTime s us"
  by (simp add: Timestamp_now_def fromUnixTime_def)

lemma secondsSinceEpoch_fromUnixTime:
  "0 \<le> s \<Longrightarrow> 0 \<le> us \<Longrightarrow> us < 1000000 \<Longrightarrow> secondsSinceEpoch (fromUnixTime s us) = s"
  by (simp add: secondsSinceEpoch_def fromUnixTime_def kMicroSecondsPerSecond_def)

lemma addTime_difference:
  assumes "0 \<le> s"
  shows "timeDifference (addTime t s) t \<le> s" "s - timeDifference (addTime t s) t < 1 / 1000000"
proof -
  have d: "timeDifference (addTime t s) t = of_int \<lfloor>s * 1000000\<rfloor> / 1000000"
    using assms by (simp add: timeDifference_def addTime_def trunc_def kMicroSecondsPerSecond_def)
  have "of_int \<lfloor>s * 1000000\<rfloor> \<le> s * 1000000" "s * 1000000 < of_int \<lfloor>s * 1000000\<rfloor> + 1"
    by linarith+
  then show "timeDifference (addTime t s) t \<le> s" "s - timeDifference (addTime t s) t < 1 / 1000000"
    unfolding d by (simp_all add: field_simps)
qed

lemma addTime_later: "0 < s \<Longrightarrow> 1 \<le> s * 1000000 \<Longrightarrow> t < addTime t s"
  by (cases t) (simp add: addTime_def trunc_def kMicroSecondsPerSecond_def less_Timestamp_def Timestamp_less_def)

lemma read_nat_zeros [simp]: "read_nat 0 (replicate n (CHR ''0'') @ s) = read_nat 0 s"
  by (induction n) simp_all

lemma read_show_int0 [simp]: "0 \<le> i \<Longrightarrow> read_nat 0 (show_int0 w i) = nat i"
  by (simp add: show_int0_def pad_left_def)

section \<open>Properties\<close>

definition Timestamp_read :: "string \<Rightarrow> Timestamp option" where
  "Timestamp_read s = map_option (\<lambda>i. Timestamp (int (read_nat 0 (take i s)) * 1000000
     + int (read_nat 0 (drop (i + 1) s)))) (find_char (CHR ''.'') s)"

lemma dot_not_in_show_nat [simp]: "CHR ''.'' \<notin> set (show_nat n)"
  using show_nat_digits [of "CHR ''.''" n] by (auto simp: is_digit_def)

text \<open>
  The text of a timestamp determines it: reading the seconds before the dot and the six digits
  after it gives the timestamp back, and the 32-byte buffer never truncates the text.
\<close>

theorem Timestamp_toString_roundtrip:
  assumes "0 \<le> microSecondsSinceEpoch t" "microSecondsSinceEpoch t < 2 ^ 63"
  shows "Timestamp_read (Timestamp_toString t) = Some t"
proof -
  define s u where "s = microSecondsSinceEpoch t div 1000000" and "u = microSecondsSinceEpoch t mod 1000000"
  have su: "0 \<le> s" "s < 10 ^ 13" "0 \<le> u" "u < 1000000" "microSecondsSinceEpoch t = s * 1000000 + u"
    using assms by (simp_all add: s_def u_def)
  have "length (show_nat (nat s)) \<le> 13" "length (show_nat (nat u)) \<le> 6"
    using su length_show_nat_le [of "nat s" 12] length_show_nat_le [of "nat u" 5] by simp_all
  then have "Timestamp_toString t = show_nat (nat s) @ CHR ''.'' # show_int0 6 u"
    using assms(1) su by (simp add: Timestamp_toString_def kMicroSecondsPerSecond_def s_def [symmetric]
        u_def [symmetric] show_int_def show_int0_def)
  then show ?thesis
    using su by (cases t) (simp add: Timestamp_read_def)
qed

theorem Timestamp_toString_roundtrip_witness:
  "Timestamp_read (Timestamp_toString (Timestamp 1234000056)) = Some (Timestamp 1234000056)"
  by (rule Timestamp_toString_roundtrip) simp_all

end
