(* ===== verification/TimeZone.thy ===== *)
theory TimeZone
  imports Timestamp Endian "HOL-Library.Monad_Syntax"
begin

text \<open>
  \<open>TimeZone\<close> (\<open>src/TimeZone.h\<close>, \<open>src/TimeZone.cc\<close>): reading a zone file, finding the local time type
  of an instant, conversions between UTC seconds and broken-down time. A \<open>None\<close> stands for a failed
  assertion or an access outside a vector; the \<open>logic_error\<close> exceptions of the file reader are values of a
  sum type, and what was already stored in the \<open>Data\<close> object stays there.
\<close>

record Transition =
  gmttime :: int
  localtime :: int
  localtimeIdx :: int

record Localtime =
  gmtOffset :: int
  isDst :: bool
  arrbIdx :: int

record tz_data =
  transitions :: "Transition list"
  localtimes :: "Localtime list"
  names :: "string list"
  tz_abbreviation :: string

definition tz_data_new :: tz_data where
  "tz_data_new = \<lparr>transitions = [], localtimes = [], names = [], tz_abbreviation = ''''\<rparr>"

text \<open>\<open>Comp\<close>: \<open>compareGmt\<close> selects the key.\<close>

definition comp_less :: "bool \<Rightarrow> Transition \<Rightarrow> Transition \<Rightarrow> bool" where
  "comp_less compareGmt lhs rhs =
     (if compareGmt then gmttime lhs < gmttime rhs else localtime lhs < localtime rhs)"

definition comp_equal :: "bool \<Rightarrow> Transition \<Rightarrow> Transition \<Rightarrow> bool" where
  "comp_equal compareGmt lhs rhs =
     (if compareGmt then gmttime lhs = gmttime rhs else localtime lhs = localtime rhs)"

definition fillHMS :: "int \<Rightarrow> tm \<Rightarrow> tm" where
  "fillHMS seconds utc =
     (let minutes = seconds div 60 in
      utc\<lparr>tm_sec := seconds mod 60, tm_min := minutes mod 60, tm_hour := minutes div 60\<rparr>)"

definition kSecondsPerDay :: int where "kSecondsPerDay = 24 * 60 * 60"

section \<open>UTC\<close>

definition toUtcTime :: "int \<Rightarrow> bool \<Rightarrow> tm" where
  "toUtcTime secs yday =
     (let utc = tm_zero\<lparr>tm_zone := ''GMT''\<rparr>;
          seconds = c_mod secs kSecondsPerDay;
          days = c_div secs kSecondsPerDay;
          (seconds, days) = (if seconds < 0 then (seconds + kSecondsPerDay, days - 1) else (seconds, days));
          utc = fillHMS seconds utc;
          date = Date (days + kJulianDayOf1970_01_01);
          ymd = yearMonthDay date;
          utc = utc\<lparr>tm_year := year ymd - 1900, tm_mon := month ymd - 1, tm_mday := day ymd,
                    tm_wday := weekDay date\<rparr>
      in if yday
         then let startOfYear = Date_ymd (year ymd) 1 1
              in utc\<lparr>tm_yday := julianDayNumber date - julianDayNumber startOfYear\<rparr>
         else utc)"

definition fromUtcTime6 :: "int \<Rightarrow> int \<Rightarrow> int \<Rightarrow> int \<Rightarrow> int \<Rightarrow> int \<Rightarrow> int" where
  "fromUtcTime6 y m d hour minute seconds =
     (let date = Date_ymd y m d;
          secondsInDay = hour * 3600 + minute * 60 + seconds;
          days = julianDayNumber date - kJulianDayOf1970_01_01
      in days * kSecondsPerDay + secondsInDay)"

definition fromUtcTime :: "tm \<Rightarrow> int" where
  "fromUtcTime utc = fromUtcTime6 (tm_year utc + 1900) (tm_mon utc + 1) (tm_mday utc)
     (tm_hour utc) (tm_min utc) (tm_sec utc)"

section \<open>Zones\<close>

text \<open>\<open>std::lower_bound\<close>: binary search for the first element not less than the value.\<close>

function lower_bound :: "('a \<Rightarrow> 'a \<Rightarrow> bool) \<Rightarrow> 'a list \<Rightarrow> 'a \<Rightarrow> nat \<Rightarrow> nat \<Rightarrow> nat" where
  "lower_bound lt xs v first len =
     (if len = 0 then first
      else let half = len div 2; middle = first + half in
        if lt (xs ! middle) v then lower_bound lt xs v (middle + 1) (len - half - 1)
        else lower_bound lt xs v first half)"
  by pat_completeness auto
termination
  by (relation "measure (\<lambda>(lt, xs, v, first, len). len)") auto

declare lower_bound.simps [simp del]

definition at_index :: "'a list \<Rightarrow> int \<Rightarrow> 'a option" where
  "at_index xs i = (if 0 \<le> i \<and> i < int (length xs) then Some (xs ! nat i) else None)"

definition findLocaltime :: "tz_data \<Rightarrow> Transition \<Rightarrow> bool \<Rightarrow> Localtime option" where
  "findLocaltime data sentry cmp =
     (if transitions data = [] \<or> comp_less cmp sentry (hd (transitions data)) then at_index (localtimes data) 0
      else
        let transI = lower_bound (comp_less cmp) (transitions data) sentry 0 (length (transitions data)) in
        if transI \<noteq> length (transitions data) then
          if \<not> comp_equal cmp sentry (transitions data ! transI) then do {
            ensure (transI \<noteq> 0);
            at_index (localtimes data) (localtimeIdx (transitions data ! (transI - 1)))
          }
          else at_index (localtimes data) (localtimeIdx (transitions data ! transI))
        else at_index (localtimes data) (localtimeIdx (last (transitions data))))"

definition TimeZone_fixed :: "int \<Rightarrow> string \<Rightarrow> tz_data option" where
  "TimeZone_fixed eastOfUtc name =
     (let data = tz_data_new in
      Some (data\<lparr>localtimes := localtimes data @ [\<lparr>gmtOffset = eastOfUtc, isDst = False, arrbIdx = 0\<rparr>],
                 tz_abbreviation := name\<rparr>))"

definition TimeZone_valid :: "tz_data option \<Rightarrow> bool" where
  "TimeZone_valid tz \<longleftrightarrow> tz \<noteq> None"

text \<open>The C string at \<open>&s[i]\<close>.\<close>

definition c_string_at :: "string \<Rightarrow> int \<Rightarrow> string" where
  "c_string_at s i = takeWhile (\<lambda>c. c \<noteq> CHR 0x00) (drop (nat i) s)"

definition toLocalTime :: "tz_data option \<Rightarrow> int \<Rightarrow> tm option" where
  "toLocalTime tz seconds = do {
     data \<leftarrow> tz;
     let sentry = \<lparr>gmttime = seconds, localtime = 0, localtimeIdx = 0\<rparr>;
     local \<leftarrow> findLocaltime data sentry True;
     let localSeconds = seconds + gmtOffset local;
     ensure (0 \<le> arrbIdx local \<and> arrbIdx local \<le> int (length (tz_abbreviation data)));
     Some ((gmtime_r localSeconds)\<lparr>tm_isdst := isDst local, tm_gmtoff := gmtOffset local,
             tm_zone := c_string_at (tz_abbreviation data) (arrbIdx local)\<rparr>)
   }"

definition fromLocalTime :: "tz_data option \<Rightarrow> tm \<Rightarrow> int option" where
  "fromLocalTime tz localTm = do {
     data \<leftarrow> tz;
     let seconds = timegm localTm;
     let sentry = \<lparr>gmttime = 0, localtime = seconds, localtimeIdx = 0\<rparr>;
     local \<leftarrow> findLocaltime data sentry False;
     if tm_isdst localTm then do {
       tryTm \<leftarrow> toLocalTime tz (seconds - gmtOffset local);
       let seconds' = (if \<not> tm_isdst tryTm \<and> tm_hour tryTm = tm_hour localTm \<and> tm_min tryTm = tm_min localTm
                       then seconds - 3600 else seconds);
       Some (seconds' - gmtOffset local)
     }
     else Some (seconds - gmtOffset local)
   }"

section \<open>Reading a zone file\<close>

text \<open>
  A computation of the reader gets the rest of the file and the \<open>Data\<close> object. It returns a value or
  throws a \<open>logic_error\<close>, with the new state in both cases.
\<close>

type_synonym 'a reader = "bytes \<times> tz_data \<Rightarrow> ((string + 'a) \<times> bytes \<times> tz_data) option"

definition rd_return :: "'a \<Rightarrow> 'a reader" where
  "rd_return x s = Some (Inr x, s)"

definition rd_throw :: "string \<Rightarrow> 'a reader" where
  "rd_throw e s = Some (Inl e, s)"

definition rd_bind :: "'a reader \<Rightarrow> ('a \<Rightarrow> 'b reader) \<Rightarrow> 'b reader" where
  "rd_bind m k s =
     (case m s of
        None \<Rightarrow> None
      | Some (Inl e, s') \<Rightarrow> Some (Inl e, s')
      | Some (Inr x, s') \<Rightarrow> k x s')"

definition rd_update :: "(tz_data \<Rightarrow> tz_data) \<Rightarrow> unit reader" where
  "rd_update f s = Some (Inr (), fst s, f (snd s))"

text \<open>\<open>fread\<close> consumes what is there, also when it is too little.\<close>

definition readBytes :: "int \<Rightarrow> bytes reader" where
  "readBytes n s =
     (if n < 0 then None
      else if nat n \<le> length (fst s) then Some (Inr (take (nat n) (fst s)), drop (nat n) (fst s), snd s)
      else Some (Inl ''no enough data'', [], snd s))"

definition readInt32 :: "int reader" where
  "readInt32 s =
     (if 4 \<le> length (fst s)
      then Some (Inr (sint (networkToHost32 (load32 (take 4 (fst s))))), drop 4 (fst s), snd s)
      else Some (Inl ''bad int32_t data'', [], snd s))"

definition readUInt8 :: "int reader" where
  "readUInt8 s =
     (case fst s of
        c # cs \<Rightarrow> Some (Inr (int (of_char c)), cs, snd s)
      | [] \<Rightarrow> Some (Inl ''bad uint8_t data'', [], snd s))"

text \<open>\<open>for (int i = 0; i < n; ++i) push_back(m())\<close>.\<close>

fun rd_repeat :: "nat \<Rightarrow> 'a reader \<Rightarrow> 'a list reader" where
  "rd_repeat 0 m = rd_return []"
| "rd_repeat (Suc n) m = rd_bind m (\<lambda>x. rd_bind (rd_repeat n m) (\<lambda>xs. rd_return (x # xs)))"

definition readLocaltime :: "unit reader" where
  "readLocaltime =
     rd_bind readInt32 (\<lambda>gmtoff. rd_bind readUInt8 (\<lambda>isdst. rd_bind readUInt8 (\<lambda>abbrind.
       rd_update (\<lambda>d. d\<lparr>localtimes := localtimes d @ [\<lparr>gmtOffset = gmtoff, isDst = isdst \<noteq> 0, arrbIdx = abbrind\<rparr>]\<rparr>))))"

fun pushTransitions :: "int list \<Rightarrow> int list \<Rightarrow> unit reader" where
  "pushTransitions (t # ts) (localIdx # idxs) =
     (\<lambda>s. case at_index (localtimes (snd s)) localIdx of
            None \<Rightarrow> None
          | Some l \<Rightarrow>
              rd_bind (rd_update (\<lambda>d. d\<lparr>transitions := transitions d @
                  [\<lparr>gmttime = t, localtime = t + gmtOffset l, localtimeIdx = localIdx\<rparr>]\<rparr>))
                (\<lambda>_. pushTransitions ts idxs) s)"
| "pushTransitions _ _ = rd_return ()"

definition readZone :: "unit reader" where
  "readZone =
     rd_bind (readBytes 4) (\<lambda>head.
     if head \<noteq> ''TZif'' then rd_throw ''bad head'' else
     rd_bind (readBytes 1) (\<lambda>version.
     rd_bind (readBytes 15) (\<lambda>_.
     rd_bind readInt32 (\<lambda>isgmtcnt.
     rd_bind readInt32 (\<lambda>isstdcnt.
     rd_bind readInt32 (\<lambda>leapcnt.
     rd_bind readInt32 (\<lambda>timecnt.
     rd_bind readInt32 (\<lambda>typecnt.
     rd_bind readInt32 (\<lambda>charcnt.
     if timecnt < 0 then rd_throw ''vector::reserve'' else
     rd_bind (rd_repeat (nat timecnt) readInt32) (\<lambda>ts.
     rd_bind (rd_repeat (nat timecnt) readUInt8) (\<lambda>idxs.
     rd_bind (rd_repeat (nat typecnt) readLocaltime) (\<lambda>_.
     rd_bind (pushTransitions ts idxs) (\<lambda>_.
     rd_bind (readBytes charcnt) (\<lambda>chars.
     rd_update (\<lambda>d. d\<lparr>tz_abbreviation := chars\<rparr>)))))))))))))))"

text \<open>
  \<open>readTimeZoneFile\<close>: the file is \<open>None\<close> when \<open>fopen\<close> fails. The result is the return value and the
  \<open>Data\<close> object; a caught exception only prints a message.
\<close>

definition readTimeZoneFile :: "bytes option \<Rightarrow> tz_data \<Rightarrow> (bool \<times> tz_data) option" where
  "readTimeZoneFile file data =
     (case file of
        None \<Rightarrow> Some (True, data)
      | Some f \<Rightarrow> (case readZone (f, data) of
          None \<Rightarrow> None
        | Some (r, f', data') \<Rightarrow> Some (True, data')))"

definition TimeZone_file :: "bytes option \<Rightarrow> tz_data option option" where
  "TimeZone_file file =
     map_option (\<lambda>(ok, data). if ok then Some data else None) (readTimeZoneFile file tz_data_new)"

section \<open>UTC conversions\<close>

lemma c_floor:
  assumes "0 < n"
  shows "(if c_mod a n < 0 then (c_mod a n + n, c_div a n - 1) else (c_mod a n, c_div a n)) = (a mod n, a div n)"
proof (cases "0 \<le> a")
  case True
  then show ?thesis using assms by (simp add: not_less)
next
  case False
  define q r where "q = c_div a n" and "r = c_mod a n"
  have r: "- n < r" "r \<le> 0" "a = n * q + r"
    using c_mod_lower [OF assms] c_mod_sign_neg [OF assms] c_div_mod_eq [of n a] False
    by (simp_all add: q_def r_def not_le)
  show ?thesis
  proof (cases "r < 0")
    case True
    have "a div n = q - 1" "a mod n = r + n"
      using r True assms int_div_pos_eq [of a n "q - 1" "r + n"] int_mod_pos_eq [of a n "q - 1" "r + n"]
      by (simp_all add: algebra_simps)
    with True show ?thesis by (simp add: q_def r_def)
  next
    case False
    then have "r = 0" using r by simp
    then have "a div n = q" "a mod n = 0" using r(3) assms by simp_all
    with \<open>r = 0\<close> show ?thesis by (simp add: q_def r_def)
  qed
qed

lemma julian_1970 [simp]: "kJulianDayOf1970_01_01 = 2440588"
  unfolding kJulianDayOf1970_01_01_def by code_simp

lemma toUtcTime_gmtime:
  assumes "0 \<le> t div 86400 + 2440588"
  shows "toUtcTime t True = gmtime_r t"
proof -
  define s d where "s = t mod 86400" and "d = t div 86400"
  have sd: "(if c_mod t kSecondsPerDay < 0 then (c_mod t kSecondsPerDay + kSecondsPerDay, c_div t kSecondsPerDay - 1)
      else (c_mod t kSecondsPerDay, c_div t kSecondsPerDay)) = (s, d)"
    using c_floor [of kSecondsPerDay t] by (simp add: kSecondsPerDay_def s_def d_def)
  have "c_mod (d + 2440588 + 1) 7 = (d + 2440588 + 1) mod 7"
    using assms by (subst c_mod_nonneg) (simp_all add: d_def)
  moreover have "s div 60 div 60 = s div 3600" by (simp flip: zdiv_zmult2_eq)
  ultimately show ?thesis
    unfolding toUtcTime_def gmtime_r_def Let_def sd prod.case s_def [symmetric] d_def [symmetric]
    by (simp add: fillHMS_def tm_zero_def yearMonthDay_def weekDay_def Date_ymd_def kDaysPerWeek_def Let_def)
qed

lemma fromUtcTime_tm:
  assumes "-32044 \<le> j" "0 \<le> s"
  shows "fromUtcTime6 (year (getYearMonthDay j)) (month (getYearMonthDay j)) (day (getYearMonthDay j))
    (s div 60 div 60) (s div 60 mod 60) (s mod 60) = (j - 2440588) * 86400 + s"
proof -
  define m where "m = s div 60"
  have "s = 60 * m + s mod 60" "m = 60 * (m div 60) + m mod 60" by (simp_all add: m_def)
  then have "s div 60 div 60 * 3600 + s div 60 mod 60 * 60 + s mod 60 = s"
    unfolding m_def [symmetric] by linarith
  then show ?thesis
    using julian_getYearMonthDay [OF assms(1)]
    by (simp add: fromUtcTime6_def Date_ymd_def kSecondsPerDay_def)
qed

lemma fromUtcTime_toUtcTime:
  assumes "-32044 \<le> t div 86400 + 2440588"
  shows "fromUtcTime (toUtcTime t yday) = t"
proof -
  define s d where "s = t mod 86400" and "d = t div 86400"
  have t: "t = d * 86400 + s" "0 \<le> s" by (simp_all add: s_def d_def)
  have sd: "(if c_mod t kSecondsPerDay < 0 then (c_mod t kSecondsPerDay + kSecondsPerDay, c_div t kSecondsPerDay - 1)
      else (c_mod t kSecondsPerDay, c_div t kSecondsPerDay)) = (s, d)"
    using c_floor [of kSecondsPerDay t] by (simp add: kSecondsPerDay_def s_def d_def)
  have "fromUtcTime (toUtcTime t yday) =
    fromUtcTime6 (year (getYearMonthDay (d + 2440588))) (month (getYearMonthDay (d + 2440588)))
      (day (getYearMonthDay (d + 2440588))) (s div 60 div 60) (s div 60 mod 60) (s mod 60)"
    unfolding fromUtcTime_def toUtcTime_def Let_def sd prod.case
    by (simp add: fillHMS_def yearMonthDay_def Let_def)
  also have "\<dots> = d * 86400 + s"
    using fromUtcTime_tm [of "d + 2440588" s] assms t(2) by (simp add: d_def)
  finally show ?thesis using t(1) by simp
qed

section \<open>Finding the local time type\<close>

definition tkey :: "bool \<Rightarrow> Transition \<Rightarrow> int" where
  "tkey cmp t = (if cmp then gmttime t else localtime t)"

lemma comp_key: "comp_less cmp a b \<longleftrightarrow> tkey cmp a < tkey cmp b" "comp_equal cmp a b \<longleftrightarrow> tkey cmp a = tkey cmp b"
  by (simp_all add: comp_less_def comp_equal_def tkey_def)

definition ascending :: "bool \<Rightarrow> Transition list \<Rightarrow> bool" where
  "ascending cmp ts \<longleftrightarrow> sorted_wrt (\<lambda>a b. tkey cmp a < tkey cmp b) ts"

lemma ascending_nth:
  "ascending cmp ts \<Longrightarrow> i < j \<Longrightarrow> j < length ts \<Longrightarrow> tkey cmp (ts ! i) < tkey cmp (ts ! j)"
  by (simp add: ascending_def sorted_wrt_iff_nth_less)

text \<open>The binary search splits a sorted vector at the first element that is not less.\<close>

definition split_at :: "('a \<Rightarrow> bool) \<Rightarrow> 'a list \<Rightarrow> nat \<Rightarrow> bool" where
  "split_at P xs n \<longleftrightarrow> n \<le> length xs \<and> (\<forall>i<n. P (xs ! i)) \<and> (\<forall>i<length xs. n \<le> i \<longrightarrow> \<not> P (xs ! i))"

lemma lower_bound_split:
  assumes mono: "\<And>i j. i \<le> j \<Longrightarrow> j < length xs \<Longrightarrow> lt (xs ! j) v \<Longrightarrow> lt (xs ! i) v"
  shows "first + len \<le> length xs \<Longrightarrow> \<forall>i<first. lt (xs ! i) v \<Longrightarrow>
    \<forall>i<length xs. first + len \<le> i \<longrightarrow> \<not> lt (xs ! i) v \<Longrightarrow>
    split_at (\<lambda>x. lt x v) xs (lower_bound lt xs v first len)"
proof (induction len arbitrary: first rule: less_induct)
  case (less len)
  show ?case
  proof (cases "len = 0")
    case True
    with less.prems show ?thesis by (simp add: lower_bound.simps split_at_def)
  next
    case len: False
    define mid where "mid = first + len div 2"
    have mid: "mid < length xs" using less.prems(1) len by (auto simp: mid_def)
    show ?thesis
    proof (cases "lt (xs ! mid) v")
      case True
      have "\<forall>i<mid + 1. lt (xs ! i) v"
        using mono [OF _ mid True] by auto
      moreover have "mid + 1 + (len - len div 2 - 1) = first + len" "len - len div 2 - 1 < len"
        using len by (simp_all add: mid_def)
      ultimately have "split_at (\<lambda>x. lt x v) xs (lower_bound lt xs v (mid + 1) (len - len div 2 - 1))"
        using less.prems by (intro less.IH) simp_all
      then show ?thesis
        using len True by (subst lower_bound.simps) (simp add: Let_def mid_def)
    next
      case False
      have "split_at (\<lambda>x. lt x v) xs (lower_bound lt xs v first (len div 2))"
      proof (rule less.IH)
        show "\<forall>i<length xs. first + len div 2 \<le> i \<longrightarrow> \<not> lt (xs ! i) v"
          using mono False unfolding mid_def by blast
      qed (use len less.prems in auto)
      then show ?thesis
        using len False by (subst lower_bound.simps) (simp add: Let_def mid_def)
    qed
  qed
qed

text \<open>
  The specification of \<open>findLocaltime\<close>: the type of the last transition not after the instant, and the
  first local time type before every transition.
\<close>

definition last_not_after :: "bool \<Rightarrow> tz_data \<Rightarrow> int \<Rightarrow> Localtime option" where
  "last_not_after cmp data k =
     (case filter (\<lambda>t. tkey cmp t \<le> k) (transitions data) of
        [] \<Rightarrow> at_index (localtimes data) 0
      | ts \<Rightarrow> at_index (localtimes data) (localtimeIdx (last ts)))"

lemma filter_take:
  assumes "n \<le> length ts" "\<And>i. i < length ts \<Longrightarrow> P (ts ! i) \<longleftrightarrow> i < n"
  shows "filter P ts = take n ts"
proof -
  have "filter P (take n ts) = take n ts"
    using assms by (auto simp: filter_id_conv in_set_conv_nth)
  moreover have "filter P (drop n ts) = []"
    using assms by (auto simp: filter_empty_conv in_set_conv_nth)
  ultimately show ?thesis
    by (metis append_take_drop_id filter_append append_Nil2)
qed

lemma last_take: "0 < n \<Longrightarrow> n \<le> length xs \<Longrightarrow> last (take n xs) = xs ! (n - 1)"
  by (subst last_conv_nth) (auto simp: min_absorb2)

lemma findLocaltime_spec:
  assumes asc: "ascending cmp (transitions data)"
  shows "findLocaltime data sentry cmp = last_not_after cmp data (tkey cmp sentry)"
proof -
  let ?ts = "transitions data" and ?k = "tkey cmp sentry"
  define n where "n = lower_bound (comp_less cmp) ?ts sentry 0 (length ?ts)"
  have "split_at (\<lambda>x. comp_less cmp x sentry) ?ts n"
    unfolding n_def
  proof (rule lower_bound_split)
    fix i j assume "i \<le> j" "j < length ?ts" "comp_less cmp (?ts ! j) sentry"
    then show "comp_less cmp (?ts ! i) sentry"
      using ascending_nth [OF asc, of i j] by (cases "i = j") (auto simp: comp_key)
  qed simp_all
  then have n: "n \<le> length ?ts" "\<And>i. i < length ?ts \<Longrightarrow> tkey cmp (?ts ! i) < ?k \<longleftrightarrow> i < n"
    unfolding split_at_def comp_key by (auto simp: not_less)
  have take: "filter (\<lambda>t. tkey cmp t \<le> ?k) ?ts = take m ?ts"
    if "m \<le> length ?ts" "\<And>i. i < length ?ts \<Longrightarrow> tkey cmp (?ts ! i) \<le> ?k \<longleftrightarrow> i < m" for m
    using that by (rule filter_take)
  consider "?ts = []" | "?ts \<noteq> []" "?k < tkey cmp (hd ?ts)"
    | "?ts \<noteq> []" "tkey cmp (hd ?ts) \<le> ?k" by fastforce
  then show ?thesis
  proof cases
    case 1
    then show ?thesis by (simp add: findLocaltime_def last_not_after_def)
  next
    case 2
    have "filter (\<lambda>t. tkey cmp t \<le> ?k) ?ts = take 0 ?ts"
    proof (rule take)
      fix i assume "i < length ?ts"
      with 2 show "tkey cmp (?ts ! i) \<le> ?k \<longleftrightarrow> i < 0"
        using ascending_nth [OF asc, of 0 i] by (cases "i = 0") (auto simp: hd_conv_nth)
    qed simp
    with 2 show ?thesis by (simp add: findLocaltime_def last_not_after_def comp_key)
  next
    case 3
    define m where "m = (if n < length ?ts \<and> tkey cmp (?ts ! n) = ?k then n + 1 else n)"
    have m: "m \<le> length ?ts" using n(1) by (auto simp: m_def)
    have fm: "filter (\<lambda>t. tkey cmp t \<le> ?k) ?ts = take m ?ts"
    proof (rule take [OF m])
      fix i assume i: "i < length ?ts"
      show "tkey cmp (?ts ! i) \<le> ?k \<longleftrightarrow> i < m"
        using n(2) [OF i] n(2) [of n] ascending_nth [OF asc, of n i] i
        by (cases i n rule: linorder_cases) (auto simp: m_def)
    qed
    have "m \<noteq> 0"
      using 3 n(2) [of 0] by (auto simp: m_def hd_conv_nth)
    note fm
    moreover from \<open>m \<noteq> 0\<close> obtain a l where al: "take m ?ts = a # l"
      using 3(1) by (cases "take m ?ts") auto
    moreover have "last (a # l) = ?ts ! (m - 1)"
      using last_take [of m ?ts] m \<open>m \<noteq> 0\<close> unfolding al by simp
    ultimately have r: "last_not_after cmp data ?k = at_index (localtimes data) (localtimeIdx (?ts ! (m - 1)))"
      unfolding last_not_after_def by (simp only: list.case)
    have "n \<noteq> 0" if "\<not> (n < length ?ts \<and> tkey cmp (?ts ! n) = ?k)"
      using \<open>m \<noteq> 0\<close> that by (simp add: m_def)
    then show ?thesis
      unfolding r findLocaltime_def n_def [symmetric] Let_def comp_key
      using 3 n(1) by (auto simp: m_def last_conv_nth)
  qed
qed

section \<open>Zone files\<close>

definition enc_int32 :: "int \<Rightarrow> bytes" where "enc_int32 i = be32 (word_of_int i)"

definition enc_uint8 :: "int \<Rightarrow> bytes" where "enc_uint8 i = [char_of (nat i)]"

definition enc_localtime :: "Localtime \<Rightarrow> bytes" where
  "enc_localtime l = enc_int32 (gmtOffset l) @ enc_uint8 (if isDst l then 1 else 0) @ enc_uint8 (arrbIdx l)"

definition fits32 :: "int \<Rightarrow> bool" where "fits32 i \<longleftrightarrow> - (2 ^ 31) \<le> i \<and> i < 2 ^ 31"
definition fits8 :: "int \<Rightarrow> bool" where "fits8 i \<longleftrightarrow> 0 \<le> i \<and> i < 256"

text \<open>A version 1 zone file (\<open>tzfile(5)\<close>) with the given transitions, types and abbreviations.\<close>

definition tz_file :: "byte \<Rightarrow> bytes \<Rightarrow> int \<Rightarrow> int \<Rightarrow> int \<Rightarrow> (int \<times> int) list \<Rightarrow> Localtime list \<Rightarrow> string \<Rightarrow> bytes \<Rightarrow> bytes" where
  "tz_file version reserved isgmtcnt isstdcnt leapcnt trs types chars rest =
     ''TZif'' @ [version] @ reserved @ enc_int32 isgmtcnt @ enc_int32 isstdcnt @ enc_int32 leapcnt
     @ enc_int32 (int (length trs)) @ enc_int32 (int (length types)) @ enc_int32 (int (length chars))
     @ concat (map enc_int32 (map fst trs)) @ concat (map enc_uint8 (map snd trs))
     @ concat (map enc_localtime types) @ chars @ rest"

lemma readInt32_enc [simp]: "fits32 i \<Longrightarrow> readInt32 (enc_int32 i @ ys, d) = Some (Inr i, ys, d)"
  by (simp add: readInt32_def enc_int32_def fits32_def signed_of_int signed_take_bit_int_eq_self)

lemma readUInt8_enc [simp]: "fits8 i \<Longrightarrow> readUInt8 (enc_uint8 i @ ys, d) = Some (Inr i, ys, d)"
  by (simp add: readUInt8_def enc_uint8_def fits8_def nat_less_iff)

lemma readBytes_enc [simp]: "n = int (length xs) \<Longrightarrow> readBytes n (xs @ ys, d) = Some (Inr xs, ys, d)"
  by (simp add: readBytes_def)

lemma rd_bind_Inr [simp]: "m s = Some (Inr x, s') \<Longrightarrow> rd_bind m k s = k x s'"
  by (simp add: rd_bind_def)

lemma rd_bind_readBytes: "n = int (length xs) \<Longrightarrow> rd_bind (readBytes n) k (xs @ ys, d) = k xs (ys, d)"
  by simp

lemma rd_bind_readInt32: "fits32 i \<Longrightarrow> rd_bind readInt32 k (enc_int32 i @ ys, d) = k i (ys, d)"
  by simp

lemma rd_repeat_enc:
  assumes "\<And>x ys. x \<in> set xs \<Longrightarrow> m (enc x @ ys, d) = Some (Inr x, ys, d)"
  shows "rd_repeat (length xs) m (concat (map enc xs) @ ys, d) = Some (Inr xs, ys, d)"
  using assms by (induction xs) (simp_all add: rd_return_def)

lemma rd_repeat_localtime:
  assumes "\<forall>l\<in>set ls. fits32 (gmtOffset l) \<and> fits8 (arrbIdx l)"
  shows "\<exists>us. rd_repeat (length ls) readLocaltime (concat (map enc_localtime ls) @ ys, d) =
    Some (Inr us, ys, d\<lparr>localtimes := localtimes d @ ls\<rparr>)"
  using assms
proof (induction ls arbitrary: d)
  case Nil
  then show ?case by (simp add: rd_return_def)
next
  case (Cons l ls)
  have "readLocaltime (concat (map enc_localtime (l # ls)) @ ys, d) =
      Some (Inr (), concat (map enc_localtime ls) @ ys, d\<lparr>localtimes := localtimes d @ [l]\<rparr>)"
    using Cons.prems by (simp add: readLocaltime_def enc_localtime_def rd_update_def fits8_def)
  moreover obtain us where "rd_repeat (length ls) readLocaltime (concat (map enc_localtime ls) @ ys,
        d\<lparr>localtimes := localtimes d @ [l]\<rparr>) =
      Some (Inr us, ys, d\<lparr>localtimes := localtimes d @ l # ls\<rparr>)"
    using Cons.IH [of "d\<lparr>localtimes := localtimes d @ [l]\<rparr>"] Cons.prems by auto
  ultimately show ?case by (simp add: rd_return_def)
qed

lemma pushTransitions_ok:
  "\<forall>(t, i)\<in>set trs. 0 \<le> i \<and> i < int (length (localtimes d)) \<Longrightarrow>
   pushTransitions (map fst trs) (map snd trs) (ys, d) = Some (Inr (), ys, d\<lparr>transitions := transitions d @
     map (\<lambda>(t, i). \<lparr>gmttime = t, localtime = t + gmtOffset (localtimes d ! nat i), localtimeIdx = i\<rparr>) trs\<rparr>)"
  by (induction trs arbitrary: d) (auto simp: rd_return_def at_index_def rd_update_def)

definition tz_file_ok :: "bytes \<Rightarrow> int \<Rightarrow> int \<Rightarrow> int \<Rightarrow> (int \<times> int) list \<Rightarrow> Localtime list \<Rightarrow> string \<Rightarrow> bool" where
  "tz_file_ok reserved isgmtcnt isstdcnt leapcnt trs types chars \<longleftrightarrow>
     length reserved = 15 \<and> fits32 isgmtcnt \<and> fits32 isstdcnt \<and> fits32 leapcnt
     \<and> fits32 (int (length trs)) \<and> fits32 (int (length types)) \<and> fits32 (int (length chars))
     \<and> (\<forall>(t, i)\<in>set trs. fits32 t \<and> fits8 i \<and> i < int (length types))
     \<and> (\<forall>l\<in>set types. fits32 (gmtOffset l) \<and> fits8 (arrbIdx l))"

lemma readZone_tz_file:
  assumes ok: "tz_file_ok reserved isgmtcnt isstdcnt leapcnt trs types chars"
  shows "readZone (tz_file version reserved isgmtcnt isstdcnt leapcnt trs types chars rest, tz_data_new) =
    Some (Inr (), rest, \<lparr>transitions = map (\<lambda>(t, i). \<lparr>gmttime = t,
        localtime = t + gmtOffset (types ! nat i), localtimeIdx = i\<rparr>) trs,
      localtimes = types, names = [], tz_abbreviation = chars\<rparr>)"
proof -
  define head :: bytes where "head = ''TZif''"
  define v where "v = [version]"
  have hv: "4 = int (length head)" "1 = int (length v)" "15 = int (length reserved)"
    using ok by (simp_all add: head_def v_def tz_file_ok_def)
  let ?d = "tz_data_new\<lparr>localtimes := types\<rparr>"
  have ts: "rd_repeat (length trs) readInt32 (concat (map enc_int32 (map fst trs)) @ ys, d) =
      Some (Inr (map fst trs), ys, d)" for ys d
    using ok rd_repeat_enc [of "map fst trs" readInt32 enc_int32 d ys] by (force simp: tz_file_ok_def)
  have ix: "rd_repeat (length trs) readUInt8 (concat (map enc_uint8 (map snd trs)) @ ys, d) =
      Some (Inr (map snd trs), ys, d)" for ys d
    using ok rd_repeat_enc [of "map snd trs" readUInt8 enc_uint8 d ys] by (force simp: tz_file_ok_def)
  obtain us where ls: "rd_repeat (length types) readLocaltime
      (concat (map enc_localtime types) @ chars @ rest, tz_data_new) = Some (Inr us, chars @ rest, ?d)"
    using ok rd_repeat_localtime [of types "chars @ rest" tz_data_new]
    by (auto simp: tz_file_ok_def tz_data_new_def)
  have pt: "pushTransitions (map fst trs) (map snd trs) (chars @ rest, ?d) =
      Some (Inr (), chars @ rest, ?d\<lparr>transitions := map (\<lambda>(t, i). \<lparr>gmttime = t,
        localtime = t + gmtOffset (types ! nat i), localtimeIdx = i\<rparr>) trs\<rparr>)"
    using ok pushTransitions_ok [of trs ?d "chars @ rest"]
    by (force simp: tz_file_ok_def fits8_def tz_data_new_def)
  have bts: "rd_bind (rd_repeat (length trs) readInt32) k (concat (map enc_int32 (map fst trs)) @ ys, d)
      = k (map fst trs) (ys, d)" for ys d and k :: "int list \<Rightarrow> unit reader" using ts by simp
  have bix: "rd_bind (rd_repeat (length trs) readUInt8) k (concat (map enc_uint8 (map snd trs)) @ ys, d)
      = k (map snd trs) (ys, d)" for ys d and k :: "int list \<Rightarrow> unit reader" using ix by simp
  have bls: "rd_bind (rd_repeat (length types) readLocaltime) k
      (concat (map enc_localtime types) @ chars @ rest, tz_data_new) = k us (chars @ rest, ?d)"
      for k :: "unit list \<Rightarrow> unit reader" using ls by simp
  note steps = rd_bind_readBytes rd_bind_readInt32 bts bix bls
    rd_bind_Inr [where m = "pushTransitions (map fst trs) (map snd trs)" and s = "(chars @ rest, ?d)", OF pt]
  show ?thesis
    unfolding readZone_def tz_file_def head_def [symmetric] v_def [symmetric]
    using ok by (simp only: tz_file_ok_def steps hv nat_int of_nat_less_0_iff if_False simp_thms)
      (simp add: rd_update_def tz_data_new_def)
qed

section \<open>Properties\<close>

lemma timegm_gmtime_r:
  assumes "-32044 \<le> t div 86400 + 2440588"
  shows "timegm (gmtime_r t) = t"
proof -
  define s d where "s = t mod 86400" and "d = t div 86400"
  have t: "d * 86400 + s = t" by (simp add: s_def d_def)
  have "s div 3600 = s div 60 div 60" by (simp flip: zdiv_zmult2_eq)
  then have "timegm (gmtime_r t) =
    fromUtcTime6 (year (getYearMonthDay (d + 2440588))) (month (getYearMonthDay (d + 2440588)))
      (day (getYearMonthDay (d + 2440588))) (s div 60 div 60) (s div 60 mod 60) (s mod 60)"
    by (simp add: timegm_def gmtime_r_def fromUtcTime6_def Let_def Date_ymd_def kSecondsPerDay_def
        s_def [symmetric] d_def [symmetric])
  also have "\<dots> = d * 86400 + s"
    using fromUtcTime_tm [of "d + 2440588" s] assms by (simp add: d_def s_def)
  finally show ?thesis using t by simp
qed

text \<open>
  The broken-down UTC time of every instant from 4801 BC on converts back to the instant, before
  the epoch too, where the C++ remainder is negative.
\<close>

theorem utc_roundtrip:
  assumes "-32044 \<le> t div 86400 + 2440588"
  shows "fromUtcTime (toUtcTime t yday) = t"
  by (rule fromUtcTime_toUtcTime [OF assms])

theorem utc_roundtrip_witness: "fromUtcTime (toUtcTime (-1) True) = -1"
  by (rule utc_roundtrip) simp



definition current_type :: "(int \<times> int) list \<Rightarrow> Localtime list \<Rightarrow> int \<Rightarrow> Localtime" where
  "current_type trs types t =
     types ! (case filter (\<lambda>(u, i). u \<le> t) trs of [] \<Rightarrow> 0 | us \<Rightarrow> nat (snd (last us)))"

text \<open>
  C10: a zone read from a well-formed zone file with ascending transition times converts an instant
  with the offset, daylight flag and abbreviation of the last transition not after the instant, and
  of the first type before every transition; no vector is accessed out of range.
\<close>

theorem zone_file_local_time:
  assumes ok: "tz_file_ok reserved isgmtcnt isstdcnt leapcnt trs types chars"
    and asc: "sorted_wrt (<) (map fst trs)" and ne: "types \<noteq> []"
    and abbr: "\<forall>l\<in>set types. arrbIdx l \<le> int (length chars)"
  shows "\<exists>tz l. l = current_type trs types t
    \<and> TimeZone_file (Some (tz_file version reserved isgmtcnt isstdcnt leapcnt trs types chars rest)) = Some tz
    \<and> toLocalTime tz t = Some ((gmtime_r (t + gmtOffset l))\<lparr>tm_isdst := isDst l, tm_gmtoff := gmtOffset l,
        tm_zone := c_string_at chars (arrbIdx l)\<rparr>)"
proof -
  define l where "l = current_type trs types t"
  let ?tr = "\<lambda>(t, i). \<lparr>gmttime = t, localtime = t + gmtOffset (types ! nat i), localtimeIdx = i\<rparr>"
  define data where "data = \<lparr>transitions = map ?tr trs, localtimes = types, names = [], tz_abbreviation = chars\<rparr>"
  have parsed: "TimeZone_file (Some (tz_file version reserved isgmtcnt isstdcnt leapcnt trs types chars rest)) = Some (Some data)"
    using readZone_tz_file [OF ok] by (simp add: TimeZone_file_def readTimeZoneFile_def data_def)
  have "ascending True (transitions data)"
    using asc by (auto simp: ascending_def data_def tkey_def sorted_wrt_map elim!: sorted_wrt_mono_rel [rotated])
  note spec = findLocaltime_spec [OF this]
  have fil: "filter (\<lambda>tr. tkey True tr \<le> t) (map ?tr trs) = map ?tr (filter (\<lambda>(u, i). u \<le> t) trs)"
    by (auto simp: filter_map tkey_def intro!: arg_cong [where f = "map _"] filter_cong)
  have fits: "0 \<le> snd u \<and> snd u < int (length types)" if "u \<in> set trs" for u
    using ok that by (force simp: tz_file_ok_def fits8_def)
  have find: "findLocaltime data \<lparr>gmttime = t, localtime = 0, localtimeIdx = 0\<rparr> True = Some l"
  proof (cases "filter (\<lambda>(u, i). u \<le> t) trs")
    case Nil
    then show ?thesis
      using ne fil unfolding spec by (simp add: last_not_after_def data_def tkey_def l_def current_type_def at_index_def)
  next
    case (Cons u us)
    then have "last (u # us) \<in> set trs"
      by (metis filter_is_subset last_in_set list.distinct(1) subsetD)
    moreover have "localtimeIdx (last (map ?tr (u # us))) = snd (last (u # us))"
      by (subst last_map) (auto split: prod.splits)
    ultimately show ?thesis
      using fits [of "last (u # us)"] Cons fil unfolding spec
      by (simp only: last_not_after_def data_def tkey_def l_def current_type_def at_index_def tz_data.simps Transition.simps
          list.map list.case if_True) simp
  qed
  then have "l \<in> set types"
    using fits by (auto simp: findLocaltime_def at_index_def data_def split: if_splits
        simp: Let_def)
  then have "0 \<le> arrbIdx l" "arrbIdx l \<le> int (length chars)"
    using ok abbr by (auto simp: tz_file_ok_def fits8_def)
  then have "toLocalTime (Some data) t = Some ((gmtime_r (t + gmtOffset l))\<lparr>tm_isdst := isDst l,
      tm_gmtoff := gmtOffset l, tm_zone := c_string_at chars (arrbIdx l)\<rparr>)"
    using find by (simp add: toLocalTime_def) (simp add: data_def)
  with parsed show ?thesis unfolding l_def by blast
qed

theorem zone_file_local_time_witness:
  "\<exists>tz l. l = current_type [(100, 1)] [\<lparr>gmtOffset = 0, isDst = False, arrbIdx = 0\<rparr>, \<lparr>gmtOffset = 3600, isDst = True, arrbIdx = 4\<rparr>] 150
    \<and> TimeZone_file (Some (tz_file (CHR ''2'') (replicate 15 (CHR 0x00)) 0 0 0 [(100, 1)]
        [\<lparr>gmtOffset = 0, isDst = False, arrbIdx = 0\<rparr>, \<lparr>gmtOffset = 3600, isDst = True, arrbIdx = 4\<rparr>]
        (''GMT'' @ [CHR 0x00] @ ''BST'') [])) = Some tz
    \<and> toLocalTime tz 150 = Some ((gmtime_r (150 + gmtOffset l))\<lparr>tm_isdst := isDst l, tm_gmtoff := gmtOffset l,
        tm_zone := c_string_at (''GMT'' @ [CHR 0x00] @ ''BST'') (arrbIdx l)\<rparr>)"
  by (rule zone_file_local_time) (simp_all add: tz_file_ok_def fits32_def fits8_def)

text \<open>
  C11: in a fixed zone local time converts back to the instant it came from.
\<close>

theorem fixed_zone_roundtrip:
  assumes "-32044 \<le> (t + east) div 86400 + 2440588"
  shows "\<exists>lt. toLocalTime (TimeZone_fixed east name) t = Some lt
    \<and> fromLocalTime (TimeZone_fixed east name) lt = Some t"
proof -
  define lt where "lt = (gmtime_r (t + east))\<lparr>tm_isdst := False, tm_gmtoff := east,
    tm_zone := c_string_at name 0\<rparr>"
  have "toLocalTime (TimeZone_fixed east name) t = Some lt"
    by (simp add: toLocalTime_def TimeZone_fixed_def tz_data_new_def findLocaltime_def at_index_def lt_def)
  moreover have "timegm lt = t + east"
    using timegm_gmtime_r [OF assms] by (simp add: lt_def timegm_def)
  then have "fromLocalTime (TimeZone_fixed east name) lt = Some t"
    by (simp add: fromLocalTime_def TimeZone_fixed_def tz_data_new_def findLocaltime_def at_index_def)
      (simp add: lt_def)
  ultimately show ?thesis by blast
qed

theorem fixed_zone_roundtrip_witness:
  "\<exists>lt. toLocalTime (TimeZone_fixed 28800 ''CST'') (-1) = Some lt
    \<and> fromLocalTime (TimeZone_fixed 28800 ''CST'') lt = Some (-1)"
  by (rule fixed_zone_roundtrip) simp

text \<open>
  A zone file that is missing gives a \<open>TimeZone\<close> that claims to be valid but has no local time
  type, and converting with it reads the front of an empty vector.
\<close>

theorem missing_zone_file:
  "\<exists>tz. TimeZone_file None = Some tz \<and> TimeZone_valid tz \<and> toLocalTime tz t = None"
  by (simp add: TimeZone_file_def readTimeZoneFile_def TimeZone_valid_def toLocalTime_def
      findLocaltime_def tz_data_new_def at_index_def)

end
