(* ===== verification/Channel.thy ===== *)
theory Channel
  imports Timestamp "HOL-Library.Word"
begin

unbundle bit_operations_syntax

text \<open>
  \<open>Channel\<close> (\<open>src/Channel.h\<close>, \<open>src/Channel.cc\<close>): the events of one file descriptor and the dispatch
  of what \<open>poll\<close> returned to the callbacks. Whether a callback is set is a flag of the record; a
  callback that runs is an entry of the trace \<open>handleEvent\<close> returns. Registering with the loop is in
  \<open>Poller\<close>, which owns the store of channels.
\<close>

definition POLLIN :: "32 word" where "POLLIN = 0x001"
definition POLLPRI :: "32 word" where "POLLPRI = 0x002"
definition POLLOUT :: "32 word" where "POLLOUT = 0x004"
definition POLLERR :: "32 word" where "POLLERR = 0x008"
definition POLLHUP :: "32 word" where "POLLHUP = 0x010"
definition POLLNVAL :: "32 word" where "POLLNVAL = 0x020"
definition POLLRDHUP :: "32 word" where "POLLRDHUP = 0x2000"

lemmas poll_bits = POLLIN_def POLLPRI_def POLLOUT_def POLLERR_def POLLHUP_def POLLNVAL_def POLLRDHUP_def

definition kNoneEvent :: "32 word" where "kNoneEvent = 0"
definition kReadEvent :: "32 word" where "kReadEvent = POLLIN OR POLLPRI"
definition kWriteEvent :: "32 word" where "kWriteEvent = POLLOUT"

record Channel =
  fd :: int
  events :: "32 word"
  revents :: "32 word"
  index :: int
  eventHandling :: bool
  addedToLoop :: bool
  readCallback :: bool
  writeCallback :: bool
  errorCallback :: bool
  closeCallback :: bool

definition Channel_new :: "int \<Rightarrow> Channel" where
  "Channel_new fdArg = \<lparr>fd = fdArg, events = 0, revents = 0, index = -1, eventHandling = False,
     addedToLoop = False, readCallback = False, writeCallback = False, errorCallback = False,
     closeCallback = False\<rparr>"

text \<open>The destructor asserts that no event is being handled.\<close>

definition Channel_dtor :: "Channel \<Rightarrow> unit option" where
  "Channel_dtor c = ensure (\<not> eventHandling c)"

definition isNoneEvent :: "Channel \<Rightarrow> bool" where "isNoneEvent c \<longleftrightarrow> events c = kNoneEvent"

definition isWriting :: "Channel \<Rightarrow> bool" where "isWriting c \<longleftrightarrow> events c AND kWriteEvent \<noteq> 0"

text \<open>The part of \<open>enableReading\<close> and the others before the call of \<open>update\<close>.\<close>

definition set_reading :: "Channel \<Rightarrow> Channel" where
  "set_reading c = c\<lparr>events := events c OR kReadEvent\<rparr>"

definition set_writing :: "Channel \<Rightarrow> Channel" where
  "set_writing c = c\<lparr>events := events c OR kWriteEvent\<rparr>"

definition clear_writing :: "Channel \<Rightarrow> Channel" where
  "clear_writing c = c\<lparr>events := events c AND NOT kWriteEvent\<rparr>"

definition clear_all :: "Channel \<Rightarrow> Channel" where
  "clear_all c = c\<lparr>events := kNoneEvent\<rparr>"

datatype callback_call = CloseCallback | ErrorCallback | ReadCallback Timestamp | WriteCallback

definition handleEvent :: "Channel \<Rightarrow> Timestamp \<Rightarrow> callback_call list \<times> Channel" where
  "handleEvent c receiveTime =
     (let c = c\<lparr>eventHandling := True\<rparr>;
          hup = (if revents c AND POLLHUP \<noteq> 0 \<and> revents c AND POLLIN = 0
                 then (if closeCallback c then [CloseCallback] else []) else []);
          err = (if revents c AND (POLLERR OR POLLNVAL) \<noteq> 0
                 then (if errorCallback c then [ErrorCallback] else []) else []);
          rd = (if revents c AND (POLLIN OR POLLPRI OR POLLRDHUP) \<noteq> 0
                then (if readCallback c then [ReadCallback receiveTime] else []) else []);
          wr = (if revents c AND POLLOUT \<noteq> 0
                then (if writeCallback c then [WriteCallback] else []) else [])
      in (hup @ err @ rd @ wr, c\<lparr>eventHandling := False\<rparr>))"

lemma isWriting_simps [simp]:
  "isWriting (set_writing c)" "\<not> isWriting (clear_writing c)" "\<not> isWriting (clear_all c)"
  "isWriting (set_reading c) = isWriting c" "isWriting (Channel_new n) = False"
proof -
  have "(x OR 4) AND 4 = 4" "(x AND NOT 4) AND 4 = 0" for x :: "32 word"
    by (rule bit_word_eqI; auto simp: bit_simps)+
  then show "isWriting (set_writing c)" "\<not> isWriting (clear_writing c)"
    by (simp_all add: isWriting_def set_writing_def clear_writing_def kWriteEvent_def poll_bits)
  have "(x OR 3) AND 4 = x AND 4" for x :: "32 word"
    by (simp add: bit.conj_disj_distrib2)
  then show "isWriting (set_reading c) = isWriting c"
    by (simp add: isWriting_def set_reading_def kWriteEvent_def kReadEvent_def poll_bits)
qed (simp_all add: isWriting_def clear_all_def kWriteEvent_def kNoneEvent_def Channel_new_def)

text \<open>Every bit of a channel's \<open>events_\<close> comes from the two masks, whatever the sequence of calls.\<close>

definition channel_ok :: "Channel \<Rightarrow> bool" where
  "channel_ok c \<longleftrightarrow> events c AND NOT (kReadEvent OR kWriteEvent) = 0"

lemma channel_ok_ops [simp]:
  "channel_ok (Channel_new n)" "channel_ok c \<Longrightarrow> channel_ok (set_reading c)"
  "channel_ok c \<Longrightarrow> channel_ok (set_writing c)" "channel_ok c \<Longrightarrow> channel_ok (clear_writing c)"
  "channel_ok (clear_all c)"
proof -
  have a: "(x OR 3) AND NOT 7 = x AND NOT 7" "(x OR 4) AND NOT 7 = x AND NOT 7" for x :: "32 word"
    by (simp_all add: bit.conj_disj_distrib2)
  show "channel_ok c \<Longrightarrow> channel_ok (set_reading c)" "channel_ok c \<Longrightarrow> channel_ok (set_writing c)"
    using a by (simp_all add: channel_ok_def set_reading_def set_writing_def kReadEvent_def kWriteEvent_def poll_bits)
  show "channel_ok (clear_writing c)" if "channel_ok c"
  proof -
    let ?m = "NOT (kReadEvent OR kWriteEvent)"
    have "(events c AND NOT kWriteEvent) AND ?m = (events c AND ?m) AND NOT kWriteEvent"
      by (simp only: ac_simps)
    with that show ?thesis unfolding channel_ok_def clear_writing_def by simp
  qed
qed (simp_all add: channel_ok_def Channel_new_def clear_all_def kNoneEvent_def)

end
