(* ===== verification/Poller.thy ===== *)
theory Poller
  imports Channel
begin

text \<open>
  \<open>Poller\<close> (\<open>src/Poller.h\<close>, \<open>src/Poller.cc\<close>): the array handed to \<open>poll(2)\<close>, the map from descriptors
  to channels, and the store of channel objects by address. A channel's \<open>index_\<close> is its slot in the
  array; a slot is switched off by storing \<open>-fd - 1\<close>. The operations of \<open>Channel\<close> that call the loop
  (\<open>enableReading\<close>, ..., \<open>remove\<close>) are here. \<open>EPoller\<close> (\<open>src/EPoller.cc\<close>) follows at the end: the same
  bookkeeping over \<open>epoll_ctl\<close>. \<open>assertInLoopThread\<close> is in \<open>EventLoop\<close>.
\<close>

type_synonym addr = nat

record pollfd =
  pfd_fd :: int
  pfd_events :: "16 word"
  pfd_revents :: "16 word"

record poller =
  pollfds :: "pollfd list"
  channels :: "int \<rightharpoonup> addr"
  chans :: "addr \<rightharpoonup> Channel"

definition Poller_new :: poller where
  "Poller_new = \<lparr>pollfds = [], channels = Map.empty, chans = Map.empty\<rparr>"

fun fillActiveChannels :: "poller \<Rightarrow> pollfd list \<Rightarrow> int \<Rightarrow> (addr list \<times> poller) option" where
  "fillActiveChannels w [] numEvents = Some ([], w)"
| "fillActiveChannels w (p # ps) numEvents =
     (if numEvents > 0 then
        if sint (pfd_revents p) > 0 then do {
          ch \<leftarrow> channels w (pfd_fd p);
          c \<leftarrow> chans w ch;
          ensure (fd c = pfd_fd p);
          let w = w\<lparr>chans := (chans w)(ch \<mapsto> c\<lparr>revents := scast (pfd_revents p)\<rparr>)\<rparr>;
          (active, w) \<leftarrow> fillActiveChannels w ps (numEvents - 1);
          Some (ch # active, w)
        }
        else fillActiveChannels w ps numEvents
      else Some ([], w))"

text \<open>
  \<open>poll\<close>: the system call's result is the argument, the number of events (negative: an error) and the
  \<open>revents\<close> the kernel stored. Returned are the active channels.
\<close>

definition Poller_poll :: "poller \<Rightarrow> int \<Rightarrow> 16 word list \<Rightarrow> (addr list \<times> poller) option" where
  "Poller_poll w numEvents revs =
     (let w = w\<lparr>pollfds := map (\<lambda>(p, r). p\<lparr>pfd_revents := r\<rparr>) (zip (pollfds w) revs)\<rparr> in
      if numEvents > 0 then fillActiveChannels w (pollfds w) numEvents else Some ([], w))"

definition Poller_updateChannel :: "poller \<Rightarrow> addr \<Rightarrow> poller option" where
  "Poller_updateChannel w channel = do {
     c \<leftarrow> chans w channel;
     if index c < 0 then do {
       ensure (channels w (fd c) = None);
       let p = \<lparr>pfd_fd = fd c, pfd_events = ucast (events c), pfd_revents = 0\<rparr>;
       let ps = pollfds w @ [p];
       let idx = int (length ps) - 1;
       Some (w\<lparr>pollfds := ps, chans := (chans w)(channel \<mapsto> c\<lparr>index := idx\<rparr>),
               channels := (channels w)(fd c \<mapsto> channel)\<rparr>)
     }
     else do {
       ensure (channels w (fd c) \<noteq> None);
       ensure (channels w (fd c) = Some channel);
       let idx = index c;
       ensure (0 \<le> idx \<and> idx < int (length (pollfds w)));
       let p = pollfds w ! nat idx;
       ensure (pfd_fd p = fd c \<or> pfd_fd p = - fd c - 1);
       let p = p\<lparr>pfd_events := ucast (events c), pfd_revents := 0\<rparr>;
       let p = (if isNoneEvent c then p\<lparr>pfd_fd := - fd c - 1\<rparr> else p);
       Some (w\<lparr>pollfds := (pollfds w)[nat idx := p]\<rparr>)
     }
   }"

definition Poller_removeChannel :: "poller \<Rightarrow> addr \<Rightarrow> poller option" where
  "Poller_removeChannel w channel = do {
     c \<leftarrow> chans w channel;
     ensure (channels w (fd c) \<noteq> None);
     ensure (channels w (fd c) = Some channel);
     ensure (isNoneEvent c);
     let idx = index c;
     ensure (0 \<le> idx \<and> idx < int (length (pollfds w)));
     let p = pollfds w ! nat idx;
     ensure (pfd_fd p = - fd c - 1 \<and> sint (pfd_events p) = sint (events c));
     let w = w\<lparr>channels := (channels w)(fd c := None)\<rparr>;
     if nat idx = length (pollfds w) - 1 then Some (w\<lparr>pollfds := butlast (pollfds w)\<rparr>)
     else do {
       let channelAtEnd = pfd_fd (last (pollfds w));
       let ps = (pollfds w)[nat idx := last (pollfds w), length (pollfds w) - 1 := p];
       let channelAtEnd = (if channelAtEnd < 0 then - channelAtEnd - 1 else channelAtEnd);
       ch \<leftarrow> channels w channelAtEnd;
       c' \<leftarrow> chans w ch;
       Some (w\<lparr>chans := (chans w)(ch \<mapsto> c'\<lparr>index := idx\<rparr>), pollfds := butlast ps\<rparr>)
     }
   }"

text \<open>The operations of \<open>Channel\<close> that go through the loop.\<close>

definition Channel_update :: "(Channel \<Rightarrow> Channel) \<Rightarrow> poller \<Rightarrow> addr \<Rightarrow> poller option" where
  "Channel_update f w channel = do {
     c \<leftarrow> chans w channel;
     Poller_updateChannel (w\<lparr>chans := (chans w)(channel \<mapsto> f c)\<rparr>) channel
   }"

definition enableReading :: "poller \<Rightarrow> addr \<Rightarrow> poller option" where
  "enableReading = Channel_update set_reading"

definition enableWriting :: "poller \<Rightarrow> addr \<Rightarrow> poller option" where
  "enableWriting = Channel_update set_writing"

definition disableWriting :: "poller \<Rightarrow> addr \<Rightarrow> poller option" where
  "disableWriting = Channel_update clear_writing"

definition disableAll :: "poller \<Rightarrow> addr \<Rightarrow> poller option" where
  "disableAll = Channel_update clear_all"

definition Channel_remove :: "poller \<Rightarrow> addr \<Rightarrow> poller option" where
  "Channel_remove w channel = do {
     c \<leftarrow> chans w channel;
     ensure (isNoneEvent c);
     let w = w\<lparr>chans := (chans w)(channel \<mapsto> c\<lparr>addedToLoop := False\<rparr>)\<rparr>;
     Poller_removeChannel w channel
   }"

lemmas channel_ops = enableReading_def enableWriting_def disableWriting_def disableAll_def

section \<open>Invariant\<close>

definition slot_ok :: "Channel \<Rightarrow> pollfd \<Rightarrow> bool" where
  "slot_ok c p \<longleftrightarrow> pfd_fd p = fd c \<or> pfd_fd p = - fd c - 1"

definition registered :: "poller \<Rightarrow> int \<Rightarrow> addr \<Rightarrow> Channel \<Rightarrow> bool" where
  "registered w k a c \<longleftrightarrow> channels w k = Some a \<and> chans w a = Some c"

definition poller_inv :: "poller \<Rightarrow> bool" where
  "poller_inv w \<longleftrightarrow>
     (\<forall>k a. channels w k = Some a \<longrightarrow>
        (\<exists>c. chans w a = Some c \<and> fd c = k \<and> 0 \<le> k \<and> 0 \<le> index c
           \<and> nat (index c) < length (pollfds w) \<and> slot_ok c (pollfds w ! nat (index c))))
   \<and> (\<forall>i<length (pollfds w). \<exists>k a c. registered w k a c \<and> nat (index c) = i)"

lemma poller_invD:
  assumes "poller_inv w" "channels w k = Some a"
  obtains c where "chans w a = Some c" "fd c = k" "0 \<le> k" "0 \<le> index c"
    "nat (index c) < length (pollfds w)" "slot_ok c (pollfds w ! nat (index c))"
  using assms unfolding poller_inv_def by blast

lemma Poller_new_inv: "poller_inv Poller_new"
  by (simp add: poller_inv_def Poller_new_def)

text \<open>The descriptor a slot stands for, whether it is switched off or not.\<close>

definition slot_fd :: "pollfd \<Rightarrow> int" where
  "slot_fd p = (if pfd_fd p < 0 then - pfd_fd p - 1 else pfd_fd p)"

lemma slot_ok_fd: "slot_ok c p \<Longrightarrow> 0 \<le> fd c \<Longrightarrow> slot_fd p = fd c"
  by (auto simp: slot_ok_def slot_fd_def)

lemma slot_channel:
  assumes "poller_inv w" "i < length (pollfds w)"
  obtains a c where "channels w (slot_fd (pollfds w ! i)) = Some a" "chans w a = Some c"
    "fd c = slot_fd (pollfds w ! i)" "nat (index c) = i" "0 \<le> fd c"
proof -
  obtain k a c where r: "registered w k a c" "nat (index c) = i"
    using assms unfolding poller_inv_def by blast
  then have k: "channels w k = Some a" "chans w a = Some c" by (simp_all add: registered_def)
  obtain c' where c': "chans w a = Some c'" "fd c' = k" "0 \<le> k" "slot_ok c' (pollfds w ! nat (index c'))"
    using poller_invD [OF assms(1) k(1)] by metis
  then have "slot_fd (pollfds w ! i) = k"
    using slot_ok_fd [OF c'(4)] k(2) r(2) by simp
  then show thesis using that k c' r(2) by simp
qed

section \<open>Operations keep the invariant\<close>

lemma update_new:
  assumes inv: "poller_inv w" and c: "chans w a = Some c" "index c < 0" "0 \<le> fd c" "channels w (fd c) = None"
  obtains w' where "Poller_updateChannel w a = Some w'" "poller_inv w'" "channels w' = (channels w)(fd c \<mapsto> a)"
    "chans w' = (chans w)(a \<mapsto> c\<lparr>index := int (length (pollfds w))\<rparr>)"
    "pollfds w' = pollfds w @ [\<lparr>pfd_fd = fd c, pfd_events = ucast (events c), pfd_revents = 0\<rparr>]"
proof -
  let ?p = "\<lparr>pfd_fd = fd c, pfd_events = ucast (events c), pfd_revents = 0\<rparr>"
  let ?w = "w\<lparr>pollfds := pollfds w @ [?p], chans := (chans w)(a \<mapsto> c\<lparr>index := int (length (pollfds w))\<rparr>),
              channels := (channels w)(fd c \<mapsto> a)\<rparr>"
  have up: "Poller_updateChannel w a = Some ?w"
    using c by (simp add: Poller_updateChannel_def Let_def)
  have other: "a' \<noteq> a" if "channels w k = Some a'" for k a'
    using poller_invD [OF inv that] c(1,4) that by (metis option.distinct(1) option.inject)
  have "poller_inv ?w"
    unfolding poller_inv_def
  proof (intro conjI allI impI)
    fix k a' assume k: "channels ?w k = Some a'"
    show "\<exists>c. chans ?w a' = Some c \<and> fd c = k \<and> 0 \<le> k \<and> 0 \<le> index c \<and> nat (index c) < length (pollfds ?w)
        \<and> slot_ok c (pollfds ?w ! nat (index c))"
    proof (cases "k = fd c")
      case True
      then show ?thesis using k c by (simp add: slot_ok_def)
    next
      case False
      then have k': "channels w k = Some a'" using k by simp
      obtain c' where "chans w a' = Some c'" "fd c' = k" "0 \<le> k" "0 \<le> index c'"
          "nat (index c') < length (pollfds w)" "slot_ok c' (pollfds w ! nat (index c'))"
        using poller_invD [OF inv k'] .
      then show ?thesis using other [OF k'] by (simp add: nth_append)
    qed
  next
    fix i assume i: "i < length (pollfds ?w)"
    show "\<exists>k a c. registered ?w k a c \<and> nat (index c) = i"
    proof (cases "i = length (pollfds w)")
      case True
      then show ?thesis
        by (intro exI [of _ "fd c"] exI [of _ a] exI [of _ "c\<lparr>index := int (length (pollfds w))\<rparr>"])
          (simp add: registered_def)
    next
      case False
      then have "i < length (pollfds w)" using i by simp
      then obtain k a' c' where r: "registered w k a' c'" "nat (index c') = i"
        using inv unfolding poller_inv_def by blast
      then have "k \<noteq> fd c" "a' \<noteq> a" using c(4) other [of k a'] by (auto simp: registered_def)
      with r show ?thesis by (intro exI [of _ k] exI [of _ a'] exI [of _ c']) (simp add: registered_def)
    qed
  qed
  with up show thesis by (intro that [of ?w]) simp_all
qed

lemma update_existing:
  assumes inv: "poller_inv w" and c: "channels w (fd c) = Some a" "chans w a = Some c"
  obtains w' where "Poller_updateChannel w a = Some w'" "poller_inv w'" "channels w' = channels w"
    "chans w' = chans w"
    "pollfds w' = (pollfds w)[nat (index c) := \<lparr>pfd_fd = (if isNoneEvent c then - fd c - 1
        else pfd_fd (pollfds w ! nat (index c))), pfd_events = ucast (events c), pfd_revents = 0\<rparr>]"
proof -
  have i: "0 \<le> index c" "nat (index c) < length (pollfds w)" "slot_ok c (pollfds w ! nat (index c))"
    using poller_invD [OF inv c(1)] c(2) by (metis option.inject)+
  let ?i = "nat (index c)"
  let ?p = "\<lparr>pfd_fd = (if isNoneEvent c then - fd c - 1 else pfd_fd (pollfds w ! ?i)),
    pfd_events = ucast (events c), pfd_revents = 0\<rparr>"
  let ?w = "w\<lparr>pollfds := (pollfds w)[?i := ?p]\<rparr>"
  have up: "Poller_updateChannel w a = Some ?w"
    using c i by (cases "pollfds w ! ?i") (auto simp: Poller_updateChannel_def Let_def slot_ok_def nat_less_iff)
  have "slot_ok c ?p" using i(3) by (auto simp: slot_ok_def)
  moreover have "slot_ok c' (pollfds ?w ! nat (index c'))"
    if "channels w k = Some a'" "chans w a' = Some c'" "fd c' = k" "nat (index c') < length (pollfds w)"
      "slot_ok c' (pollfds w ! nat (index c'))" for k a' c'
  proof (cases "nat (index c') = ?i")
    case True
    have "0 \<le> k" "0 \<le> fd c" using poller_invD [OF inv that(1)] poller_invD [OF inv c(1)] by metis+
    then have "k = fd c" using slot_ok_fd i(3) that True by metis
    then show ?thesis using that c \<open>slot_ok c ?p\<close> i(2) by simp
  qed (use that in simp)
  ultimately have "poller_inv ?w"
    using inv unfolding poller_inv_def registered_def by fastforce
  with up show thesis by (intro that [of ?w]) simp_all
qed

lemma registered_slot:
  assumes "poller_inv w" "registered w k a c"
  shows "fd c = k" "0 \<le> k" "0 \<le> index c" "nat (index c) < length (pollfds w)"
    "slot_ok c (pollfds w ! nat (index c))" "slot_fd (pollfds w ! nat (index c)) = k"
proof -
  have k: "channels w k = Some a" "chans w a = Some c" using assms(2) by (simp_all add: registered_def)
  obtain c' where c': "chans w a = Some c'" "fd c' = k" "0 \<le> k" "0 \<le> index c'"
      "nat (index c') < length (pollfds w)" "slot_ok c' (pollfds w ! nat (index c'))"
    using poller_invD [OF assms(1) k(1)] .
  then have "c' = c" using k by simp
  with c' show "fd c = k" "0 \<le> k" "0 \<le> index c" "nat (index c) < length (pollfds w)"
    "slot_ok c (pollfds w ! nat (index c))" by simp_all
  with slot_ok_fd show "slot_fd (pollfds w ! nat (index c)) = k" by metis
qed

lemma same_slot:
  assumes "poller_inv w" "registered w k a c" "registered w k' a' c'" "nat (index c) = nat (index c')"
  shows "k' = k" "a' = a" "c' = c"
proof -
  show "k' = k"
    using registered_slot(6) [OF assms(1,2)] registered_slot(6) [OF assms(1,3)] assms(4) by simp
  then show "a' = a" "c' = c" using assms(2,3) by (simp_all add: registered_def)
qed

lemma poller_invI:
  assumes "\<And>k a. channels w k = Some a \<Longrightarrow> \<exists>c. registered w k a c \<and> fd c = k \<and> 0 \<le> k \<and> 0 \<le> index c
      \<and> nat (index c) < length (pollfds w) \<and> slot_ok c (pollfds w ! nat (index c))"
    and "\<And>i. i < length (pollfds w) \<Longrightarrow> \<exists>k a c. registered w k a c \<and> nat (index c) = i"
  shows "poller_inv w"
  using assms unfolding poller_inv_def registered_def by metis

lemma registered_chans: "poller_inv w \<Longrightarrow> channels w k = Some a \<Longrightarrow> \<exists>c. registered w k a c"
  using poller_invD by (metis registered_def)

lemma remove_last_inv:
  assumes inv: "poller_inv w" and r: "registered w k a c" and last: "nat (index c) = length (pollfds w) - 1"
  shows "poller_inv (w\<lparr>channels := (channels w)(k := None), pollfds := butlast (pollfds w)\<rparr>)" (is "poller_inv ?w")
proof (rule poller_invI)
  fix k' a' assume k': "channels ?w k' = Some a'"
  then have "k' \<noteq> k" "channels w k' = Some a'" by (auto split: if_splits)
  then obtain c' where r': "registered w k' a' c'" using registered_chans [OF inv] by blast
  have "nat (index c') \<noteq> nat (index c)" using same_slot(1) [OF inv r r'] \<open>k' \<noteq> k\<close> by metis
  then have "nat (index c') < length (butlast (pollfds w))"
    using registered_slot(4) [OF inv r'] last by simp
  then show "\<exists>c. registered ?w k' a' c \<and> fd c = k' \<and> 0 \<le> k' \<and> 0 \<le> index c
      \<and> nat (index c) < length (pollfds ?w) \<and> slot_ok c (pollfds ?w ! nat (index c))"
    using r' \<open>k' \<noteq> k\<close> registered_slot [OF inv r'] by (auto simp: registered_def nth_butlast)
next
  fix i assume i: "i < length (pollfds ?w)"
  then have "i < length (pollfds w)" by simp
  then obtain k' a' c' where r': "registered w k' a' c'" "nat (index c') = i"
    using inv unfolding poller_inv_def by blast
  then have "k' \<noteq> k" using r i last by (auto simp: registered_def)
  with r' show "\<exists>k a c. registered ?w k a c \<and> nat (index c) = i"
    by (intro exI [of _ k'] exI [of _ a'] exI [of _ c']) (simp add: registered_def)
qed

lemma remove_swap_inv:
  assumes inv: "poller_inv w" and r: "registered w k a c" and q: "registered w kq aq cq"
    and lastq: "nat (index cq) = length (pollfds w) - 1" and ne: "nat (index c) \<noteq> length (pollfds w) - 1"
  shows "poller_inv (w\<lparr>channels := (channels w)(k := None), chans := (chans w)(aq \<mapsto> cq\<lparr>index := index c\<rparr>),
    pollfds := butlast ((pollfds w)[nat (index c) := last (pollfds w), length (pollfds w) - 1 := p])\<rparr>)"
    (is "poller_inv ?w")
proof -
  let ?i = "nat (index c)" and ?n = "length (pollfds w)"
  have i: "?i < ?n - 1" using registered_slot(4) [OF inv r] ne by simp
  have lastn: "last (pollfds w) = pollfds w ! (?n - 1)" using i by (subst last_conv_nth) auto
  have nth: "pollfds ?w ! j = (if j = ?i then pollfds w ! (?n - 1) else pollfds w ! j)" if "j < ?n - 1" for j
    using that i by (simp add: nth_butlast lastn nth_list_update)
  have kq: "kq \<noteq> k" using r q lastq ne by (auto simp: registered_def)
  have rq: "registered ?w kq aq (cq\<lparr>index := index c\<rparr>)" using q kq by (simp add: registered_def)
  have keep: "registered ?w k' a' c' \<and> nat (index c') < ?n - 1 \<and> nat (index c') \<noteq> ?i"
    if r': "registered w k' a' c'" and k': "k' \<noteq> k" "k' \<noteq> kq" for k' a' c'
  proof -
    have "nat (index c') \<noteq> ?i" "nat (index c') \<noteq> ?n - 1"
      using same_slot(1) [OF inv r r'] same_slot(1) [OF inv q r'] k' lastq by metis+
    moreover have "a' \<noteq> aq"
      using registered_slot(1) [OF inv r'] registered_slot(1) [OF inv q] r' q k'(2) by (auto simp: registered_def)
    ultimately show ?thesis
      using r' k' registered_slot(4) [OF inv r'] by (simp add: registered_def)
  qed
  show ?thesis
  proof (rule poller_invI)
    fix k' a' assume k': "channels ?w k' = Some a'"
    then have k'': "k' \<noteq> k" "channels w k' = Some a'" by (auto split: if_splits)
    then obtain c' where r': "registered w k' a' c'" using registered_chans [OF inv] by blast
    show "\<exists>c. registered ?w k' a' c \<and> fd c = k' \<and> 0 \<le> k' \<and> 0 \<le> index c
        \<and> nat (index c) < length (pollfds ?w) \<and> slot_ok c (pollfds ?w ! nat (index c))"
    proof (cases "k' = kq")
      case True
      then have "a' = aq" using r' q by (simp add: registered_def)
      then show ?thesis
        using rq True registered_slot [OF inv q] registered_slot(3) [OF inv r] i nth [OF i] lastq
        by (intro exI [of _ "cq\<lparr>index := index c\<rparr>"]) (simp add: slot_ok_def)
    next
      case False
      note kp = keep [OF r' k''(1) False]
      then show ?thesis
        using registered_slot [OF inv r'] nth [of "nat (index c')"] by (intro exI [of _ c']) simp
    qed
  next
    fix j assume j: "j < length (pollfds ?w)"
    show "\<exists>k a c. registered ?w k a c \<and> nat (index c) = j"
    proof (cases "j = ?i")
      case True
      with rq show ?thesis by (intro exI [of _ kq] exI [of _ aq] exI [of _ "cq\<lparr>index := index c\<rparr>"]) simp
    next
      case False
      have "j < ?n" using j by simp
      then obtain k' a' c' where r': "registered w k' a' c'" "nat (index c') = j"
        using inv unfolding poller_inv_def by blast
      then have "k' \<noteq> k" "k' \<noteq> kq" using r q False lastq j by (auto simp: registered_def)
      with keep [OF r'(1)] r'(2) show ?thesis by blast
    qed
  qed
qed

lemma remove_ok:
  assumes inv: "poller_inv w" and r: "registered w (fd c) a c" and none: "isNoneEvent c"
    and slot: "pfd_fd (pollfds w ! nat (index c)) = - fd c - 1" "pfd_events (pollfds w ! nat (index c)) = 0"
  obtains w' where "Poller_removeChannel w a = Some w'" "poller_inv w'" "channels w' = (channels w)(fd c := None)"
    "\<And>a. map_option fd (chans w' a) = map_option fd (chans w a)"
proof (cases "nat (index c) = length (pollfds w) - 1")
  case True
  show thesis
  proof (rule that)
    show "Poller_removeChannel w a = Some (w\<lparr>channels := (channels w)(fd c := None), pollfds := butlast (pollfds w)\<rparr>)"
      using r none slot True registered_slot [OF inv r]
      by (auto simp: Poller_removeChannel_def Let_def registered_def isNoneEvent_def kNoneEvent_def nat_less_iff)
    show "poller_inv (w\<lparr>channels := (channels w)(fd c := None), pollfds := butlast (pollfds w)\<rparr>)"
      by (rule remove_last_inv [OF inv r True])
  qed simp_all
next
  case False
  let ?n = "length (pollfds w)"
  have n: "?n - 1 < ?n" using registered_slot(4) [OF inv r] by simp
  obtain aq cq where q: "channels w (slot_fd (pollfds w ! (?n - 1))) = Some aq" "chans w aq = Some cq"
      "fd cq = slot_fd (pollfds w ! (?n - 1))" "nat (index cq) = ?n - 1"
    using slot_channel [OF inv n] .
  then have rq: "registered w (fd cq) aq cq" by (simp add: registered_def)
  have neq: "fd cq \<noteq> fd c" using rq r q(4) False by (auto simp: registered_def)
  have lastn: "last (pollfds w) = pollfds w ! (?n - 1)" using n by (subst last_conv_nth) auto
  let ?w = "w\<lparr>channels := (channels w)(fd c := None), chans := (chans w)(aq \<mapsto> cq\<lparr>index := index c\<rparr>),
    pollfds := butlast ((pollfds w)[nat (index c) := last (pollfds w), ?n - 1 := pollfds w ! nat (index c)])\<rparr>"
  show thesis
  proof (rule that)
    show "Poller_removeChannel w a = Some ?w"
      using r none slot False registered_slot [OF inv r] q neq
      by (simp add: Poller_removeChannel_def Let_def registered_def isNoneEvent_def kNoneEvent_def nat_less_iff
          lastn slot_fd_def [symmetric])
    show "poller_inv ?w" by (rule remove_swap_inv [OF inv r rq q(4) False])
  qed (use q in simp_all)
qed

text \<open>\<open>Channel_update\<close> with a function that changes the events only.\<close>

definition event_ops :: "(Channel \<Rightarrow> Channel) list" where
  "event_ops = [set_reading, set_writing, clear_writing, clear_all]"

lemma event_ops_simps:
  assumes "f \<in> set event_ops"
  shows "fd (f c) = fd c" "index (f c) = index c"
  using assms by (auto simp: event_ops_def set_reading_def set_writing_def clear_writing_def clear_all_def)

lemma poller_inv_chan:
  assumes inv: "poller_inv w" and c: "chans w a = Some c" "fd c' = fd c" "index c' = index c"
  shows "poller_inv (w\<lparr>chans := (chans w)(a \<mapsto> c')\<rparr>)" (is "poller_inv ?w")
proof (rule poller_invI)
  fix k a' assume "channels ?w k = Some a'"
  then have "channels w k = Some a'" by simp
  then obtain c'' where r: "registered w k a' c''" using registered_chans [OF inv] by blast
  then show "\<exists>c. registered ?w k a' c \<and> fd c = k \<and> 0 \<le> k \<and> 0 \<le> index c
      \<and> nat (index c) < length (pollfds ?w) \<and> slot_ok c (pollfds ?w ! nat (index c))"
    using registered_slot [OF inv r] c
    by (intro exI [of _ "if a' = a then c' else c''"]) (auto simp: registered_def slot_ok_def)
next
  fix i assume "i < length (pollfds ?w)"
  then obtain k a' c'' where "registered w k a' c''" "nat (index c'') = i"
    using inv unfolding poller_inv_def by auto
  then show "\<exists>k a c. registered ?w k a c \<and> nat (index c) = i"
    using c by (intro exI [of _ k] exI [of _ a'] exI [of _ "if a' = a then c' else c''"]) (auto simp: registered_def)
qed

definition may_update :: "poller \<Rightarrow> addr \<Rightarrow> bool" where
  "may_update w a = (case chans w a of None \<Rightarrow> False
     | Some c \<Rightarrow> 0 \<le> fd c \<and> (channels w (fd c) = Some a \<or> channels w (fd c) = None \<and> index c < 0))"

lemma Channel_update_ok:
  assumes inv: "poller_inv w" and f: "f \<in> set event_ops" and may: "may_update w a"
  obtains w' c' where "Channel_update f w a = Some w'" "poller_inv w'" "registered w' (fd c') a c'"
    "channels w' = (channels w)(fd c' \<mapsto> a)" "map_option fd (chans w a) = Some (fd c')"
    "events c' = events (f (the (chans w a)))"
    "\<And>b. b \<noteq> a \<Longrightarrow> chans w' b = chans w b"
    "pfd_events (pollfds w' ! nat (index c')) = ucast (events c')"
    "isNoneEvent c' \<Longrightarrow> channels w (fd c') = Some a \<Longrightarrow> pfd_fd (pollfds w' ! nat (index c')) = - fd c' - 1"
proof -
  obtain c where c: "chans w a = Some c" "0 \<le> fd c"
      "channels w (fd c) = Some a \<or> channels w (fd c) = None \<and> index c < 0"
    using may by (auto simp: may_update_def split: option.splits)
  let ?w = "w\<lparr>chans := (chans w)(a \<mapsto> f c)\<rparr>"
  have inv': "poller_inv ?w" by (rule poller_inv_chan [OF inv c(1)]) (simp_all add: event_ops_simps [OF f])
  have fs: "fd (f c) = fd c" "index (f c) = index c" by (simp_all add: event_ops_simps [OF f])
  show thesis
  proof (cases "channels w (fd c) = Some a")
    case True
    then have r: "registered ?w (fd (f c)) a (f c)" by (simp add: registered_def fs)
    note s = registered_slot [OF inv' r]
    obtain w' where w': "Poller_updateChannel ?w a = Some w'" "poller_inv w'" "channels w' = channels ?w"
        "chans w' = chans ?w"
        "pollfds w' = (pollfds ?w)[nat (index (f c)) := \<lparr>pfd_fd = (if isNoneEvent (f c) then - fd (f c) - 1
          else pfd_fd (pollfds ?w ! nat (index (f c)))), pfd_events = ucast (events (f c)), pfd_revents = 0\<rparr>]"
      using update_existing [OF inv', of "f c" a] True by (auto simp: fs)
    show thesis
      by (rule that [of w' "f c"])
        (use w' c True fs s(4) in \<open>auto simp: Channel_update_def registered_def fun_eq_iff\<close>)
  next
    case False
    then have n: "channels ?w (fd (f c)) = None" "index (f c) < 0" using c fs by auto
    obtain w' where w': "Poller_updateChannel ?w a = Some w'" "poller_inv w'" "channels w' = (channels ?w)(fd (f c) \<mapsto> a)"
        "chans w' = (chans ?w)(a \<mapsto> (f c)\<lparr>index := int (length (pollfds ?w))\<rparr>)"
        "pollfds w' = pollfds ?w @ [\<lparr>pfd_fd = fd (f c), pfd_events = ucast (events (f c)), pfd_revents = 0\<rparr>]"
      using update_new [OF inv', of a "f c"] n c fs by auto
    show thesis
      by (rule that [of w' "(f c)\<lparr>index := int (length (pollfds w))\<rparr>"])
        (use w' c False fs in \<open>auto simp: Channel_update_def registered_def\<close>)
  qed
qed

section \<open>Reachable pollers\<close>

text \<open>
  What the library does with a poller: channels are created with an index of -1, their events change,
  and a channel is removed after \<open>disableAll\<close> (\<open>TcpConnection::connectDestroyed\<close>,
  \<open>Connector::removeAndResetChannel\<close>).
\<close>

inductive poller_reach :: "poller \<Rightarrow> bool" where
  init: "poller_reach Poller_new"
| create: "poller_reach w \<Longrightarrow> chans w a = None \<Longrightarrow> 0 \<le> n \<Longrightarrow>
    poller_reach (w\<lparr>chans := (chans w)(a \<mapsto> Channel_new n)\<rparr>)"
| update: "poller_reach w \<Longrightarrow> may_update w a \<Longrightarrow> f \<in> set event_ops \<Longrightarrow> Channel_update f w a = Some w' \<Longrightarrow>
    poller_reach w'"
| remove: "poller_reach w \<Longrightarrow> registered w (fd c) a c \<Longrightarrow> disableAll w a = Some w1 \<Longrightarrow>
    Channel_remove w1 a = Some w2 \<Longrightarrow> poller_reach w2"

lemma poller_inv_create:
  assumes inv: "poller_inv w" and new: "chans w a = None"
  shows "poller_inv (w\<lparr>chans := (chans w)(a \<mapsto> c)\<rparr>)" (is "poller_inv ?w")
proof -
  have keep: "registered ?w k a' c'" if "registered w k a' c'" for k a' c'
    using that new by (auto simp: registered_def)
  show ?thesis
  proof (rule poller_invI)
    fix k a' assume "channels ?w k = Some a'"
    then have "channels w k = Some a'" by simp
    then obtain c' where r: "registered w k a' c'" using registered_chans [OF inv] by blast
    then show "\<exists>c. registered ?w k a' c \<and> fd c = k \<and> 0 \<le> k \<and> 0 \<le> index c
        \<and> nat (index c) < length (pollfds ?w) \<and> slot_ok c (pollfds ?w ! nat (index c))"
      using keep [OF r] registered_slot [OF inv r] by auto
  next
    fix i assume "i < length (pollfds ?w)"
    then obtain k a' c' where "registered w k a' c'" "nat (index c') = i"
      using inv unfolding poller_inv_def by auto
    then show "\<exists>k a c. registered ?w k a c \<and> nat (index c) = i" using keep by blast
  qed
qed

lemma disable_remove_ok:
  assumes inv: "poller_inv w" and r: "registered w (fd c) a c"
  obtains w1 w2 where "disableAll w a = Some w1" "Channel_remove w1 a = Some w2" "poller_inv w2"
    "channels w2 = (channels w)(fd c := None)"
proof -
  have may: "may_update w a"
    using r registered_slot [OF inv r] by (auto simp: may_update_def registered_def)
  have f: "clear_all \<in> set event_ops" by (simp add: event_ops_def)
  obtain w1 c' where w1: "Channel_update clear_all w a = Some w1" "poller_inv w1" "registered w1 (fd c') a c'"
      "channels w1 = (channels w)(fd c' \<mapsto> a)" "map_option fd (chans w a) = Some (fd c')"
      "events c' = events (clear_all (the (chans w a)))"
      "pfd_events (pollfds w1 ! nat (index c')) = ucast (events c')"
      "isNoneEvent c' \<Longrightarrow> channels w (fd c') = Some a \<Longrightarrow> pfd_fd (pollfds w1 ! nat (index c')) = - fd c' - 1"
    using Channel_update_ok [OF inv f may] by metis
  have c': "fd c' = fd c" "events c' = 0" "isNoneEvent c'"
    using w1(5,6) r by (auto simp: registered_def clear_all_def kNoneEvent_def isNoneEvent_def)
  let ?c = "c'\<lparr>addedToLoop := False\<rparr>"
  let ?w = "w1\<lparr>chans := (chans w1)(a \<mapsto> ?c)\<rparr>"
  have a1: "chans w1 a = Some c'" using w1(3) by (simp add: registered_def)
  have inv': "poller_inv ?w" by (rule poller_inv_chan [OF w1(2) a1]) simp_all
  have r': "registered ?w (fd ?c) a ?c" using w1(3) by (simp add: registered_def)
  obtain w2 where w2: "Poller_removeChannel ?w a = Some w2" "poller_inv w2" "channels w2 = (channels ?w)(fd ?c := None)"
  proof (rule remove_ok [OF inv' r'])
    show "isNoneEvent ?c" using c' by (simp add: isNoneEvent_def)
    show "pfd_fd (pollfds ?w ! nat (index ?c)) = - fd ?c - 1"
      using w1(8) c' r by (simp add: registered_def)
    show "pfd_events (pollfds ?w ! nat (index ?c)) = 0" using w1(7) c' by simp
  qed
  show thesis
    by (rule that [of w1 w2])
      (use w1 w2 c' a1 r in \<open>auto simp: disableAll_def Channel_remove_def registered_def\<close>)
qed

lemma poller_reach_inv: "poller_reach w \<Longrightarrow> poller_inv w"
proof (induction rule: poller_reach.induct)
  case (update w a f w')
  then show ?case using Channel_update_ok [of w f a] by (metis option.inject)
next
  case (remove w c a w1 w2)
  then show ?case using disable_remove_ok [of w c a] by (metis option.inject)
qed (simp_all add: Poller_new_inv poller_inv_create)

section \<open>Properties\<close>

text \<open>
  C12: in every state the library reaches, the poll array and the channel map are in step (each
  registered channel has its own slot, at its \<open>index_\<close>, with its descriptor or the switched-off form of
  it, and no slot is without a channel), changing the events of a channel fails no assertion, and
  neither does \<open>disableAll\<close> followed by \<open>remove\<close>, which takes exactly that channel out.
\<close>

theorem poller_invariant:
  assumes "poller_reach w"
  shows "poller_inv w
    \<and> (\<forall>a f. may_update w a \<and> f \<in> set event_ops \<longrightarrow> Channel_update f w a \<noteq> None)
    \<and> (\<forall>a c. registered w (fd c) a c \<longrightarrow> (\<exists>w1 w2. disableAll w a = Some w1 \<and> Channel_remove w1 a = Some w2
         \<and> poller_inv w2 \<and> channels w2 = (channels w)(fd c := None)))"
proof (intro conjI allI impI)
  show inv: "poller_inv w" by (rule poller_reach_inv [OF assms])
  show "Channel_update f w a \<noteq> None" if "may_update w a \<and> f \<in> set event_ops" for a f
    using Channel_update_ok [OF inv, of f a] that by (metis option.distinct(1))
  show "\<exists>w1 w2. disableAll w a = Some w1 \<and> Channel_remove w1 a = Some w2
         \<and> poller_inv w2 \<and> channels w2 = (channels w)(fd c := None)" if "registered w (fd c) a c" for a c
    using disable_remove_ok [OF inv that] by metis
qed

theorem poller_invariant_witness:
  "let w = Poller_new\<lparr>chans := [0 \<mapsto> Channel_new 3]\<rparr> in
   poller_inv w \<and> Channel_update set_reading w 0 \<noteq> None"
proof -
  let ?w = "Poller_new\<lparr>chans := [0 \<mapsto> Channel_new 3]\<rparr>"
  have "poller_reach ?w"
    using poller_reach.create [OF poller_reach.init, of 0 3] by (simp add: Poller_new_def)
  moreover have "may_update ?w 0" by (simp add: may_update_def Poller_new_def Channel_new_def)
  moreover have "set_reading \<in> set event_ops" by (simp add: event_ops_def)
  ultimately show ?thesis using poller_invariant [of ?w] unfolding Let_def by blast
qed

definition hot :: "pollfd \<Rightarrow> bool" where "hot p \<longleftrightarrow> pfd_revents p \<noteq> 0"

text \<open>What \<open>poll(2)\<close> promises about its result.\<close>

definition poll_result_ok :: "pollfd list \<Rightarrow> int \<Rightarrow> 16 word list \<Rightarrow> bool" where
  "poll_result_ok ps n revs \<longleftrightarrow> length revs = length ps \<and> n = int (length (filter (\<lambda>r. r \<noteq> 0) revs))
     \<and> (\<forall>i<length ps. 0 \<le> sint (revs ! i) \<and> (pfd_fd (ps ! i) < 0 \<longrightarrow> revs ! i = 0))"

lemma fill_ok:
  assumes "\<forall>p\<in>set ps. 0 \<le> sint (pfd_revents p)" "distinct (map pfd_fd ps)" "n = int (length (filter hot ps))"
    and "\<forall>p\<in>set ps. hot p \<longrightarrow> (\<exists>a c. registered w (pfd_fd p) a c \<and> fd c = pfd_fd p)"
  shows "\<exists>w'. fillActiveChannels w ps n = Some (map (\<lambda>p. the (channels w (pfd_fd p))) (filter hot ps), w')
    \<and> channels w' = channels w \<and> pollfds w' = pollfds w
    \<and> (\<forall>p\<in>set ps. hot p \<longrightarrow> (\<exists>a c. registered w' (pfd_fd p) a c \<and> revents c = scast (pfd_revents p)))
    \<and> (\<forall>a. a \<notin> (\<lambda>p. the (channels w (pfd_fd p))) ` set (filter hot ps) \<longrightarrow> chans w' a = chans w a)"
  using assms
proof (induction ps arbitrary: w n)
  case Nil
  then show ?case by simp
next
  case (Cons p ps)
  show ?case
  proof (cases "hot p")
    case False
    then have "sint (pfd_revents p) = 0" by (simp add: hot_def)
    then show ?thesis
      using Cons.IH [of n w] Cons.prems False by (cases "n > 0") (auto simp: filter_empty_conv)
  next
    case True
    then obtain a c where r: "registered w (pfd_fd p) a c" "fd c = pfd_fd p" using Cons.prems(4) by auto
    have "sint (pfd_revents p) \<noteq> 0" using True by (simp add: hot_def signed_eq_0_iff)
    then have pos: "0 < sint (pfd_revents p)" using Cons.prems(1) by (simp add: order_less_le)
    let ?c = "c\<lparr>revents := scast (pfd_revents p)\<rparr>"
    let ?w = "w\<lparr>chans := (chans w)(a \<mapsto> ?c)\<rparr>"
    have other: "a' \<noteq> a \<and> registered ?w (pfd_fd q) a' c' \<and> fd c' = pfd_fd q"
      if "q \<in> set ps" "registered w (pfd_fd q) a' c'" "fd c' = pfd_fd q" for q a' c'
      using r that Cons.prems(2) by (auto simp: registered_def image_iff)
    have "\<forall>q\<in>set ps. hot q \<longrightarrow> (\<exists>a c. registered ?w (pfd_fd q) a c \<and> fd c = pfd_fd q)"
      using Cons.prems(4) other by fastforce
    then obtain w' where w': "fillActiveChannels ?w ps (n - 1) =
          Some (map (\<lambda>p. the (channels ?w (pfd_fd p))) (filter hot ps), w')"
        "channels w' = channels ?w" "pollfds w' = pollfds ?w"
        "\<forall>p\<in>set ps. hot p \<longrightarrow> (\<exists>a c. registered w' (pfd_fd p) a c \<and> revents c = scast (pfd_revents p))"
        "\<forall>a. a \<notin> (\<lambda>p. the (channels ?w (pfd_fd p))) ` set (filter hot ps) \<longrightarrow> chans w' a = chans ?w a"
      using Cons.IH [of "n - 1" ?w] Cons.prems True by auto
    have "a \<notin> (\<lambda>p. the (channels ?w (pfd_fd p))) ` set (filter hot ps)"
    proof
      assume "a \<in> (\<lambda>p. the (channels ?w (pfd_fd p))) ` set (filter hot ps)"
      then obtain q where q: "q \<in> set ps" "hot q" "a = the (channels w (pfd_fd q))" by auto
      obtain a' c' where "registered w (pfd_fd q) a' c'" "fd c' = pfd_fd q" using q Cons.prems(4) by auto
      with other [OF q(1) this] q(3) show False by (auto simp: registered_def)
    qed
    then have "registered w' (pfd_fd p) a ?c"
      using w'(2,5) r by (auto simp: registered_def)
    moreover have "fillActiveChannels w (p # ps) n = Some (a # map (\<lambda>p. the (channels w (pfd_fd p))) (filter hot ps), w')"
      using r True pos Cons.prems(3) w'(1) by (simp add: registered_def)
    ultimately show ?thesis
      using w'(2-5) r True by (intro exI [of _ w']) (auto simp: registered_def)
  qed
qed

lemma pfd_fd_distinct:
  assumes "poller_inv w"
  shows "distinct (map pfd_fd (pollfds w))"
proof (unfold distinct_conv_nth, intro allI impI)
  fix i j assume ij: "i < length (map pfd_fd (pollfds w))" "j < length (map pfd_fd (pollfds w))" "i \<noteq> j"
  obtain a c where i: "channels w (slot_fd (pollfds w ! i)) = Some a" "chans w a = Some c" "nat (index c) = i"
    using slot_channel [OF assms] ij(1) by (metis length_map)
  obtain a' c' where j: "channels w (slot_fd (pollfds w ! j)) = Some a'" "chans w a' = Some c'" "nat (index c') = j"
    using slot_channel [OF assms] ij(2) by (metis length_map)
  have "slot_fd (pollfds w ! i) \<noteq> slot_fd (pollfds w ! j)" using i j ij(3) by auto
  then show "map pfd_fd (pollfds w) ! i \<noteq> map pfd_fd (pollfds w) ! j"
    using ij by (auto simp: slot_fd_def split: if_splits)
qed

text \<open>
  C13: after \<open>poll(2)\<close> returns, \<open>Poller::poll\<close> hands out exactly the channels whose slot got events, in
  the order of the array, each with those events in \<open>revents_\<close>; the lookups and assertions on the way
  never fail.
\<close>

theorem poll_active_channels:
  assumes inv: "poller_inv w" and ok: "poll_result_ok (pollfds w) n revs"
  shows "\<exists>w'. Poller_poll w n revs =
      Some (map (\<lambda>(p, r). the (channels w (pfd_fd p))) (filter (\<lambda>(p, r). r \<noteq> 0) (zip (pollfds w) revs)), w')
    \<and> channels w' = channels w
    \<and> (\<forall>i<length revs. revs ! i \<noteq> 0 \<longrightarrow>
         (\<exists>a c. registered w' (pfd_fd (pollfds w ! i)) a c \<and> revents c = scast (revs ! i)))"
proof -
  let ?up = "\<lambda>(p, r). p\<lparr>pfd_revents := r\<rparr>"
  define ps where "ps = map ?up (zip (pollfds w) revs)"
  let ?w = "w\<lparr>pollfds := ps\<rparr>"
  have len: "length revs = length (pollfds w)" using ok by (simp add: poll_result_ok_def)
  have nth: "ps ! i = (pollfds w ! i)\<lparr>pfd_revents := revs ! i\<rparr>" if "i < length (pollfds w)" for i
    using that len by (simp add: ps_def)
  have hots: "filter hot ps = map ?up (filter (\<lambda>(p, r). r \<noteq> 0) (zip (pollfds w) revs))"
    unfolding ps_def filter_map by (intro arg_cong [where f = "map _"] filter_cong) (auto simp: hot_def)
  have "length (filter (\<lambda>(p, r). r \<noteq> 0) (zip xs ys)) = length (filter (\<lambda>r. r \<noteq> 0) ys)"
    if "length xs = length ys" for xs :: "pollfd list" and ys :: "16 word list"
    using that by (induction xs ys rule: list_induct2) auto
  then have n: "n = int (length (filter hot ps))"
    using ok len by (simp add: hots poll_result_ok_def)
  have fds: "map pfd_fd ps = map pfd_fd (pollfds w)"
    by (rule nth_equalityI) (use len in \<open>auto simp: ps_def\<close>)
  have idx: "\<exists>i<length (pollfds w). p = (pollfds w ! i)\<lparr>pfd_revents := revs ! i\<rparr>" if p: "p \<in> set ps" for p
  proof -
    obtain i where "i < length ps" "p = ps ! i" using p by (auto simp: in_set_conv_nth)
    then show ?thesis using nth [of i] len by (intro exI [of _ i]) (simp add: ps_def)
  qed
  have "\<exists>w'. fillActiveChannels ?w ps n = Some (map (\<lambda>p. the (channels ?w (pfd_fd p))) (filter hot ps), w')
    \<and> channels w' = channels ?w \<and> pollfds w' = pollfds ?w
    \<and> (\<forall>p\<in>set ps. hot p \<longrightarrow> (\<exists>a c. registered w' (pfd_fd p) a c \<and> revents c = scast (pfd_revents p)))
    \<and> (\<forall>a. a \<notin> (\<lambda>p. the (channels ?w (pfd_fd p))) ` set (filter hot ps) \<longrightarrow> chans w' a = chans ?w a)"
  proof (rule fill_ok)
    show "\<forall>p\<in>set ps. 0 \<le> sint (pfd_revents p)"
      using idx ok by (fastforce simp: poll_result_ok_def)
    show "distinct (map pfd_fd ps)" using pfd_fd_distinct [OF inv] fds by simp
    show "\<forall>p\<in>set ps. hot p \<longrightarrow> (\<exists>a c. registered ?w (pfd_fd p) a c \<and> fd c = pfd_fd p)"
    proof (intro ballI impI)
      fix p assume p: "p \<in> set ps" "hot p"
      then obtain i where i: "i < length (pollfds w)" "p = (pollfds w ! i)\<lparr>pfd_revents := revs ! i\<rparr>"
        using idx by blast
      then have "revs ! i \<noteq> 0" using p by (simp add: hot_def)
      then have "slot_fd (pollfds w ! i) = pfd_fd p"
        using ok i by (auto simp: poll_result_ok_def slot_fd_def)
      then show "\<exists>a c. registered ?w (pfd_fd p) a c \<and> fd c = pfd_fd p"
        using slot_channel [OF inv i(1)] by (metis poller.select_convs(2,3) poller.surjective poller.update_convs(1) registered_def)
    qed
  qed (rule n)
  then obtain w' where w': "fillActiveChannels ?w ps n = Some (map (\<lambda>p. the (channels w (pfd_fd p))) (filter hot ps), w')"
      "channels w' = channels w" "\<forall>p\<in>set ps. hot p \<longrightarrow> (\<exists>a c. registered w' (pfd_fd p) a c \<and> revents c = scast (pfd_revents p))"
    by auto
  have act: "map (\<lambda>p. the (channels w (pfd_fd p))) (filter hot ps)
      = map (\<lambda>(p, r). the (channels w (pfd_fd p))) (filter (\<lambda>(p, r). r \<noteq> 0) (zip (pollfds w) revs))"
    unfolding hots by (auto simp: comp_def split_beta)
  have rev: "\<exists>a c. registered w' (pfd_fd (pollfds w ! i)) a c \<and> revents c = scast (revs ! i)"
    if "i < length revs" "revs ! i \<noteq> 0" for i
  proof -
    have "length ps = length revs" using len by (simp add: ps_def)
    then have "ps ! i \<in> set ps" using that(1) by (metis nth_mem)
    moreover have ni: "ps ! i = (pollfds w ! i)\<lparr>pfd_revents := revs ! i\<rparr>" using nth that(1) len by simp
    then have "hot (ps ! i)" using that(2) by (simp add: hot_def)
    ultimately have "\<exists>a c. registered w' (pfd_fd (ps ! i)) a c \<and> revents c = scast (pfd_revents (ps ! i))"
      using w'(3) by blast
    then show ?thesis unfolding ni by simp
  qed
  show ?thesis
  proof (cases "n > 0")
    case True
    then show ?thesis
      using w' act rev by (auto simp: Poller_poll_def ps_def [symmetric] Let_def)
  next
    case False
    then have "filter hot ps = []" using n by auto
    then have none: "filter (\<lambda>(p, r). r \<noteq> 0) (zip (pollfds w) revs) = []" using hots by simp
    then have "revs ! i = 0" if "i < length revs" for i
      using that len by (auto simp: filter_empty_conv set_zip)
    then show ?thesis
      using False none by (auto simp: Poller_poll_def ps_def [symmetric] Let_def)
  qed
qed

definition demo_poller :: poller where
  "demo_poller = \<lparr>pollfds = [\<lparr>pfd_fd = 3, pfd_events = 3, pfd_revents = 0\<rparr>], channels = [3 \<mapsto> 0],
     chans = [0 \<mapsto> (set_reading (Channel_new 3))\<lparr>index := 0\<rparr>]\<rparr>"

lemma demo_poller_inv: "poller_inv demo_poller"
  by (auto simp: poller_inv_def demo_poller_def registered_def slot_ok_def set_reading_def Channel_new_def)

theorem poll_active_channels_witness:
  "\<exists>w'. Poller_poll demo_poller 1 [1] = Some ([0], w') \<and> channels w' = channels demo_poller
    \<and> (\<exists>a c. registered w' 3 a c \<and> revents c = 1)"
proof -
  have "poll_result_ok (pollfds demo_poller) 1 [1]" by (simp add: poll_result_ok_def demo_poller_def)
  from poll_active_channels [OF demo_poller_inv this] show ?thesis
    by (auto simp: demo_poller_def)
qed

text \<open>
  C14: a channel whose events are switched off with \<open>disableAll\<close> and switched on again stays ignored:
  its slot keeps the negative descriptor, so \<open>poll(2)\<close> skips it although it has events.
\<close>

theorem reenabled_channel_ignored:
  assumes inv: "poller_inv w" and r: "registered w (fd c) a c"
  shows "\<exists>w1 w2 c2. disableAll w a = Some w1 \<and> enableReading w1 a = Some w2 \<and> chans w2 a = Some c2
    \<and> \<not> isNoneEvent c2 \<and> pfd_fd (pollfds w2 ! nat (index c2)) < 0"
proof -
  have s: "0 \<le> fd c" "0 \<le> index c" "nat (index c) < length (pollfds w)" using registered_slot [OF inv r] by simp_all
  have ca: "channels w (fd c) = Some a" "chans w a = Some c" using r by (simp_all add: registered_def)
  let ?c1 = "clear_all c"
  let ?w = "w\<lparr>chans := (chans w)(a \<mapsto> ?c1)\<rparr>"
  have c1: "fd ?c1 = fd c" "index ?c1 = index c" "isNoneEvent ?c1" "events ?c1 = 0"
    by (simp_all add: clear_all_def isNoneEvent_def kNoneEvent_def)
  have inv1: "poller_inv ?w" by (rule poller_inv_chan [OF inv ca(2)]) (simp_all add: c1)
  obtain w1 where w1: "Poller_updateChannel ?w a = Some w1" "poller_inv w1" "channels w1 = channels ?w"
      "chans w1 = chans ?w" "pollfds w1 = (pollfds ?w)[nat (index ?c1) := \<lparr>pfd_fd = (if isNoneEvent ?c1 then - fd ?c1 - 1
        else pfd_fd (pollfds ?w ! nat (index ?c1))), pfd_events = ucast (events ?c1), pfd_revents = 0\<rparr>]"
    using update_existing [OF inv1, of ?c1 a] ca c1 by auto
  let ?c2 = "set_reading ?c1"
  let ?w1 = "w1\<lparr>chans := (chans w1)(a \<mapsto> ?c2)\<rparr>"
  have c2: "fd ?c2 = fd c" "index ?c2 = index c" "\<not> isNoneEvent ?c2"
    by (simp_all add: c1 set_reading_def isNoneEvent_def kNoneEvent_def kReadEvent_def poll_bits)
  have inv2: "poller_inv ?w1" by (rule poller_inv_chan [OF w1(2), of a ?c1]) (simp_all add: w1 c1 c2)
  obtain w2 where w2: "Poller_updateChannel ?w1 a = Some w2" "chans w2 = chans ?w1"
      "pollfds w2 = (pollfds ?w1)[nat (index ?c2) := \<lparr>pfd_fd = (if isNoneEvent ?c2 then - fd ?c2 - 1
        else pfd_fd (pollfds ?w1 ! nat (index ?c2))), pfd_events = ucast (events ?c2), pfd_revents = 0\<rparr>]"
    using update_existing [OF inv2, of ?c2 a] ca c2 w1 by auto
  show ?thesis
    by (intro exI [of _ w1] exI [of _ w2] exI [of _ ?c2])
      (use w1 w2 c1 c2 ca s in \<open>simp add: disableAll_def enableReading_def Channel_update_def\<close>)
qed

theorem reenabled_channel_ignored_witness:
  "\<exists>w1 w2 c2. disableAll demo_poller 0 = Some w1 \<and> enableReading w1 0 = Some w2 \<and> chans w2 0 = Some c2
    \<and> \<not> isNoneEvent c2 \<and> pfd_fd (pollfds w2 ! nat (index c2)) < 0"
  by (rule reenabled_channel_ignored [OF demo_poller_inv, of "(set_reading (Channel_new 3))\<lparr>index := 0\<rparr>"])
    (simp add: registered_def demo_poller_def set_reading_def Channel_new_def)

end
