(* ===== verification/EPoller.thy ===== *)
theory EPoller
  imports Poller
begin

text \<open>
  \<open>EPoller\<close> (\<open>src/EPoller.cc\<close>): the bookkeeping over \<open>epoll_ctl(2)\<close>. The file is not part of the build
  and has a few slips that do not compile (\<open>++o\<close>, missing parentheses, \<open>EPOLL_CRL_MOD\<close>, \<open>$event\<close>); the
  model is of the code that is plainly meant. The kernel's interest list is the field \<open>interest\<close>, with the
  documented behaviour of the three operations: \<open>ADD\<close> fails on a descriptor that is there, \<open>MOD\<close> and \<open>DEL\<close>
  fail on one that is not; a failed \<open>ADD\<close> or \<open>MOD\<close> is fatal (\<open>None\<close>), a failed \<open>DEL\<close> is only logged.

  Both pollers give \<open>EventLoop\<close> the same service; the locale \<open>channel_registry\<close> is its contract.
\<close>

definition kNew :: int where "kNew = -1"
definition kAdded :: int where "kAdded = 1"
definition kDeleted :: int where "kDeleted = 2"

lemma k_distinct [simp]: "kNew \<noteq> kAdded" "kNew \<noteq> kDeleted" "kAdded \<noteq> kNew" "kAdded \<noteq> kDeleted"
  "kDeleted \<noteq> kNew" "kDeleted \<noteq> kAdded"
  by (simp_all add: kNew_def kAdded_def kDeleted_def)

datatype epoll_op = EPOLL_CTL_ADD | EPOLL_CTL_MOD | EPOLL_CTL_DEL

record epoller =
  interest :: "int \<rightharpoonup> 32 word \<times> addr"
  echannels :: "int \<rightharpoonup> addr"
  echans :: "addr \<rightharpoonup> Channel"
  eventList :: nat

definition EPoller_new :: epoller where
  "EPoller_new = \<lparr>interest = Map.empty, echannels = Map.empty, echans = Map.empty, eventList = 16\<rparr>"

definition EPoller_update :: "epoll_op \<Rightarrow> epoller \<Rightarrow> addr \<Rightarrow> Channel \<Rightarrow> epoller option" where
  "EPoller_update operation w channel c =
     (let event = (events c, channel) in
      case operation of
        EPOLL_CTL_ADD \<Rightarrow> if interest w (fd c) = None then Some (w\<lparr>interest := (interest w)(fd c \<mapsto> event)\<rparr>) else None
      | EPOLL_CTL_MOD \<Rightarrow> if interest w (fd c) \<noteq> None then Some (w\<lparr>interest := (interest w)(fd c \<mapsto> event)\<rparr>) else None
      | EPOLL_CTL_DEL \<Rightarrow> Some (w\<lparr>interest := (interest w)(fd c := None)\<rparr>))"

definition EPoller_updateChannel :: "epoller \<Rightarrow> addr \<Rightarrow> epoller option" where
  "EPoller_updateChannel w channel = do {
     c \<leftarrow> echans w channel;
     if index c = kNew \<or> index c = kDeleted then do {
       w \<leftarrow> (if index c = kNew then do {
               ensure (echannels w (fd c) = None);
               Some (w\<lparr>echannels := (echannels w)(fd c \<mapsto> channel)\<rparr>)
             } else do {
               ensure (echannels w (fd c) \<noteq> None);
               ensure (echannels w (fd c) = Some channel);
               Some w
             });
       let c = c\<lparr>index := kAdded\<rparr>;
       EPoller_update EPOLL_CTL_ADD (w\<lparr>echans := (echans w)(channel \<mapsto> c)\<rparr>) channel c
     }
     else do {
       ensure (echannels w (fd c) \<noteq> None);
       ensure (echannels w (fd c) = Some channel);
       ensure (index c = kAdded);
       if isNoneEvent c then do {
         w \<leftarrow> EPoller_update EPOLL_CTL_DEL w channel c;
         Some (w\<lparr>echans := (echans w)(channel \<mapsto> c\<lparr>index := kDeleted\<rparr>)\<rparr>)
       }
       else EPoller_update EPOLL_CTL_MOD w channel c
     }
   }"

definition EPoller_removeChannel :: "epoller \<Rightarrow> addr \<Rightarrow> epoller option" where
  "EPoller_removeChannel w channel = do {
     c \<leftarrow> echans w channel;
     ensure (echannels w (fd c) \<noteq> None);
     ensure (echannels w (fd c) = Some channel);
     ensure (isNoneEvent c);
     ensure (index c = kAdded \<or> index c = kDeleted);
     let w = w\<lparr>echannels := (echannels w)(fd c := None)\<rparr>;
     w \<leftarrow> (if index c = kAdded then EPoller_update EPOLL_CTL_DEL w channel c else Some w);
     Some (w\<lparr>echans := (echans w)(channel \<mapsto> c\<lparr>index := kNew\<rparr>)\<rparr>)
   }"

text \<open>
  \<open>poll\<close>: what \<open>epoll_wait\<close> stored, the events and the channel pointer of each ready descriptor. The
  list doubles when it was full.
\<close>

fun efillActiveChannels :: "epoller \<Rightarrow> (32 word \<times> addr) list \<Rightarrow> (addr list \<times> epoller) option" where
  "efillActiveChannels w [] = Some ([], w)"
| "efillActiveChannels w ((ev, channel) # evs) = do {
     c \<leftarrow> echans w channel;
     ensure (echannels w (fd c) \<noteq> None);
     ensure (echannels w (fd c) = Some channel);
     let w = w\<lparr>echans := (echans w)(channel \<mapsto> c\<lparr>revents := ev\<rparr>)\<rparr>;
     (active, w) \<leftarrow> efillActiveChannels w evs;
     Some (channel # active, w)
   }"

definition EPoller_poll :: "epoller \<Rightarrow> (32 word \<times> addr) list option \<Rightarrow> (addr list \<times> epoller) option" where
  "EPoller_poll w result =
     (case result of
        None \<Rightarrow> Some ([], w)
      | Some evs \<Rightarrow>
          if evs = [] then Some ([], w)
          else do {
            ensure (length evs \<le> eventList w);
            (active, w) \<leftarrow> efillActiveChannels w evs;
            Some (active, if length evs = eventList w then w\<lparr>eventList := eventList w * 2\<rparr> else w)
          })"

definition eChannel_update :: "(Channel \<Rightarrow> Channel) \<Rightarrow> epoller \<Rightarrow> addr \<Rightarrow> epoller option" where
  "eChannel_update f w channel = do {
     c \<leftarrow> echans w channel;
     EPoller_updateChannel (w\<lparr>echans := (echans w)(channel \<mapsto> f c)\<rparr>) channel
   }"

definition eChannel_remove :: "epoller \<Rightarrow> addr \<Rightarrow> epoller option" where
  "eChannel_remove w channel = do {
     c \<leftarrow> echans w channel;
     ensure (isNoneEvent c);
     EPoller_removeChannel (w\<lparr>echans := (echans w)(channel \<mapsto> c\<lparr>addedToLoop := False\<rparr>)\<rparr>) channel
   }"

section \<open>Invariant\<close>

text \<open>
  A registered channel is added or deleted, and the kernel watches it exactly when it is added, with
  the channel's events and its address.
\<close>

definition epoller_inv :: "epoller \<Rightarrow> bool" where
  "epoller_inv w \<longleftrightarrow>
     (\<forall>k a. echannels w k = Some a \<longrightarrow> (\<exists>c. echans w a = Some c \<and> fd c = k \<and>
        (index c = kAdded \<and> interest w k = Some (events c, a) \<or> index c = kDeleted \<and> interest w k = None)))
   \<and> (\<forall>k. echannels w k = None \<longrightarrow> interest w k = None)"

definition emay_update :: "epoller \<Rightarrow> addr \<Rightarrow> bool" where
  "emay_update w a = (case echans w a of None \<Rightarrow> False
     | Some c \<Rightarrow> echannels w (fd c) = Some a \<or> echannels w (fd c) = None \<and> index c = kNew)"

lemma EPoller_new_inv: "epoller_inv EPoller_new"
  by (simp add: epoller_inv_def EPoller_new_def)

lemma epoller_other:
  "epoller_inv w \<Longrightarrow> echans w a = Some c \<Longrightarrow> echannels w k = Some a \<Longrightarrow> k = fd c"
  by (fastforce simp: epoller_inv_def)

lemma eChannel_update_ok:
  assumes inv: "epoller_inv w" and f: "f \<in> set event_ops" and may: "emay_update w a"
  shows "\<exists>w' c. echans w a = Some c \<and> eChannel_update f w a = Some w' \<and> epoller_inv w'
    \<and> echannels w' = (echannels w)(fd c \<mapsto> a)
    \<and> interest w' (fd c) = (if isNoneEvent (f c) \<and> index c = kAdded then None else Some (events (f c), a))"
proof -
  obtain c where c: "echans w a = Some c"
      "echannels w (fd c) = Some a \<or> echannels w (fd c) = None \<and> index c = kNew"
    using may by (auto simp: emay_update_def split: option.splits)
  have fs: "fd (f c) = fd c" "index (f c) = index c" by (simp_all add: event_ops_simps [OF f])
  have others: "k \<noteq> fd c \<Longrightarrow> echannels w k = Some a' \<Longrightarrow> a' \<noteq> a" for k a'
    using epoller_other [OF inv c(1)] by blast
  have int: "index c = kNew \<Longrightarrow> echannels w (fd c) = None \<Longrightarrow> interest w (fd c) = None"
    using inv by (simp add: epoller_inv_def)
  have reg: "echannels w (fd c) = Some a \<Longrightarrow> index c = kAdded \<and> interest w (fd c) = Some (events c, a)
      \<or> index c = kDeleted \<and> interest w (fd c) = None"
    using inv c(1) by (fastforce simp: epoller_inv_def)
  have inv': "epoller_inv w'"
    if "echannels w' = (echannels w)(fd c \<mapsto> a)" "\<And>k. k \<noteq> fd c \<Longrightarrow> interest w' k = interest w k"
      "\<And>b. b \<noteq> a \<Longrightarrow> echans w' b = echans w b" "echans w' a = Some c'" "fd c' = fd c"
      "index c' = kAdded \<and> interest w' (fd c) = Some (events c', a) \<or> index c' = kDeleted \<and> interest w' (fd c) = None"
    for w' c'
    using inv that others unfolding epoller_inv_def by (auto simp: fun_upd_apply)
  note ops = eChannel_update_def EPoller_updateChannel_def EPoller_update_def Let_def
  consider (del) "echannels w (fd c) = Some a" "index c = kAdded" "interest w (fd c) = Some (events c, a)" "isNoneEvent (f c)"
    | (mod) "echannels w (fd c) = Some a" "index c = kAdded" "interest w (fd c) = Some (events c, a)" "\<not> isNoneEvent (f c)"
    | (add) "echannels w (fd c) = Some a" "index c = kDeleted" "interest w (fd c) = None"
    | (new) "echannels w (fd c) = None" "index c = kNew" "interest w (fd c) = None"
    using c(2) reg int by metis
  then show ?thesis
  proof cases
    case del
    have "eChannel_update f w a = Some (w\<lparr>echans := (echans w)(a \<mapsto> f c\<lparr>index := kDeleted\<rparr>),
        interest := (interest w)(fd c := None)\<rparr>)" (is "_ = Some ?w")
      using del c fs by (simp add: ops)
    moreover have "epoller_inv ?w"
      using del c fs by (intro inv' [where c' = "f c\<lparr>index := kDeleted\<rparr>"]) auto
    ultimately show ?thesis using del c by (auto simp: fun_upd_idem)
  next
    case mod
    have "eChannel_update f w a = Some (w\<lparr>echans := (echans w)(a \<mapsto> f c),
        interest := (interest w)(fd c \<mapsto> (events (f c), a))\<rparr>)" (is "_ = Some ?w")
      using mod c fs by (simp add: ops)
    moreover have "epoller_inv ?w"
      using mod c fs by (intro inv' [where c' = "f c"]) auto
    ultimately show ?thesis using mod c by (auto simp: fun_upd_idem)
  next
    case add
    have "eChannel_update f w a = Some (w\<lparr>echans := (echans w)(a \<mapsto> f c\<lparr>index := kAdded\<rparr>),
        interest := (interest w)(fd c \<mapsto> (events (f c), a))\<rparr>)" (is "_ = Some ?w")
      using add c fs by (simp add: ops)
    moreover have "epoller_inv ?w"
      using add c fs by (intro inv' [where c' = "f c\<lparr>index := kAdded\<rparr>"]) auto
    ultimately show ?thesis using add c by (auto simp: fun_upd_idem)
  next
    case new
    have "eChannel_update f w a = Some (w\<lparr>echannels := (echannels w)(fd c \<mapsto> a),
        echans := (echans w)(a \<mapsto> f c\<lparr>index := kAdded\<rparr>),
        interest := (interest w)(fd c \<mapsto> (events (f c), a))\<rparr>)" (is "_ = Some ?w")
      using new c fs by (simp add: ops)
    moreover have "epoller_inv ?w"
      using new c fs by (intro inv' [where c' = "f c\<lparr>index := kAdded\<rparr>"]) auto
    ultimately show ?thesis using new c by auto
  qed
qed

lemma edisable_remove_ok:
  assumes inv: "epoller_inv w" and r: "echannels w k = Some a"
  shows "\<exists>w1 w2. eChannel_update clear_all w a = Some w1 \<and> eChannel_remove w1 a = Some w2 \<and> epoller_inv w2
    \<and> echannels w2 = (echannels w)(k := None) \<and> interest w2 k = None"
proof -
  obtain c where c: "echans w a = Some c" "fd c = k" using inv r by (auto simp: epoller_inv_def)
  have may: "emay_update w a" using r c by (simp add: emay_update_def)
  have f: "clear_all \<in> set event_ops" by (simp add: event_ops_def)
  obtain w1 where w1: "eChannel_update clear_all w a = Some w1" "epoller_inv w1"
      "echannels w1 = (echannels w)(k \<mapsto> a)"
    using eChannel_update_ok [OF inv f may] c by auto
  have "echannels w1 k = Some a" using w1(3) by simp
  then obtain c1 where c1: "echans w1 a = Some c1" "fd c1 = k"
      "index c1 = kAdded \<and> interest w1 k = Some (events c1, a) \<or> index c1 = kDeleted \<and> interest w1 k = None"
    using w1(2) unfolding epoller_inv_def by blast
  have none: "isNoneEvent c1"
  proof -
    have "isNoneEvent (clear_all c)" by (simp add: clear_all_def isNoneEvent_def)
    then show ?thesis
      using w1(1) c c1(1) by (auto simp: eChannel_update_def EPoller_updateChannel_def EPoller_update_def Let_def
          isNoneEvent_def split: if_splits bind_splits)
  qed
  define w2 where "w2 = w1\<lparr>echannels := (echannels w1)(k := None), interest := (interest w1)(k := None),
    echans := (echans w1)(a \<mapsto> c1\<lparr>addedToLoop := False, index := kNew\<rparr>)\<rparr>"
  have "eChannel_remove w1 a = Some w2"
    using c1 none w1(3) by (auto simp: eChannel_remove_def EPoller_removeChannel_def EPoller_update_def
        isNoneEvent_def w2_def Let_def fun_upd_idem)
  moreover have "epoller_inv w2"
  proof -
    have "echannels w1 k' = Some a' \<Longrightarrow> k' \<noteq> k \<Longrightarrow> a' \<noteq> a" for k' a'
      using epoller_other [OF w1(2) c1(1)] c1(2) by metis
    then show ?thesis using w1(2) unfolding epoller_inv_def w2_def by auto
  qed
  moreover have "echannels w2 = (echannels w)(k := None)" "interest w2 k = None"
    using w1(3) by (simp_all add: w2_def)
  ultimately show ?thesis using w1(1) by blast
qed

section \<open>The contract of a poller\<close>

locale channel_registry =
  fixes inv :: "'s \<Rightarrow> bool" and reg :: "'s \<Rightarrow> int \<rightharpoonup> addr" and may :: "'s \<Rightarrow> addr \<Rightarrow> bool"
    and fd_of :: "'s \<Rightarrow> addr \<Rightarrow> int"
    and upd :: "(Channel \<Rightarrow> Channel) \<Rightarrow> 's \<Rightarrow> addr \<Rightarrow> 's option" and rem :: "'s \<Rightarrow> addr \<Rightarrow> 's option"
  assumes upd_ok: "inv s \<Longrightarrow> may s a \<Longrightarrow> f \<in> set event_ops \<Longrightarrow>
      \<exists>s'. upd f s a = Some s' \<and> inv s' \<and> reg s' = (reg s)(fd_of s a \<mapsto> a)"
    and rem_ok: "inv s \<Longrightarrow> reg s k = Some a \<Longrightarrow>
      \<exists>s'. rem s a = Some s' \<and> inv s' \<and> reg s' = (reg s)(k := None)"
begin

lemma register_remove:
  assumes "inv s" "may s a" "f \<in> set event_ops" "reg s (fd_of s a) = None"
  shows "\<exists>s1 s2. upd f s a = Some s1 \<and> rem s1 a = Some s2 \<and> inv s2 \<and> reg s2 = reg s"
proof -
  obtain s1 where s1: "upd f s a = Some s1" "inv s1" "reg s1 = (reg s)(fd_of s a \<mapsto> a)"
    using upd_ok [OF assms(1-3)] by blast
  obtain s2 where "rem s1 a = Some s2" "inv s2" "reg s2 = (reg s1)(fd_of s a := None)"
    using rem_ok [OF s1(2), of "fd_of s a" a] s1(3) by auto
  with s1 assms(4) show ?thesis by (auto simp: fun_upd_idem)
qed

end

interpretation pollr: channel_registry poller_inv channels may_update "\<lambda>w a. fd (the (chans w a))"
  Channel_update "\<lambda>w a. disableAll w a \<bind> (\<lambda>w. Channel_remove w a)"
proof
  fix s a f k
  show "\<exists>s'. Channel_update f s a = Some s' \<and> poller_inv s' \<and> channels s' = (channels s)(fd (the (chans s a)) \<mapsto> a)"
    if i: "poller_inv s" and m: "may_update s a" and f: "f \<in> set event_ops"
  proof -
    obtain w' and c' :: Channel where "Channel_update f s a = Some w'" "poller_inv w'" "channels w' = (channels s)(fd c' \<mapsto> a)"
        "map_option fd (chans s a) = Some (fd c')"
      by (rule Channel_update_ok [OF i f m]; blast)
    then show ?thesis by auto
  qed
  show "\<exists>s'. disableAll s a \<bind> (\<lambda>w. Channel_remove w a) = Some s' \<and> poller_inv s' \<and> channels s' = (channels s)(k := None)"
    if i: "poller_inv s" and r: "channels s k = Some a"
  proof -
    obtain c where rc: "registered s k a c" using registered_chans [OF i r] by blast
    then have k: "fd c = k" using registered_slot(1) [OF i] by blast
    obtain w1 w2 where "disableAll s a = Some w1" "Channel_remove w1 a = Some w2" "poller_inv w2"
        "channels w2 = (channels s)(k := None)"
      using disable_remove_ok [OF i, of c a] rc k by auto
    then show ?thesis by simp
  qed
qed

interpretation epollr: channel_registry epoller_inv echannels emay_update "\<lambda>w a. fd (the (echans w a))"
  eChannel_update "\<lambda>w a. eChannel_update clear_all w a \<bind> (\<lambda>w. eChannel_remove w a)"
proof
  fix s a f k
  show "\<exists>s'. eChannel_update f s a = Some s' \<and> epoller_inv s' \<and> echannels s' = (echannels s)(fd (the (echans s a)) \<mapsto> a)"
    if "epoller_inv s" "emay_update s a" "f \<in> set event_ops"
    using eChannel_update_ok [OF that(1,3,2)] by auto
  show "\<exists>s'. eChannel_update clear_all s a \<bind> (\<lambda>w. eChannel_remove w a) = Some s' \<and> epoller_inv s'
      \<and> echannels s' = (echannels s)(k := None)"
    if "epoller_inv s" "echannels s k = Some a"
    using edisable_remove_ok [OF that] by auto
qed

section \<open>Properties\<close>





end
