(* ===== verification/TimerQueue.thy ===== *)
theory TimerQueue
  imports Timestamp "HOL-Library.Product_Lexorder" "HOL-Library.Monad_Syntax"
begin

text \<open>
  \<open>Timer\<close>, \<open>TimerId\<close> and \<open>TimerQueue\<close> (\<open>src/Timer.h\<close>, \<open>src/Timer.cc\<close>, \<open>src/TimerId.h\<close>,
  \<open>src/TimerQueue.cc\<close>). Timer objects live in a heap by address. \<open>timers_\<close>, a \<open>std::set\<close> of expiration
  and address, is a sorted list; \<open>activeTimers_\<close> and \<open>cancelingTimers_\<close> are sets. The kernel's
  \<open>timerfd\<close> is the pair of the expiration it was last set for (\<open>None\<close> after it fired) and the relative
  time that was passed. What a timer's callback does to the queue is a list of commands, so callbacks
  that add and cancel timers while timers are being run are covered.
\<close>

type_synonym timer_addr = nat

definition UINTPTR_MAX :: nat where "UINTPTR_MAX = 2 ^ 64 - 1"

record Timer =
  expiration :: Timestamp
  interval :: rat
  repeat :: bool
  sequence :: int

definition Timer_new :: "Timestamp \<Rightarrow> rat \<Rightarrow> int \<Rightarrow> Timer" where
  "Timer_new when intv seq = \<lparr>expiration = when, interval = intv, repeat = intv > 0, sequence = seq\<rparr>"

definition Timer_restart :: "Timer \<Rightarrow> Timestamp \<Rightarrow> Timer" where
  "Timer_restart t now =
     (if repeat t then t\<lparr>expiration := addTime now (interval t)\<rparr>
      else t\<lparr>expiration := Timestamp_invalid\<rparr>)"

type_synonym entry = "Timestamp \<times> timer_addr"
type_synonym active_timer = "timer_addr \<times> int"

record timer_queue =
  heap :: "timer_addr \<rightharpoonup> Timer"
  timers :: "entry list"
  callingExpiredTimers :: bool
  activeTimers :: "active_timer set"
  cancelingTimers :: "active_timer set"
  numCreated :: int
  armed :: "Timestamp option"
  alarm :: "int \<times> int"

definition TimerQueue_new :: timer_queue where
  "TimerQueue_new = \<lparr>heap = Map.empty, timers = [], callingExpiredTimers = False, activeTimers = {},
     cancelingTimers = {}, numCreated = 0, armed = None, alarm = (0, 0)\<rparr>"

text \<open>\<open>howMuchTimeFromNow\<close>: the \<open>timespec\<close> from \<open>now\<close>, at least 100 microseconds.\<close>

definition howMuchTimeFromNow :: "Timestamp \<Rightarrow> Timestamp \<Rightarrow> int \<times> int" where
  "howMuchTimeFromNow when now =
     (let microseconds = microSecondsSinceEpoch when - microSecondsSinceEpoch now;
          microseconds = (if microseconds < 100 then 100 else microseconds)
      in (c_div microseconds kMicroSecondsPerSecond, c_mod microseconds kMicroSecondsPerSecond * 1000))"

definition resetTimerfd :: "timer_queue \<Rightarrow> Timestamp \<Rightarrow> Timestamp \<Rightarrow> timer_queue" where
  "resetTimerfd q when now = q\<lparr>armed := Some when, alarm := howMuchTimeFromNow when now\<rparr>"

definition readTimerfd :: "timer_queue \<Rightarrow> timer_queue" where
  "readTimerfd q = q\<lparr>armed := None\<rparr>"

definition tq_insert :: "timer_queue \<Rightarrow> timer_addr \<Rightarrow> (bool \<times> timer_queue) option" where
  "tq_insert q timer = do {
     ensure (length (timers q) = card (activeTimers q));
     t \<leftarrow> heap q timer;
     let when = expiration t;
     let earliestChanged = (timers q = [] \<or> when < fst (hd (timers q)));
     ensure ((when, timer) \<notin> set (timers q));
     let q = q\<lparr>timers := insort (when, timer) (timers q)\<rparr>;
     ensure ((timer, sequence t) \<notin> activeTimers q);
     let q = q\<lparr>activeTimers := insert (timer, sequence t) (activeTimers q)\<rparr>;
     ensure (length (timers q) = card (activeTimers q));
     Some (earliestChanged, q)
   }"

definition addTimerInLoop :: "timer_queue \<Rightarrow> timer_addr \<Rightarrow> Timestamp \<Rightarrow> timer_queue option" where
  "addTimerInLoop q timer clock = do {
     (earliestChanged, q) \<leftarrow> tq_insert q timer;
     t \<leftarrow> heap q timer;
     Some (if earliestChanged then resetTimerfd q (expiration t) clock else q)
   }"

definition cancelInLoop :: "timer_queue \<Rightarrow> active_timer \<Rightarrow> timer_queue option" where
  "cancelInLoop q timer = do {
     ensure (length (timers q) = card (activeTimers q));
     q \<leftarrow> (if timer \<in> activeTimers q then do {
             t \<leftarrow> heap q (fst timer);
             ensure ((expiration t, fst timer) \<in> set (timers q));
             Some (q\<lparr>timers := remove1 (expiration t, fst timer) (timers q),
                     heap := (heap q)(fst timer := None),
                     activeTimers := activeTimers q - {timer}\<rparr>)
           }
           else if callingExpiredTimers q then Some (q\<lparr>cancelingTimers := insert timer (cancelingTimers q)\<rparr>)
           else Some q);
     ensure (length (timers q) = card (activeTimers q));
     Some q
   }"

text \<open>\<open>addTimer\<close> in the loop thread: \<open>new\<close> returns an address that is not in use.\<close>

definition tq_addTimer :: "timer_queue \<Rightarrow> timer_addr \<Rightarrow> Timestamp \<Rightarrow> rat \<Rightarrow> Timestamp \<Rightarrow> (active_timer \<times> timer_queue) option" where
  "tq_addTimer q addr when intv clock = do {
     let seq = numCreated q + 1;
     let q = q\<lparr>numCreated := seq, heap := (heap q)(addr \<mapsto> Timer_new when intv seq)\<rparr>;
     q \<leftarrow> addTimerInLoop q addr clock;
     Some ((addr, seq), q)
   }"

text \<open>The loop of \<open>getExpired\<close> that takes the expired timers out of \<open>activeTimers_\<close>.\<close>

fun erase_active :: "timer_queue \<Rightarrow> entry list \<Rightarrow> timer_queue option" where
  "erase_active q [] = Some q"
| "erase_active q (e # es) = do {
     t \<leftarrow> heap q (snd e);
     ensure ((snd e, sequence t) \<in> activeTimers q);
     erase_active (q\<lparr>activeTimers := activeTimers q - {(snd e, sequence t)}\<rparr>) es
   }"

definition getExpired :: "timer_queue \<Rightarrow> Timestamp \<Rightarrow> (entry list \<times> timer_queue) option" where
  "getExpired q now = do {
     ensure (length (timers q) = card (activeTimers q));
     let sentry = (now, UINTPTR_MAX);
     let expired = takeWhile (\<lambda>e. e < sentry) (timers q);
     let rest = dropWhile (\<lambda>e. e < sentry) (timers q);
     ensure (rest = [] \<or> now < fst (hd rest));
     q \<leftarrow> erase_active (q\<lparr>timers := rest\<rparr>) expired;
     ensure (length (timers q) = card (activeTimers q));
     Some (expired, q)
   }"

fun reset_loop :: "timer_queue \<Rightarrow> entry list \<Rightarrow> Timestamp \<Rightarrow> timer_queue option" where
  "reset_loop q [] now = Some q"
| "reset_loop q (e # es) now = do {
     t \<leftarrow> heap q (snd e);
     if repeat t \<and> (snd e, sequence t) \<notin> cancelingTimers q then do {
       (b, q) \<leftarrow> tq_insert (q\<lparr>heap := (heap q)(snd e \<mapsto> Timer_restart t now)\<rparr>) (snd e);
       reset_loop q es now
     }
     else reset_loop (q\<lparr>heap := (heap q)(snd e := None)\<rparr>) es now
   }"

definition tq_reset :: "timer_queue \<Rightarrow> entry list \<Rightarrow> Timestamp \<Rightarrow> Timestamp \<Rightarrow> timer_queue option" where
  "tq_reset q expired now clock = do {
     q \<leftarrow> reset_loop q expired now;
     nextExpire \<leftarrow> (case timers q of [] \<Rightarrow> Some Timestamp_invalid
                    | e # _ \<Rightarrow> map_option expiration (heap q (snd e)));
     Some (if Timestamp_valid nextExpire then resetTimerfd q nextExpire clock else q)
   }"

datatype timer_cmd = Cmd_add timer_addr Timestamp rat Timestamp | Cmd_cancel active_timer

fun tq_cmd :: "timer_queue \<Rightarrow> timer_cmd \<Rightarrow> timer_queue option" where
  "tq_cmd q (Cmd_add addr when intv clock) = map_option snd (tq_addTimer q addr when intv clock)"
| "tq_cmd q (Cmd_cancel timer) = cancelInLoop q timer"

fun tq_cmds :: "timer_queue \<Rightarrow> timer_cmd list \<Rightarrow> timer_queue option" where
  "tq_cmds q [] = Some q"
| "tq_cmds q (c # cs) = do { q \<leftarrow> tq_cmd q c; tq_cmds q cs }"

text \<open>The callbacks of the expired timers, in order; \<open>acts\<close> says what each one does.\<close>

fun run_expired :: "timer_queue \<Rightarrow> entry list \<Rightarrow> (timer_addr \<Rightarrow> timer_cmd list) \<Rightarrow> timer_queue option" where
  "run_expired q [] acts = Some q"
| "run_expired q (e # es) acts = do { q \<leftarrow> tq_cmds q (acts (snd e)); run_expired q es acts }"

definition tq_handleRead ::
    "timer_queue \<Rightarrow> Timestamp \<Rightarrow> (timer_addr \<Rightarrow> timer_cmd list) \<Rightarrow> Timestamp \<Rightarrow> (timer_addr list \<times> timer_queue) option" where
  "tq_handleRead q now acts clock = do {
     (expired, q) \<leftarrow> getExpired (readTimerfd q) now;
     let q = q\<lparr>callingExpiredTimers := True, cancelingTimers := {}\<rparr>;
     q \<leftarrow> run_expired q expired acts;
     q \<leftarrow> tq_reset (q\<lparr>callingExpiredTimers := False\<rparr>) expired now clock;
     Some (map snd expired, q)
   }"

section \<open>Invariant\<close>

definition act :: "timer_queue \<Rightarrow> entry \<Rightarrow> active_timer" where
  "act q e = (snd e, sequence (the (heap q (snd e))))"

text \<open>
  \<open>held\<close> are the expired timers between \<open>getExpired\<close> and \<open>reset\<close>: they are in the heap and in
  neither set.
\<close>

definition tq_inv :: "timer_queue \<Rightarrow> timer_addr list \<Rightarrow> bool" where
  "tq_inv q held \<longleftrightarrow> sorted (timers q) \<and> distinct (timers q) \<and> distinct held
     \<and> (\<forall>e\<in>set (timers q). \<exists>t. heap q (snd e) = Some t \<and> expiration t = fst e \<and> snd e < UINTPTR_MAX
          \<and> snd e \<notin> set held)
     \<and> (\<forall>a\<in>set held. \<exists>t. heap q a = Some t \<and> a < UINTPTR_MAX)
     \<and> (\<forall>a t. heap q a = Some t \<longrightarrow> repeat t = (interval t > 0))
     \<and> activeTimers q = act q ` set (timers q)"

definition alarm_ok :: "timer_queue \<Rightarrow> bool" where
  "alarm_ok q \<longleftrightarrow> (timers q \<noteq> [] \<longrightarrow> (\<exists>x. armed q = Some x \<and> x \<le> fst (hd (timers q))))"

lemma tq_inv_irrelevant [simp]:
  "tq_inv (q\<lparr>callingExpiredTimers := b\<rparr>) h = tq_inv q h" "tq_inv (q\<lparr>cancelingTimers := c\<rparr>) h = tq_inv q h"
  "tq_inv (q\<lparr>armed := w\<rparr>) h = tq_inv q h" "tq_inv (q\<lparr>alarm := l\<rparr>) h = tq_inv q h"
  by (simp_all add: tq_inv_def act_def cong: image_cong)

lemma tq_entry:
  assumes "tq_inv q held" "e \<in> set (timers q)"
  shows "\<exists>t. heap q (snd e) = Some t \<and> expiration t = fst e" "snd e < UINTPTR_MAX" "snd e \<notin> set held"
  using assms by (auto simp: tq_inv_def)

lemma tq_addr_inj:
  assumes "tq_inv q held" "e \<in> set (timers q)" "e' \<in> set (timers q)" "snd e = snd e'"
  shows "e = e'"
  using tq_entry(1) [OF assms(1,2)] tq_entry(1) [OF assms(1,3)] assms(4) by (auto simp: prod_eq_iff)

lemma act_inj:
  assumes "tq_inv q held"
  shows "inj_on (act q) (set (timers q))"
  using tq_addr_inj [OF assms] by (intro inj_onI) (auto simp: act_def)

lemma tq_sizes:
  assumes "tq_inv q held"
  shows "length (timers q) = card (activeTimers q)"
proof -
  show ?thesis
    using act_inj [OF assms] assms by (simp add: tq_inv_def card_image distinct_card)
qed

lemma tq_invI:
  assumes "sorted (timers q)" "distinct (timers q)" "distinct held"
    "\<And>e. e \<in> set (timers q) \<Longrightarrow> \<exists>t. heap q (snd e) = Some t \<and> expiration t = fst e \<and> snd e < UINTPTR_MAX \<and> snd e \<notin> set held"
    "\<And>a. a \<in> set held \<Longrightarrow> \<exists>t. heap q a = Some t \<and> a < UINTPTR_MAX"
    "\<And>a t. heap q a = Some t \<Longrightarrow> repeat t = (interval t > 0)"
    "activeTimers q = act q ` set (timers q)"
  shows "tq_inv q held"
  using assms by (simp add: tq_inv_def)

lemma tq_insert_ok:
  assumes inv: "tq_inv q held" and h: "heap q a = Some t" "a < UINTPTR_MAX"
    and new: "a \<notin> snd ` set (timers q)" "a \<notin> set held"
  shows "tq_insert q a = Some (timers q = [] \<or> expiration t < fst (hd (timers q)),
      q\<lparr>timers := insort (expiration t, a) (timers q), activeTimers := insert (a, sequence t) (activeTimers q)\<rparr>)"
    and "tq_inv (q\<lparr>timers := insort (expiration t, a) (timers q), activeTimers := insert (a, sequence t) (activeTimers q)\<rparr>) held"
proof -
  let ?q = "q\<lparr>timers := insort (expiration t, a) (timers q), activeTimers := insert (a, sequence t) (activeTimers q)\<rparr>"
  show inv': "tq_inv ?q held"
  proof (rule tq_invI)
    show "activeTimers ?q = act ?q ` set (timers ?q)"
      using inv h by (auto simp: tq_inv_def act_def set_insort_key)
    show "distinct (timers ?q)" using inv new by (auto simp: tq_inv_def distinct_insort image_iff)
  qed (use inv h new in \<open>auto simp: tq_inv_def set_insort_key sorted_insort\<close>)
  have "(expiration t, a) \<notin> set (timers q)" "(a, sequence t) \<notin> activeTimers q"
    using inv new by (auto simp: tq_inv_def act_def image_iff)
  then show "tq_insert q a = Some (timers q = [] \<or> expiration t < fst (hd (timers q)), ?q)"
    using tq_sizes [OF inv] tq_sizes [OF inv'] h by (simp add: tq_insert_def Let_def)
qed

lemma sorted_hd_le: "sorted xs \<Longrightarrow> x \<in> set xs \<Longrightarrow> hd xs \<le> x" for xs :: "'a :: linorder list"
  by (cases xs) auto

lemma fst_hd_insort:
  assumes "sorted xs" "xs \<noteq> []" "\<not> t < fst (hd xs)"
  shows "fst (hd (insort (t, a) xs)) = fst (hd xs)"
  using assms by (cases xs) (auto simp: less_eq_prod_def)

lemma hd_insort_less:
  assumes "xs = [] \<or> t < fst (hd xs)"
  shows "hd (insort (t, a) xs) = (t, a)"
  using assms by (cases xs) (auto simp: less_eq_prod_def)

definition invalid_ok :: "timer_queue \<Rightarrow> bool" where
  "invalid_ok q \<longleftrightarrow> (\<forall>e\<in>set (timers q). \<not> Timestamp_valid (fst e) \<longrightarrow> (\<exists>x. armed q = Some x \<and> x \<le> fst e))"

lemma invalid_ok_irrelevant [simp]: "invalid_ok (q\<lparr>callingExpiredTimers := b\<rparr>) = invalid_ok q"
  by (simp add: invalid_ok_def)

lemma valid_mono: "Timestamp_valid x \<Longrightarrow> x \<le> y \<Longrightarrow> Timestamp_valid y"
  by (cases x; cases y) (auto simp: Timestamp_valid_def less_eq_Timestamp_def)

lemma addTimer_ok:
  assumes inv: "tq_inv q held" and fresh: "heap q a = None" "a < UINTPTR_MAX"
  shows "\<exists>q'. tq_addTimer q a when intv clock = Some ((a, numCreated q + 1), q') \<and> tq_inv q' held
    \<and> timers q' = insort (when, a) (timers q)
    \<and> heap q' = (heap q)(a \<mapsto> Timer_new when intv (numCreated q + 1))
    \<and> cancelingTimers q' = cancelingTimers q \<and> callingExpiredTimers q' = callingExpiredTimers q
    \<and> (alarm_ok q \<longrightarrow> alarm_ok q') \<and> (invalid_ok q \<longrightarrow> invalid_ok q')"
proof -
  let ?t = "Timer_new when intv (numCreated q + 1)"
  let ?q = "q\<lparr>numCreated := numCreated q + 1, heap := (heap q)(a \<mapsto> ?t)\<rparr>"
  have nin: "a \<notin> snd ` set (timers q)" "a \<notin> set held"
    using inv fresh by (auto simp: tq_inv_def)
  have "tq_inv ?q held"
    using inv nin fresh by (intro tq_invI) (auto simp: tq_inv_def act_def image_iff Timer_new_def intro!: image_cong split: if_splits)
  note ins = tq_insert_ok [OF this, of a ?t]
  let ?q1 = "?q\<lparr>timers := insort (when, a) (timers q), activeTimers := insert (a, numCreated q + 1) (activeTimers q)\<rparr>"
  have q1: "tq_insert ?q a = Some (timers q = [] \<or> when < fst (hd (timers q)), ?q1)" "tq_inv ?q1 held"
    using ins nin fresh by (simp_all add: Timer_new_def)
  let ?q2 = "if timers q = [] \<or> when < fst (hd (timers q)) then resetTimerfd ?q1 when clock else ?q1"
  have "tq_inv ?q2 held"
    using q1(2) by (auto simp: tq_inv_def act_def resetTimerfd_def)
  moreover have "tq_addTimer q a when intv clock = Some ((a, numCreated q + 1), ?q2)"
    using q1(1) by (simp add: tq_addTimer_def addTimerInLoop_def Let_def Timer_new_def)
  moreover have "alarm_ok ?q2" if "alarm_ok q"
  proof (cases "timers q = [] \<or> when < fst (hd (timers q))")
    case True
    then show ?thesis using hd_insort_less [OF True] by (simp add: alarm_ok_def resetTimerfd_def)
  next
    case False
    then show ?thesis
      using that fst_hd_insort [of "timers q" "when" a] inv by (simp add: alarm_ok_def tq_inv_def)
  qed
  moreover have "invalid_ok ?q2" if "invalid_ok q"
  proof (cases "timers q = [] \<or> when < fst (hd (timers q))")
    case True
    have "when \<le> fst e" if "e \<in> set (timers q)" for e
      using True that sorted_hd_le [of "timers q" e] inv by (auto simp: tq_inv_def less_eq_prod_def)
    then show ?thesis using True by (auto simp: invalid_ok_def resetTimerfd_def set_insort_key)
  next
    case False
    then have "hd (timers q) \<in> set (timers q)" "fst (hd (timers q)) \<le> when" by (simp_all add: not_less)
    then have "\<exists>x. armed q = Some x \<and> x \<le> when" if "\<not> Timestamp_valid when"
      using \<open>invalid_ok q\<close> that valid_mono order_trans unfolding invalid_ok_def by metis
    then show ?thesis
      using that False by (simp add: invalid_ok_def set_insort_key)
  qed
  ultimately show ?thesis by (auto simp: resetTimerfd_def)
qed

lemma cancelInLoop_ok:
  assumes inv: "tq_inv q held"
  shows "\<exists>q'. cancelInLoop q tm = Some q' \<and> tq_inv q' held
    \<and> timers q' = filter (\<lambda>e. act q e \<noteq> tm) (timers q)
    \<and> heap q' = (if tm \<in> activeTimers q then (heap q)(fst tm := None) else heap q)
    \<and> cancelingTimers q' = (if tm \<notin> activeTimers q \<and> callingExpiredTimers q then insert tm (cancelingTimers q) else cancelingTimers q)
    \<and> callingExpiredTimers q' = callingExpiredTimers q
    \<and> armed q' = armed q"
proof (cases "tm \<in> activeTimers q")
  case False
  then have "filter (\<lambda>e. act q e \<noteq> tm) (timers q) = timers q"
    using inv by (auto simp: tq_inv_def intro!: filter_True)
  moreover have "tq_inv (q\<lparr>cancelingTimers := insert tm (cancelingTimers q)\<rparr>) held"
    using inv by (auto simp: tq_inv_def act_def)
  ultimately show ?thesis
    using False inv tq_sizes [OF inv] by (simp add: cancelInLoop_def)
next
  case True
  then obtain e where e: "e \<in> set (timers q)" "tm = act q e" using inv by (auto simp: tq_inv_def)
  obtain t where t: "heap q (snd e) = Some t" "expiration t = fst e" using tq_entry(1) [OF inv e(1)] by auto
  have tm: "tm = (snd e, sequence t)" using e(2) t by (simp add: act_def)
  have eq: "remove1 e (timers q) = filter (\<lambda>e'. e' \<noteq> e) (timers q)"
    using inv by (simp add: tq_inv_def distinct_remove1_removeAll removeAll_filter_not_eq)
      (metis)
  have other: "act q e' = tm \<longleftrightarrow> e' = e" if "e' \<in> set (timers q)" for e'
    using tq_addr_inj [OF inv that e(1)] e(2) by (auto simp: act_def)
  let ?q = "q\<lparr>timers := remove1 e (timers q), heap := (heap q)(snd e := None), activeTimers := activeTimers q - {tm}\<rparr>"
  have ne: "snd e' \<noteq> snd e" if "e' \<in> set (timers q)" "e' \<noteq> e" for e'
    using tq_addr_inj [OF inv that(1) e(1)] that(2) by auto
  have "tq_inv ?q held"
  proof (rule tq_invI)
    show "activeTimers ?q = act ?q ` set (timers ?q)"
      using inv e(2) other ne unfolding eq by (auto simp: tq_inv_def act_def image_iff; fastforce)
  qed (use inv ne tq_entry(3) [OF inv e(1)] in \<open>auto simp: tq_inv_def eq sorted_wrt_filter split: if_splits\<close>)
  moreover have "remove1 e (timers q) = filter (\<lambda>e. act q e \<noteq> tm) (timers q)"
    unfolding eq using other by (intro filter_cong refl) simp
  ultimately show ?thesis
    using True t e(1) tm tq_sizes [OF inv] tq_sizes [of ?q held] by (auto simp: cancelInLoop_def)
qed

lemma alarm_ok_subset:
  assumes "alarm_ok q" "sorted (timers q)" "set (timers q') \<subseteq> set (timers q)" "armed q' = armed q"
  shows "alarm_ok q'"
proof (cases "timers q'")
  case (Cons e es)
  then have "hd (timers q) \<le> e" "timers q \<noteq> []" using assms(2,3) sorted_hd_le by auto
  then have "fst (hd (timers q)) \<le> fst e" by (auto simp: less_eq_prod_def)
  with assms(1,4) Cons \<open>timers q \<noteq> []\<close> show ?thesis by (force simp: alarm_ok_def)
qed (simp add: alarm_ok_def)

text \<open>The address \<open>new\<close> returns is not that of a live object.\<close>

fun cmd_fresh :: "timer_queue \<Rightarrow> timer_cmd \<Rightarrow> bool" where
  "cmd_fresh q (Cmd_add a when intv clock) \<longleftrightarrow> heap q a = None \<and> a < UINTPTR_MAX"
| "cmd_fresh q (Cmd_cancel tm) \<longleftrightarrow> True"

fun cmds_fresh :: "timer_queue \<Rightarrow> timer_cmd list \<Rightarrow> bool" where
  "cmds_fresh q [] \<longleftrightarrow> True"
| "cmds_fresh q (c # cs) \<longleftrightarrow> cmd_fresh q c \<and> (case tq_cmd q c of None \<Rightarrow> False | Some q' \<Rightarrow> cmds_fresh q' cs)"

text \<open>What a command keeps: the invariant, the alarm, the timers being run and the timers it does not cancel.\<close>

definition cmds_keep :: "timer_addr list \<Rightarrow> timer_cmd list \<Rightarrow> timer_queue \<Rightarrow> timer_queue \<Rightarrow> bool" where
  "cmds_keep held cs q q' \<longleftrightarrow> tq_inv q' held \<and> (alarm_ok q \<longrightarrow> alarm_ok q') \<and> (invalid_ok q \<longrightarrow> invalid_ok q')
     \<and> callingExpiredTimers q' = callingExpiredTimers q
     \<and> (\<forall>a\<in>set held. heap q' a = heap q a)
     \<and> (\<forall>a\<in>set held. \<forall>s. callingExpiredTimers q \<longrightarrow>
          ((a, s) \<in> cancelingTimers q' \<longleftrightarrow> (a, s) \<in> cancelingTimers q \<or> Cmd_cancel (a, s) \<in> set cs))
     \<and> (\<forall>e\<in>set (timers q). Cmd_cancel (act q e) \<notin> set cs \<longrightarrow>
          e \<in> set (timers q') \<and> heap q' (snd e) = heap q (snd e))"

lemma tq_cmd_ok:
  assumes inv: "tq_inv q held" and fresh: "cmd_fresh q c"
  shows "\<exists>q'. tq_cmd q c = Some q' \<and> cmds_keep held [c] q q'"
proof (cases c)
  case (Cmd_add a w intv clock)
  then have f: "heap q a = None" "a < UINTPTR_MAX" using fresh by simp_all
  have nin: "a \<notin> set held" "\<forall>e\<in>set (timers q). snd e \<noteq> a" using inv f by (auto simp: tq_inv_def)
  then show ?thesis
    using addTimer_ok [OF inv f, of w intv clock] Cmd_add
    by (auto simp: cmds_keep_def set_insort_key)
next
  case (Cmd_cancel tm)
  obtain q' where q': "cancelInLoop q tm = Some q'" "tq_inv q' held"
    "timers q' = filter (\<lambda>e. act q e \<noteq> tm) (timers q)"
    "heap q' = (if tm \<in> activeTimers q then (heap q)(fst tm := None) else heap q)"
    "cancelingTimers q' = (if tm \<notin> activeTimers q \<and> callingExpiredTimers q then insert tm (cancelingTimers q) else cancelingTimers q)"
    "callingExpiredTimers q' = callingExpiredTimers q" "armed q' = armed q"
    using cancelInLoop_ok [OF inv] by blast
  have act: "fst tm \<notin> set held" if "tm \<in> activeTimers q"
    using that inv by (auto simp: tq_inv_def act_def)
  have keep: "e \<in> set (timers q') \<and> heap q' (snd e) = heap q (snd e)"
    if "e \<in> set (timers q)" "act q e \<noteq> tm" for e
  proof -
    have "snd e \<noteq> fst tm" if "tm \<in> activeTimers q"
      using that \<open>e \<in> set (timers q)\<close> \<open>act q e \<noteq> tm\<close> inv by (auto simp: tq_inv_def act_def)
    with that show ?thesis by (simp add: q')
  qed
  have "alarm_ok q'" if "alarm_ok q" using alarm_ok_subset [OF that] inv q'(3,7) by (auto simp: tq_inv_def)
  moreover have "invalid_ok q'" if "invalid_ok q" using that q'(3,7) by (auto simp: invalid_ok_def)
  moreover have "\<forall>a\<in>set held. heap q' a = heap q a" using act q'(4) by auto
  moreover have "(a, s) \<in> cancelingTimers q' \<longleftrightarrow> (a, s) \<in> cancelingTimers q \<or> (a, s) = tm"
    if "a \<in> set held" "callingExpiredTimers q" for a s
    using q'(5) act that by auto
  ultimately show ?thesis
    using q'(1,2,6) keep Cmd_cancel by (auto simp: cmds_keep_def)
qed

lemma cmds_keep_Cons:
  assumes "cmds_keep held [c] q q1" "cmds_keep held cs q1 q2"
  shows "cmds_keep held (c # cs) q q2"
proof -
  have "act q1 e = act q e" if "e \<in> set (timers q)" "Cmd_cancel (act q e) \<noteq> c" for e
    using assms(1) that by (auto simp: cmds_keep_def act_def)
  then show ?thesis
    using assms by (auto simp: cmds_keep_def)
qed

lemma tq_cmds_ok:
  "tq_inv q held \<Longrightarrow> cmds_fresh q cs \<Longrightarrow> \<exists>q'. tq_cmds q cs = Some q' \<and> cmds_keep held cs q q'"
proof (induction cs arbitrary: q)
  case (Cons c cs)
  then obtain q1 where q1: "tq_cmd q c = Some q1" "cmds_keep held [c] q q1" "cmds_fresh q1 cs"
    using tq_cmd_ok [of q held c] by auto
  moreover from this obtain q2 where "tq_cmds q1 cs = Some q2" "cmds_keep held cs q1 q2"
    using Cons.IH [of q1] by (auto simp: cmds_keep_def)
  ultimately show ?case using cmds_keep_Cons by auto
qed (simp add: cmds_keep_def)

lemma tq_cmds_append: "tq_cmds q (cs @ ds) = Option.bind (tq_cmds q cs) (\<lambda>q. tq_cmds q ds)"
  by (induction cs arbitrary: q) (auto split: bind_splits)

lemma run_expired_cmds: "run_expired q es acts = tq_cmds q (concat (map (acts \<circ> snd) es))"
  by (induction es arbitrary: q) (auto simp: tq_cmds_append)

section \<open>Expiry\<close>

lemma below_sentry: "a < UINTPTR_MAX \<Longrightarrow> ((t, a) < (now, UINTPTR_MAX)) = (t \<le> (now :: Timestamp))"
  by (auto simp: less_prod_def)

lemma sorted_takeWhile_filter:
  "sorted xs \<Longrightarrow> (\<And>x y. x \<le> y \<Longrightarrow> P y \<Longrightarrow> P x) \<Longrightarrow>
     takeWhile P xs = filter P xs \<and> dropWhile P xs = filter (\<lambda>x. \<not> P x) xs"
  for xs :: "'a :: linorder list"
proof (induction xs)
  case (Cons x xs)
  have "\<not> P y" if "\<not> P x" "y \<in> set xs" for y using Cons.prems that by auto
  with Cons show ?case by (auto simp: filter_False filter_True filter_empty_conv)
qed simp

lemma erase_active_ok:
  assumes "distinct (map snd es)" "\<And>e. e \<in> set es \<Longrightarrow> heap q (snd e) \<noteq> None \<and> act q e \<in> activeTimers q"
  shows "erase_active q es = Some (q\<lparr>activeTimers := activeTimers q - act q ` set es\<rparr>)"
  using assms
proof (induction es arbitrary: q)
  case (Cons e es)
  let ?q = "q\<lparr>activeTimers := activeTimers q - {act q e}\<rparr>"
  obtain t where t: "heap q (snd e) = Some t" using Cons.prems(2) [of e] by auto
  have "act ?q = act q" by (simp add: act_def fun_eq_iff)
  moreover have "act q e' \<noteq> act q e" if "e' \<in> set es" for e'
    using Cons.prems(1) that by (auto simp: act_def image_iff)
  ultimately have "erase_active ?q es = Some (?q\<lparr>activeTimers := activeTimers ?q - act q ` set es\<rparr>)"
    using Cons.IH [of ?q] Cons.prems by auto
  moreover have "activeTimers q - {act q e} - act q ` set es = activeTimers q - insert (act q e) (act q ` set es)" by blast
  moreover have "act q e = (snd e, sequence t)" "act q e \<in> activeTimers q"
    using Cons.prems(2) [of e] t by (simp_all add: act_def)
  ultimately show ?case using t by simp
qed simp

lemma getExpired_ok:
  assumes inv: "tq_inv q []"
  shows "\<exists>q'. getExpired q now = Some (filter (\<lambda>e. fst e \<le> now) (timers q), q')
    \<and> tq_inv q' (map snd (filter (\<lambda>e. fst e \<le> now) (timers q)))
    \<and> timers q' = filter (\<lambda>e. now < fst e) (timers q) \<and> heap q' = heap q \<and> armed q' = armed q"
proof -
  let ?P = "\<lambda>e. e < (now, UINTPTR_MAX)" and ?es = "filter (\<lambda>e. fst e \<le> now) (timers q)"
    and ?rs = "filter (\<lambda>e. now < fst e) (timers q)"
  have P: "?P e = (fst e \<le> now)" if "e \<in> set (timers q)" for e
    using below_sentry tq_entry(2) [OF inv that] by (cases e) auto
  have sorted: "sorted (timers q)" and dist: "distinct (timers q)" using inv by (auto simp: tq_inv_def)
  have st: "takeWhile ?P (timers q) = filter ?P (timers q) \<and> dropWhile ?P (timers q) = filter (\<lambda>e. \<not> ?P e) (timers q)"
    by (rule sorted_takeWhile_filter [OF sorted]) (rule le_less_trans)
  have tw: "takeWhile ?P (timers q) = ?es"
    unfolding conjunct1 [OF st] by (rule filter_cong [OF refl P])
  have dw: "dropWhile ?P (timers q) = ?rs"
    unfolding conjunct2 [OF st] by (rule filter_cong [OF refl]) (simp only: P not_le)
  have hd: "?rs = [] \<or> now < fst (hd ?rs)" by (cases ?rs) (auto simp: filter_eq_Cons_iff)
  have inj: "inj_on snd (set (timers q))" using tq_addr_inj [OF inv] by (auto intro!: inj_onI)
  then have dsn: "distinct (map snd ?es)"
    using dist by (auto simp: distinct_map intro: inj_on_subset)
  let ?q1 = "q\<lparr>timers := ?rs\<rparr>"
  have act1: "act ?q1 = act q" by (simp add: act_def fun_eq_iff)
  let ?q2 = "?q1\<lparr>activeTimers := activeTimers q - act q ` set ?es\<rparr>"
  have er: "erase_active ?q1 ?es = Some ?q2"
    using erase_active_ok [OF dsn, of ?q1] inv by (force simp: act1 tq_inv_def)
  have inv2: "tq_inv ?q2 (map snd ?es)"
  proof (rule tq_invI)
    have "set ?rs = set (timers q) - set ?es" by (auto simp: not_le)
    then have "act q ` set (timers q) - act q ` set ?es = act q ` set ?rs"
      using inj_on_image_set_diff [OF act_inj [OF inv], of "set (timers q)" "set ?es"] by auto
    then show "activeTimers ?q2 = act ?q2 ` set (timers ?q2)"
      using inv by (simp add: tq_inv_def act_def cong: image_cong)
    show "\<exists>t. heap ?q2 (snd e) = Some t \<and> expiration t = fst e \<and> snd e < UINTPTR_MAX \<and> snd e \<notin> set (map snd ?es)"
      if "e \<in> set (timers ?q2)" for e
    proof -
      have "snd e \<notin> snd ` set ?es"
      proof
        assume "snd e \<in> snd ` set ?es"
        then obtain e' where "e' \<in> set ?es" "snd e = snd e'" by auto
        then show False using that tq_addr_inj [OF inv, of e e'] by auto
      qed
      then show ?thesis using that tq_entry [OF inv, of e] by simp
    qed
  qed (use inv dsn in \<open>auto simp: tq_inv_def sorted_wrt_filter\<close>)
  have "getExpired q now = Some (?es, ?q2)"
    unfolding getExpired_def Let_def tw dw using tq_sizes [OF inv] tq_sizes [OF inv2] er hd by simp
  with inv2 show ?thesis by auto
qed

lemma addTime_ge: "0 \<le> s \<Longrightarrow> t \<le> addTime t s"
  by (cases t) (auto simp: addTime_def less_eq_Timestamp_def trunc_def kMicroSecondsPerSecond_def)

text \<open>What \<open>reset\<close> leaves of a timer that was run.\<close>

definition rearmed :: "timer_queue \<Rightarrow> timer_addr \<Rightarrow> Timestamp \<Rightarrow> Timer option" where
  "rearmed q a now = Option.bind (heap q a) (\<lambda>t.
     if repeat t \<and> (a, sequence t) \<notin> cancelingTimers q then Some (Timer_restart t now) else None)"

definition rearmed_entries :: "timer_addr list \<Rightarrow> Timestamp \<Rightarrow> timer_queue \<Rightarrow> entry set" where
  "rearmed_entries as now q = {(expiration t, a) | a t. a \<in> set as \<and> rearmed q a now = Some t}"

definition reset_post :: "timer_addr list \<Rightarrow> Timestamp \<Rightarrow> timer_queue \<Rightarrow> timer_queue \<Rightarrow> bool" where
  "reset_post as now q q' \<longleftrightarrow> tq_inv q' [] \<and> (invalid_ok q \<longrightarrow> invalid_ok q')
     \<and> callingExpiredTimers q' = callingExpiredTimers q
     \<and> (\<forall>a. heap q' a = (if a \<in> set as then rearmed q a now else heap q a))
     \<and> set (timers q') = set (timers q) \<union> rearmed_entries as now q"

lemma rearmed_entries_Cons:
  "rearmed_entries (a # as) now q = (case rearmed q a now of None \<Rightarrow> {} | Some t \<Rightarrow> {(expiration t, a)}) \<union> rearmed_entries as now q"
  by (auto simp: rearmed_entries_def split: option.splits)

lemma rearmed_entries_cong:
  "(\<And>a. a \<in> set as \<Longrightarrow> rearmed q' a now = rearmed q a now) \<Longrightarrow> rearmed_entries as now q' = rearmed_entries as now q"
  by (auto simp: rearmed_entries_def)

lemma reset_post_Cons:
  assumes post: "reset_post as now q1 q'" and a: "a \<notin> set as"
    and "heap q1 = (heap q)(a := rearmed q a now)"
    and "cancelingTimers q1 = cancelingTimers q" "callingExpiredTimers q1 = callingExpiredTimers q"
    and "invalid_ok q \<Longrightarrow> invalid_ok q1"
    and "set (timers q1) = set (timers q) \<union> rearmed_entries [a] now q"
  shows "reset_post (a # as) now q q'"
proof -
  have r: "rearmed q1 b now = rearmed q b now" if "b \<in> set as" for b
    using assms(3,4) a that by (auto simp: rearmed_def)
  have "heap q' b = (if b \<in> set (a # as) then rearmed q b now else heap q b)" for b
    using post assms(3) a r by (cases "b = a") (auto simp: reset_post_def)
  with post assms rearmed_entries_cong [OF r] show ?thesis
    by (auto simp: reset_post_def rearmed_entries_Cons [of a as] rearmed_entries_Cons [of a "[]"] rearmed_entries_def [of "[]"])
qed

lemma reset_loop_ok:
  assumes "tq_inv q (map snd es)" "Timestamp_valid now"
  shows "\<exists>q'. reset_loop q es now = Some q' \<and> reset_post (map snd es) now q q'"
  using assms(1)
proof (induction es arbitrary: q)
  case (Cons e es)
  obtain t where t: "heap q (snd e) = Some t" "snd e < UINTPTR_MAX" using Cons.prems by (auto simp: tq_inv_def)
  have ne: "snd e \<notin> snd ` set (timers q)" "snd e \<notin> set (map snd es)" using Cons.prems by (auto simp: tq_inv_def)
  show ?case
  proof (cases "repeat t \<and> (snd e, sequence t) \<notin> cancelingTimers q")
    case True
    let ?t = "Timer_restart t now"
    let ?q = "q\<lparr>heap := (heap q)(snd e \<mapsto> ?t)\<rparr>"
    have pos: "interval t > 0" using Cons.prems t True by (auto simp: tq_inv_def)
    have "tq_inv ?q (map snd es)"
      using Cons.prems ne t True pos
      by (intro tq_invI) (auto simp: tq_inv_def act_def image_iff Timer_restart_def intro!: image_cong split: if_splits)
    note ins = tq_insert_ok [OF this, of "snd e" ?t]
    let ?q1 = "?q\<lparr>timers := insort (expiration ?t, snd e) (timers q), activeTimers := insert (snd e, sequence ?t) (activeTimers q)\<rparr>"
    have q1: "\<exists>b. tq_insert ?q (snd e) = Some (b, ?q1)" "tq_inv ?q1 (map snd es)"
      using ins ne t by simp_all
    obtain q' where q': "reset_loop ?q1 es now = Some q'" "reset_post (map snd es) now ?q1 q'"
      using Cons.IH [OF q1(2)] by auto
    have "Timestamp_valid (expiration ?t)"
      using True valid_mono [OF assms(2) addTime_ge] pos by (simp add: Timer_restart_def)
    then have "invalid_ok ?q1" if "invalid_ok q" using that by (auto simp: invalid_ok_def set_insort_key)
    moreover have "rearmed q (snd e) now = Some ?t" using True t by (simp add: rearmed_def)
    ultimately have "reset_post (map snd (e # es)) now q q'"
      using reset_post_Cons [OF q'(2) ne(2), of q] by (simp add: set_insort_key rearmed_entries_def)
    with q' q1(1) t True show ?thesis by auto
  next
    case False
    let ?q1 = "q\<lparr>heap := (heap q)(snd e := None)\<rparr>"
    have "tq_inv ?q1 (map snd es)"
      using Cons.prems ne by (intro tq_invI) (auto simp: tq_inv_def act_def image_iff intro!: image_cong split: if_splits)
    then obtain q' where q': "reset_loop ?q1 es now = Some q'" "reset_post (map snd es) now ?q1 q'"
      using Cons.IH by auto
    have "rearmed q (snd e) now = None" using False t by (simp add: rearmed_def)
    then have "reset_post (map snd (e # es)) now q q'"
      using reset_post_Cons [OF q'(2) ne(2), of q] by (simp add: rearmed_entries_def invalid_ok_def)
    with q' t False show ?thesis by auto
  qed
qed (simp add: reset_post_def rearmed_entries_def)

definition tq_ok :: "timer_queue \<Rightarrow> bool" where
  "tq_ok q \<longleftrightarrow> tq_inv q [] \<and> alarm_ok q \<and> \<not> callingExpiredTimers q"

definition expired_at :: "timer_queue \<Rightarrow> Timestamp \<Rightarrow> entry list" where
  "expired_at q now = filter (\<lambda>e. fst e \<le> now) (timers q)"

definition callbacks_of :: "timer_queue \<Rightarrow> Timestamp \<Rightarrow> (timer_addr \<Rightarrow> timer_cmd list) \<Rightarrow> timer_cmd list" where
  "callbacks_of q now acts = concat (map (acts \<circ> snd) (expired_at q now))"

definition read_fresh :: "timer_queue \<Rightarrow> Timestamp \<Rightarrow> (timer_addr \<Rightarrow> timer_cmd list) \<Rightarrow> bool" where
  "read_fresh q now acts \<longleftrightarrow> Timestamp_valid now \<and>
     (case getExpired (readTimerfd q) now of None \<Rightarrow> True
      | Some (es, q1) \<Rightarrow> cmds_fresh (q1\<lparr>callingExpiredTimers := True, cancelingTimers := {}\<rparr>) (callbacks_of q now acts))"

lemma alarm_okI:
  assumes "tq_inv q []" "invalid_ok q" "Timestamp_valid (fst (hd (timers q))) \<Longrightarrow> timers q \<noteq> [] \<Longrightarrow> armed q = Some (fst (hd (timers q)))"
  shows "alarm_ok q"
  using assms by (cases "timers q") (auto simp: alarm_ok_def invalid_ok_def)

lemma tq_reset_ok:
  assumes inv: "tq_inv q (map snd es)" and now: "Timestamp_valid now" and bad: "invalid_ok q"
  shows "\<exists>q'. tq_reset q es now clock = Some q' \<and> reset_post (map snd es) now q q' \<and> alarm_ok q'"
proof -
  obtain q1 where q1: "reset_loop q es now = Some q1" "reset_post (map snd es) now q q1"
    using reset_loop_ok [OF inv now] by auto
  let ?n = "case timers q1 of [] \<Rightarrow> Timestamp_invalid | e # _ \<Rightarrow> fst e"
  let ?q2 = "if Timestamp_valid ?n then resetTimerfd q1 ?n clock else q1"
  have inv1: "tq_inv q1 []" "invalid_ok q1" using q1(2) bad by (auto simp: reset_post_def)
  then have n: "(case timers q1 of [] \<Rightarrow> Some Timestamp_invalid | e # _ \<Rightarrow> map_option expiration (heap q1 (snd e))) = Some ?n"
    by (auto simp: tq_inv_def split: list.splits)
  have inv2: "tq_inv ?q2 []" using inv1(1) by (auto simp: tq_inv_def act_def resetTimerfd_def)
  have le: "fst (hd (timers q1)) \<le> fst e" if "e \<in> set (timers q1)" for e
    using sorted_hd_le [of "timers q1" e] that inv1(1) by (auto simp: tq_inv_def less_eq_prod_def)
  have bad2: "invalid_ok ?q2"
    using inv1(2) le by (auto simp: invalid_ok_def resetTimerfd_def split: list.splits) blast
  have "alarm_ok ?q2"
    by (rule alarm_okI [OF inv2 bad2]) (auto simp: resetTimerfd_def split: list.splits)
  moreover have "reset_post (map snd es) now q ?q2"
    using q1(2) inv2 bad2 by (auto simp: reset_post_def resetTimerfd_def)
  moreover have "tq_reset q es now clock = Some ?q2"
    unfolding tq_reset_def q1(1) bind.simps n by simp
  ultimately show ?thesis by blast
qed

text \<open>Reading the \<open>timerfd\<close>: which timers run, and what becomes of every timer.\<close>

definition handleRead_post ::
    "timer_queue \<Rightarrow> Timestamp \<Rightarrow> (timer_addr \<Rightarrow> timer_cmd list) \<Rightarrow> timer_queue \<Rightarrow> bool" where
  "handleRead_post q now acts q' \<longleftrightarrow> tq_ok q'
     \<and> (\<forall>e\<in>set (expired_at q now).
          (if repeat (the (heap q (snd e))) \<and> Cmd_cancel (act q e) \<notin> set (callbacks_of q now acts)
           then heap q' (snd e) = Some (Timer_restart (the (heap q (snd e))) now)
             \<and> (addTime now (interval (the (heap q (snd e)))), snd e) \<in> set (timers q')
           else heap q' (snd e) = None \<and> snd e \<notin> snd ` set (timers q')))
     \<and> (\<forall>e\<in>set (timers q). now < fst e \<longrightarrow> Cmd_cancel (act q e) \<notin> set (callbacks_of q now acts) \<longrightarrow>
          e \<in> set (timers q') \<and> heap q' (snd e) = heap q (snd e))"

text \<open>The state \<open>q1\<close> when the callbacks start and \<open>q3\<close> when they are done.\<close>

lemma tq_handleRead_phases:
  assumes ok: "tq_ok q" and fresh: "read_fresh q now acts"
  obtains q1 q3 q' where "tq_handleRead q now acts clock = Some (map snd (expired_at q now), q')"
    "timers q1 = filter (\<lambda>e. now < fst e) (timers q)" "heap q1 = heap q"
    "callingExpiredTimers q1" "cancelingTimers q1 = {}"
    "cmds_keep (map snd (expired_at q now)) (callbacks_of q now acts) q1 q3"
    "reset_post (map snd (expired_at q now)) now (q3\<lparr>callingExpiredTimers := False\<rparr>) q'" "tq_ok q'"
proof -
  let ?es = "expired_at q now" and ?cs = "callbacks_of q now acts"
  have now: "Timestamp_valid now" using fresh by (simp add: read_fresh_def)
  have "tq_inv (readTimerfd q) []" using ok by (simp add: tq_ok_def readTimerfd_def)
  from getExpired_ok [OF this, of now] obtain q0 where q0: "getExpired (readTimerfd q) now = Some (?es, q0)"
    "tq_inv q0 (map snd ?es)" "timers q0 = filter (\<lambda>e. now < fst e) (timers q)" "heap q0 = heap q"
    by (auto simp: expired_at_def readTimerfd_def)
  define q1 where "q1 = q0\<lparr>callingExpiredTimers := True, cancelingTimers := {}\<rparr>"
  have inv1: "tq_inv q1 (map snd ?es)" using q0(2) by (simp add: q1_def)
  have bad1: "invalid_ok q1"
    using q0(3) valid_mono [OF now] by (auto simp: invalid_ok_def q1_def)
  obtain q3 where q3: "tq_cmds q1 ?cs = Some q3" "cmds_keep (map snd ?es) ?cs q1 q3"
    using tq_cmds_ok [OF inv1, of ?cs] fresh q0(1) by (auto simp: read_fresh_def q1_def)
  let ?q4 = "q3\<lparr>callingExpiredTimers := False\<rparr>"
  have inv4: "tq_inv ?q4 (map snd ?es)" "invalid_ok ?q4"
    using bad1 q3(2) by (simp_all add: cmds_keep_def)
  obtain q' where q': "tq_reset ?q4 ?es now clock = Some q'" "reset_post (map snd ?es) now ?q4 q'" "alarm_ok q'"
    using tq_reset_ok [OF inv4(1) now inv4(2)] by auto
  have "tq_ok q'" using q'(2,3) by (simp add: tq_ok_def reset_post_def)
  moreover have "tq_handleRead q now acts clock = Some (map snd ?es, q')"
    using q0(1) q3(1) q'(1) by (simp add: tq_handleRead_def run_expired_cmds callbacks_of_def q1_def)
  ultimately show ?thesis
    by (rule that [rotated -1]) (use q0 q3 q' in \<open>simp_all add: q1_def\<close>)
qed

lemma tq_handleRead_ok:
  assumes ok: "tq_ok q" and fresh: "read_fresh q now acts"
  shows "\<exists>q'. tq_handleRead q now acts clock = Some (map snd (expired_at q now), q') \<and> handleRead_post q now acts q'"
proof -
  let ?es = "expired_at q now" and ?cs = "callbacks_of q now acts"
  obtain q1 q3 q' where q: "tq_handleRead q now acts clock = Some (map snd ?es, q')"
    "timers q1 = filter (\<lambda>e. now < fst e) (timers q)" "heap q1 = heap q" "callingExpiredTimers q1" "cancelingTimers q1 = {}"
    and keep: "cmds_keep (map snd ?es) ?cs q1 q3"
    and post: "reset_post (map snd ?es) now (q3\<lparr>callingExpiredTimers := False\<rparr>) q'" and ok': "tq_ok q'"
    using tq_handleRead_phases [OF assms] .
  let ?q4 = "q3\<lparr>callingExpiredTimers := False\<rparr>"
  have held: "heap q3 a = heap q a \<and> (\<forall>s. (a, s) \<in> cancelingTimers q3 \<longleftrightarrow> Cmd_cancel (a, s) \<in> set ?cs)"
    if "a \<in> set (map snd ?es)" for a
    using keep that q(3-5) unfolding cmds_keep_def by simp blast
  have "if repeat (the (heap q (snd e))) \<and> Cmd_cancel (act q e) \<notin> set ?cs
      then heap q' (snd e) = Some (Timer_restart (the (heap q (snd e))) now)
        \<and> (addTime now (interval (the (heap q (snd e)))), snd e) \<in> set (timers q')
      else heap q' (snd e) = None \<and> snd e \<notin> snd ` set (timers q')" if e: "e \<in> set ?es" for e
  proof -
    obtain t where t: "heap q (snd e) = Some t" using e ok by (auto simp: tq_ok_def tq_inv_def expired_at_def)
    have ein: "snd e \<in> set (map snd ?es)" using e by simp
    then have r: "rearmed ?q4 (snd e) now = (if repeat t \<and> Cmd_cancel (act q e) \<notin> set ?cs then Some (Timer_restart t now) else None)"
      using held [of "snd e"] t by (auto simp: rearmed_def act_def)
    have h: "heap q' (snd e) = rearmed ?q4 (snd e) now" using post ein by (simp add: reset_post_def)
    have "snd e \<notin> snd ` set (timers q')" if "heap q' (snd e) = None"
      using that ok' by (force simp: tq_ok_def tq_inv_def)
    moreover have "(expiration u, snd e) \<in> set (timers q')" if "rearmed ?q4 (snd e) now = Some u" for u
      using that post ein by (auto simp: reset_post_def rearmed_entries_def)
    ultimately show ?thesis using r h t by (auto simp: Timer_restart_def)
  qed
  moreover have "e \<in> set (timers q') \<and> heap q' (snd e) = heap q (snd e)"
    if e: "e \<in> set (timers q)" "now < fst e" and c: "Cmd_cancel (act q e) \<notin> set ?cs" for e
  proof -
    have "e \<in> set (timers q1)" "act q1 e = act q e" using e q by (auto simp: act_def)
    then have k: "e \<in> set (timers ?q4)" "heap ?q4 (snd e) = heap q (snd e)"
      using keep c q(3) unfolding cmds_keep_def by auto
    moreover have "snd e \<notin> set (map snd ?es)" using k keep by (auto simp: cmds_keep_def tq_inv_def)
    ultimately show ?thesis using post by (simp add: reset_post_def)
  qed
  ultimately have "handleRead_post q now acts q'"
    using ok' by (auto simp: handleRead_post_def)
  with q(1) show ?thesis by blast
qed

section \<open>Runs of the queue\<close>

datatype timer_event = Ev_cmd timer_cmd | Ev_read Timestamp "timer_addr \<Rightarrow> timer_cmd list" Timestamp

fun tq_event :: "timer_queue \<Rightarrow> timer_event \<Rightarrow> timer_queue option" where
  "tq_event q (Ev_cmd c) = tq_cmd q c"
| "tq_event q (Ev_read now acts clock) = map_option snd (tq_handleRead q now acts clock)"

fun tq_events :: "timer_queue \<Rightarrow> timer_event list \<Rightarrow> timer_queue option" where
  "tq_events q [] = Some q"
| "tq_events q (v # vs) = do { q \<leftarrow> tq_event q v; tq_events q vs }"

fun ev_fresh :: "timer_queue \<Rightarrow> timer_event \<Rightarrow> bool" where
  "ev_fresh q (Ev_cmd c) = cmd_fresh q c"
| "ev_fresh q (Ev_read now acts clock) = read_fresh q now acts"

fun evs_fresh :: "timer_queue \<Rightarrow> timer_event list \<Rightarrow> bool" where
  "evs_fresh q [] = True"
| "evs_fresh q (v # vs) = (ev_fresh q v \<and> (case tq_event q v of None \<Rightarrow> True | Some q' \<Rightarrow> evs_fresh q' vs))"

lemma tq_event_ok:
  assumes "tq_ok q" "ev_fresh q v"
  shows "\<exists>q'. tq_event q v = Some q' \<and> tq_ok q'"
proof (cases v)
  case (Ev_cmd c)
  then show ?thesis using assms tq_cmd_ok [of q "[]" c] by (auto simp: tq_ok_def cmds_keep_def)
next
  case (Ev_read now acts clock)
  then show ?thesis
    using assms tq_handleRead_ok [of q now acts clock] by (auto simp: handleRead_post_def)
qed

lemma tq_events_ok: "tq_ok q \<Longrightarrow> evs_fresh q vs \<Longrightarrow> \<exists>q'. tq_events q vs = Some q' \<and> tq_ok q'"
proof (induction vs arbitrary: q)
  case (Cons v vs)
  then obtain q1 where "tq_event q v = Some q1" "tq_ok q1" using tq_event_ok [of q v] by auto
  with Cons show ?case by auto
qed simp

lemma tq_ok_new: "tq_ok TimerQueue_new"
  by (simp add: tq_ok_def tq_inv_def alarm_ok_def TimerQueue_new_def)


text \<open>What becomes of an entry of \<open>timers_\<close> when the \<open>timerfd\<close> is read.\<close>

definition timer_fate :: "timer_queue \<Rightarrow> Timestamp \<Rightarrow> (timer_addr \<Rightarrow> timer_cmd list) \<Rightarrow> timer_queue \<Rightarrow> entry \<Rightarrow> bool" where
  "timer_fate q now acts q' e = (case e of (t, a) \<Rightarrow>
     \<exists>tm. heap q a = Some tm \<and>
         (let cancelled = (Cmd_cancel (a, sequence tm) \<in> set (callbacks_of q now acts))
          in if t \<le> now
             then (if repeat tm \<and> \<not> cancelled
                   then heap q' a = Some (tm\<lparr>expiration := addTime now (interval tm)\<rparr>)
                     \<and> (addTime now (interval tm), a) \<in> set (timers q')
                   else heap q' a = None \<and> a \<notin> snd ` set (timers q'))
             else \<not> cancelled \<longrightarrow> heap q' a = Some tm \<and> (t, a) \<in> set (timers q')))"

text \<open>
  C18: Reading the \<open>timerfd\<close> runs exactly the timers that are due, in order of expiration. Whatever the
  callbacks do, a repeating timer that no callback cancelled is then due again one interval later, every
  other timer that was run is gone and deleted, and a timer that was not due stays as it was unless a
  callback cancelled it.
\<close>

theorem timer_handleRead:
  assumes "evs_fresh TimerQueue_new vs" "tq_events TimerQueue_new vs = Some q"
    and "read_fresh q now acts"
  shows "\<exists>q'. tq_handleRead q now acts clock = Some (map snd (filter (\<lambda>e. fst e \<le> now) (timers q)), q')
    \<and> (\<forall>e\<in>set (timers q). timer_fate q now acts q' e)"
proof -
  have ok: "tq_ok q" using tq_events_ok [OF tq_ok_new assms(1)] assms(2) by simp
  obtain q' where q': "tq_handleRead q now acts clock = Some (map snd (expired_at q now), q')"
    and post: "handleRead_post q now acts q'"
    using tq_handleRead_ok [OF ok assms(3)] by blast
  have "timer_fate q now acts q' (t, a)"
    if e: "(t, a) \<in> set (timers q)" for t a
  proof -
    obtain tm where tm: "heap q a = Some tm" using ok e by (force simp: tq_ok_def tq_inv_def)
    then have act: "act q (t, a) = (a, sequence tm)" by (simp add: act_def)
    show ?thesis
    proof (cases "t \<le> now")
      case True
      then have "(t, a) \<in> set (expired_at q now)" using e by (simp add: expired_at_def)
      from bspec [OF conjunct1 [OF conjunct2 [OF post [unfolded handleRead_post_def]]] this]
      show ?thesis using True tm by (auto simp: timer_fate_def act Timer_restart_def Let_def split: if_splits)
    next
      case False
      then have "now < t" by simp
      with post e tm act False show ?thesis by (force simp: timer_fate_def handleRead_post_def Let_def)
    qed
  qed
  with q' show ?thesis by (auto simp: expired_at_def)
qed

lemma howMuchTimeFromNow_bounds:
  "case howMuchTimeFromNow w now of (tv_sec, tv_nsec) \<Rightarrow>
     0 \<le> tv_sec \<and> 0 \<le> tv_nsec \<and> tv_nsec < 1000000000
     \<and> tv_sec * 1000000 + tv_nsec div 1000 = max 100 (microSecondsSinceEpoch w - microSecondsSinceEpoch now)"
  by (auto simp: howMuchTimeFromNow_def Let_def kMicroSecondsPerSecond_def c_div_nonneg c_mod_nonneg)

definition sample_events :: "timer_event list" where
  "sample_events = [Ev_cmd (Cmd_add 1 (Timestamp 1000000) 2 (Timestamp 5)),
     Ev_cmd (Cmd_add 2 (Timestamp 3000000) 0 (Timestamp 6))]"

definition sample_queue :: timer_queue where
  "sample_queue = \<lparr>heap = [1 \<mapsto> Timer_new (Timestamp 1000000) 2 1, 2 \<mapsto> Timer_new (Timestamp 3000000) 0 2],
     timers = [(Timestamp 1000000, 1), (Timestamp 3000000, 2)], callingExpiredTimers = False,
     activeTimers = {(1, 1), (2, 2)}, cancelingTimers = {}, numCreated = 2,
     armed = Some (Timestamp 1000000), alarm = (0, 999995000)\<rparr>"

lemmas tq_eval = UINTPTR_MAX_def TimerQueue_new_def Timer_new_def tq_addTimer_def addTimerInLoop_def tq_insert_def
  resetTimerfd_def readTimerfd_def less_Timestamp_def Timestamp_less_def less_eq_Timestamp_def howMuchTimeFromNow_def kMicroSecondsPerSecond_def
  getExpired_def Timestamp_valid_def

lemma sample_run: "tq_events TimerQueue_new sample_events = Some sample_queue \<and> evs_fresh TimerQueue_new sample_events"
  by (simp add: sample_events_def sample_queue_def tq_eval Let_def c_div_nonneg c_mod_nonneg insert_commute)


lemma sample_fresh: "read_fresh sample_queue (Timestamp 1000000) (\<lambda>a. [Cmd_cancel (a, 1), Cmd_add 3 (Timestamp 7) 0 (Timestamp 8)])"
  by (simp add: read_fresh_def sample_queue_def tq_eval Let_def callbacks_of_def expired_at_def cancelInLoop_def less_prod_def)

theorem timer_handleRead_witness:
  "\<exists>q'. tq_handleRead sample_queue (Timestamp 1000000) (\<lambda>a. [Cmd_cancel (a, 1), Cmd_add 3 (Timestamp 7) 0 (Timestamp 8)]) (Timestamp 9)
      = Some ([1], q') \<and> heap q' 1 = None \<and> (Timestamp 3000000, 2) \<in> set (timers q')"
  using timer_handleRead [of sample_events sample_queue _ _ "Timestamp 9", OF _ _ sample_fresh] sample_run
  by (auto simp: sample_queue_def timer_fate_def callbacks_of_def expired_at_def Timer_new_def less_eq_Timestamp_def)

end
