(* ===== verification/EventLoop.thy ===== *)
theory EventLoop
  imports Poller TimerQueue "HOL-Library.Sublist"
begin

text \<open>
  \<open>EventLoop\<close> (\<open>src/EventLoop.h\<close>, \<open>src/EventLoop.cc\<close>): the members of a loop and its operations, over
  \<open>Poller\<close> and \<open>TimerQueue\<close>, and the steps of the loop thread and of the threads that call
  \<open>queueInLoop\<close>, \<open>runInLoop\<close> and \<open>quit\<close>, interleaved at the mutex, the \<open>eventfd\<close> and the two flags.
  A functor is a value whose effect on the loop is the list of calls it makes.
\<close>

section \<open>Operations\<close>

record 'f event_loop =
  looping :: bool
  quit :: bool
  callingPendingFunctors :: bool
  threadId :: int
  loop_poller :: poller
  timerQueue :: timer_queue
  wakeupFd :: nat
  wakeupChannel :: addr
  pendingFunctors :: "'f list"

text \<open>
  The constructor does not initialise \<open>quit_\<close> and \<open>callingPendingFunctors_\<close>: their values are arguments,
  as are the descriptors and the addresses of the two channels. A second loop in a thread is fatal.
\<close>

definition EventLoop_new ::
    "bool \<Rightarrow> int \<Rightarrow> bool \<Rightarrow> bool \<Rightarrow> int \<Rightarrow> addr \<Rightarrow> int \<Rightarrow> addr \<Rightarrow> 'f event_loop option" where
  "EventLoop_new t_loopInThisThread tid quit0 calling0 timerfd timerfdChannel wfd wch = do {
     let w = Poller_new;
     w \<leftarrow> enableReading (w\<lparr>chans := (chans w)(timerfdChannel \<mapsto> Channel_new timerfd)\<rparr>) timerfdChannel;
     ensure (wfd \<ge> 0);
     ensure (\<not> t_loopInThisThread);
     w \<leftarrow> enableReading (w\<lparr>chans := (chans w)(wch \<mapsto> Channel_new wfd)\<rparr>) wch;
     Some \<lparr>looping = False, quit = quit0, callingPendingFunctors = calling0, threadId = tid,
           loop_poller = w, timerQueue = TimerQueue_new, wakeupFd = 0, wakeupChannel = wch,
           pendingFunctors = []\<rparr>
   }"

definition EventLoop_dtor :: "('f, 'z) event_loop_scheme \<Rightarrow> unit option" where
  "EventLoop_dtor l = ensure (\<not> looping l)"

definition isInLoopThread :: "('f, 'z) event_loop_scheme \<Rightarrow> int \<Rightarrow> bool" where
  "isInLoopThread l tid \<longleftrightarrow> threadId l = tid"

definition assertInLoopThread :: "('f, 'z) event_loop_scheme \<Rightarrow> int \<Rightarrow> unit option" where
  "assertInLoopThread l tid = ensure (isInLoopThread l tid)"

text \<open>The \<open>eventfd\<close> is a 64-bit counter; a write that would exceed its maximum fails and is logged.\<close>

definition wakeup :: "('f, 'z) event_loop_scheme \<Rightarrow> ('f, 'z) event_loop_scheme" where
  "wakeup l = (if wakeupFd l + 1 \<le> 2 ^ 64 - 2 then l\<lparr>wakeupFd := wakeupFd l + 1\<rparr> else l)"

definition EventLoop_handleRead :: "('f, 'z) event_loop_scheme \<Rightarrow> ('f, 'z) event_loop_scheme" where
  "EventLoop_handleRead l = l\<lparr>wakeupFd := 0\<rparr>"

definition quit_call :: "('f, 'z) event_loop_scheme \<Rightarrow> int \<Rightarrow> ('f, 'z) event_loop_scheme" where
  "quit_call l tid =
     (let l = l\<lparr>quit := True\<rparr> in if \<not> isInLoopThread l tid then wakeup l else l)"

definition push_functor :: "('f, 'z) event_loop_scheme \<Rightarrow> 'f \<Rightarrow> ('f, 'z) event_loop_scheme" where
  "push_functor l f = l\<lparr>pendingFunctors := pendingFunctors l @ [f]\<rparr>"

definition queueInLoop :: "('f, 'z) event_loop_scheme \<Rightarrow> int \<Rightarrow> 'f \<Rightarrow> ('f, 'z) event_loop_scheme" where
  "queueInLoop l tid f =
     (let l = push_functor l f
      in if \<not> isInLoopThread l tid \<or> callingPendingFunctors l then wakeup l else l)"

text \<open>\<open>runInLoop\<close>: \<open>Some f\<close> says that the call runs \<open>f\<close> itself.\<close>

definition runInLoop :: "('f, 'z) event_loop_scheme \<Rightarrow> int \<Rightarrow> 'f \<Rightarrow> 'f option \<times> ('f, 'z) event_loop_scheme" where
  "runInLoop l tid f = (if isInLoopThread l tid then (Some f, l) else (None, queueInLoop l tid f))"

definition EventLoop_updateChannel :: "('f, 'z) event_loop_scheme \<Rightarrow> int \<Rightarrow> addr \<Rightarrow> ('f, 'z) event_loop_scheme option" where
  "EventLoop_updateChannel l tid ch = do {
     assertInLoopThread l tid;
     w \<leftarrow> Poller_updateChannel (loop_poller l) ch;
     Some (l\<lparr>loop_poller := w\<rparr>)
   }"

definition EventLoop_removeChannel :: "('f, 'z) event_loop_scheme \<Rightarrow> int \<Rightarrow> addr \<Rightarrow> ('f, 'z) event_loop_scheme option" where
  "EventLoop_removeChannel l tid ch = do {
     assertInLoopThread l tid;
     w \<leftarrow> Poller_removeChannel (loop_poller l) ch;
     Some (l\<lparr>loop_poller := w\<rparr>)
   }"

text \<open>
  \<open>addTimer\<close> called through the loop: the timer is made in the calling thread and put into the queue by
  the loop thread, at once or with the functor \<open>addTimerInLoop timer\<close>.
\<close>

definition loop_addTimer ::
    "('f, 'z) event_loop_scheme \<Rightarrow> int \<Rightarrow> (timer_addr \<Rightarrow> 'f) \<Rightarrow> timer_addr \<Rightarrow> Timestamp \<Rightarrow> rat \<Rightarrow> Timestamp
       \<Rightarrow> (active_timer \<times> ('f, 'z) event_loop_scheme) option" where
  "loop_addTimer l tid bind_add timer when intv clock = do {
     let q = timerQueue l;
     let seq = numCreated q + 1;
     let q = q\<lparr>numCreated := seq, heap := (heap q)(timer \<mapsto> Timer_new when intv seq)\<rparr>;
     if isInLoopThread l tid then do {
       q \<leftarrow> addTimerInLoop q timer clock;
       Some ((timer, seq), l\<lparr>timerQueue := q\<rparr>)
     }
     else Some ((timer, seq), queueInLoop (l\<lparr>timerQueue := q\<rparr>) tid (bind_add timer))
   }"

definition runAt ::
    "('f, 'z) event_loop_scheme \<Rightarrow> int \<Rightarrow> (timer_addr \<Rightarrow> 'f) \<Rightarrow> timer_addr \<Rightarrow> Timestamp \<Rightarrow> Timestamp
       \<Rightarrow> (active_timer \<times> ('f, 'z) event_loop_scheme) option" where
  "runAt l tid bind_add timer time clock = loop_addTimer l tid bind_add timer time 0 clock"

definition runAfter ::
    "('f, 'z) event_loop_scheme \<Rightarrow> int \<Rightarrow> (timer_addr \<Rightarrow> 'f) \<Rightarrow> timer_addr \<Rightarrow> rat \<Rightarrow> Timestamp
       \<Rightarrow> (active_timer \<times> ('f, 'z) event_loop_scheme) option" where
  "runAfter l tid bind_add timer delay now = runAt l tid bind_add timer (addTime now delay) now"

definition runEvery ::
    "('f, 'z) event_loop_scheme \<Rightarrow> int \<Rightarrow> (timer_addr \<Rightarrow> 'f) \<Rightarrow> timer_addr \<Rightarrow> rat \<Rightarrow> Timestamp
       \<Rightarrow> (active_timer \<times> ('f, 'z) event_loop_scheme) option" where
  "runEvery l tid bind_add timer intv now = loop_addTimer l tid bind_add timer (addTime now intv) intv now"

text \<open>The body of \<open>cancel\<close> is commented out.\<close>

definition EventLoop_cancel :: "('f, 'z) event_loop_scheme \<Rightarrow> active_timer \<Rightarrow> ('f, 'z) event_loop_scheme" where
  "EventLoop_cancel l timerId = l"

section \<open>The loop thread and the others\<close>

datatype 'f cmd = Queue 'f | Run 'f | Quit
datatype 'f active = Wakeup_active | Other_active "'f cmd list"

text \<open>
  Where the loop thread is: outside \<open>loop\<close>, at the test of \<open>quit_\<close>, in \<open>poll\<close>, in the handlers of the
  active channels, before the swap in \<open>doPendingFunctors\<close>, or in its functors. Handlers and functors
  carry the calls they still have to make.
\<close>

datatype 'f loop_pc = Idle | Test | Polling | Handling "'f active list" "'f cmd list" | Swapping
  | Calling "'f list" "'f cmd list"

text \<open>
  \<open>waking\<close> counts the other threads that have queued a functor or set \<open>quit_\<close> and have not yet written
  to the \<open>eventfd\<close>. \<open>queued\<close> and \<open>executed\<close> are the functors ever queued and run from the queue, in
  order, \<open>iteration\<close> the passes of the loop; \<open>early\<close> says that the loop thread has itself queued a
  functor outside \<open>loop\<close>.
\<close>

record 'f loop_run = "'f event_loop" +
  pc :: "'f loop_pc"
  waking :: nat
  queued :: "'f list"
  executed :: "'f list"
  iteration :: nat
  early :: bool

definition loop_init :: "'f event_loop \<Rightarrow> 'f loop_run" where
  "loop_init l = event_loop.extend l
     \<lparr>pc = Idle, waking = 0, queued = [], executed = [], iteration = 0, early = False\<rparr>"

text \<open>A call made in the loop thread; \<open>Run\<close> continues with the calls of the functor.\<close>

fun loop_cmd :: "('f \<Rightarrow> 'f cmd list) \<Rightarrow> 'f loop_run \<Rightarrow> 'f cmd \<Rightarrow> 'f loop_run \<times> 'f cmd list" where
  "loop_cmd body s (Queue f) = ((queueInLoop s (threadId s) f)\<lparr>queued := queued s @ [f]\<rparr>, [])"
| "loop_cmd body s (Run f) =
     (case runInLoop s (threadId s) f of (Some g, s) \<Rightarrow> (s, body g) | (None, s) \<Rightarrow> (s, []))"
| "loop_cmd body s Quit = (quit_call s (threadId s), [])"

text \<open>\<open>doPendingFunctors\<close>: the flag is set, the functors are taken under the mutex and called, the flag is reset.\<close>

definition start_pending :: "'f loop_run \<Rightarrow> 'f loop_run" where
  "start_pending s = s\<lparr>callingPendingFunctors := True, pc := Swapping\<rparr>"

definition take_pending :: "'f loop_run \<Rightarrow> 'f loop_run" where
  "take_pending s = s\<lparr>pendingFunctors := [], pc := Calling (pendingFunctors s) []\<rparr>"

definition end_pending :: "'f loop_run \<Rightarrow> 'f loop_run" where
  "end_pending s = s\<lparr>callingPendingFunctors := False, iteration := iteration s + 1, pc := Test\<rparr>"

lemmas pending_defs [simp] = start_pending_def take_pending_def end_pending_def

inductive step :: "('f \<Rightarrow> 'f cmd list) \<Rightarrow> 'f loop_run \<Rightarrow> 'f loop_run \<Rightarrow> bool"
  for body :: "'f \<Rightarrow> 'f cmd list" where
  idle: "pc s = Idle \<Longrightarrow> loop_cmd body s c = (s', cs) \<Longrightarrow>
     step body s (s'\<lparr>early := early s' \<or> queued s' \<noteq> queued s\<rparr>)"
| loop: "pc s = Idle \<Longrightarrow> \<not> looping s \<Longrightarrow> step body s (s\<lparr>looping := True, quit := False, pc := Test\<rparr>)"
| leave: "pc s = Test \<Longrightarrow> quit s \<Longrightarrow> step body s (s\<lparr>looping := False, pc := Idle\<rparr>)"
| enter: "pc s = Test \<Longrightarrow> \<not> quit s \<Longrightarrow> step body s (s\<lparr>pc := Polling\<rparr>)"
| poll: "pc s = Polling \<Longrightarrow> (Wakeup_active \<in> set as) = (0 < wakeupFd s) \<Longrightarrow> step body s (s\<lparr>pc := Handling as []\<rparr>)"
| handle_wakeup: "pc s = Handling (Wakeup_active # as) [] \<Longrightarrow>
     step body s ((EventLoop_handleRead s)\<lparr>pc := Handling as []\<rparr>)"
| handle_other: "pc s = Handling (Other_active cs # as) [] \<Longrightarrow> step body s (s\<lparr>pc := Handling as cs\<rparr>)"
| handle_cmd: "pc s = Handling as (c # cs) \<Longrightarrow> loop_cmd body s c = (s', ds) \<Longrightarrow>
     step body s (s'\<lparr>pc := Handling as (ds @ cs)\<rparr>)"
| pending: "pc s = Handling [] [] \<Longrightarrow> step body s (start_pending s)"
| swap: "pc s = Swapping \<Longrightarrow> step body s (take_pending s)"
| call: "pc s = Calling (f # fs) [] \<Longrightarrow> step body s (s\<lparr>executed := executed s @ [f], pc := Calling fs (body f)\<rparr>)"
| call_cmd: "pc s = Calling fs (c # cs) \<Longrightarrow> loop_cmd body s c = (s', ds) \<Longrightarrow>
     step body s (s'\<lparr>pc := Calling fs (ds @ cs)\<rparr>)"
| called: "pc s = Calling [] [] \<Longrightarrow>
     step body s (end_pending s)"
| other_queue: "step body s ((push_functor s f)\<lparr>queued := queued s @ [f], waking := waking s + 1\<rparr>)"
| other_quit: "step body s (s\<lparr>quit := True, waking := waking s + 1\<rparr>)"
| other_wakeup: "0 < waking s \<Longrightarrow> step body s ((wakeup s)\<lparr>waking := waking s - 1\<rparr>)"

inductive steps :: "('f \<Rightarrow> 'f cmd list) \<Rightarrow> 'f loop_run \<Rightarrow> 'f loop_run \<Rightarrow> bool"
  for body :: "'f \<Rightarrow> 'f cmd list" where
  refl: "steps body s s"
| snoc: "steps body s s' \<Longrightarrow> step body s' s'' \<Longrightarrow> steps body s s''"

lemma steps_trans: "steps body s' s'' \<Longrightarrow> steps body s s' \<Longrightarrow> steps body s s''"
  by (induction rule: steps.induct) (auto intro: steps.intros)

section \<open>Invariant\<close>

fun functors_left :: "'f loop_pc \<Rightarrow> 'f list" where
  "functors_left (Calling fs cs) = fs"
| "functors_left p = []"

text \<open>The loop thread is between reading the \<open>eventfd\<close> and taking the functors.\<close>

fun before_swap :: "'f loop_pc \<Rightarrow> bool" where
  "before_swap (Handling as cs) = True"
| "before_swap Swapping = True"
| "before_swap p = False"

definition woken :: "'f loop_run \<Rightarrow> bool" where
  "woken s \<longleftrightarrow> 0 < wakeupFd s \<or> 0 < waking s"

definition loop_inv :: "'f loop_run \<Rightarrow> bool" where
  "loop_inv s \<longleftrightarrow> queued s = executed s @ functors_left (pc s) @ pendingFunctors s
     \<and> looping s = (pc s \<noteq> Idle)
     \<and> (pendingFunctors s \<noteq> [] \<longrightarrow> \<not> before_swap (pc s) \<longrightarrow> woken s \<or> early s)
     \<and> (pc s = Polling \<longrightarrow> quit s \<longrightarrow> woken s)
     \<and> (functors_left (pc s) \<noteq> [] \<or> (\<exists>fs cs. pc s = Calling fs cs) \<or> pc s = Swapping \<longrightarrow> callingPendingFunctors s)"

lemma wakeup_simps [simp]:
  "looping (wakeup l) = looping l" "quit (wakeup l) = quit l" "callingPendingFunctors (wakeup l) = callingPendingFunctors l"
  "threadId (wakeup l) = threadId l" "pendingFunctors (wakeup l) = pendingFunctors l" "0 < wakeupFd (wakeup l)"
  "event_loop.more (wakeup l) = event_loop.more l"
  by (simp_all add: wakeup_def)

lemma wakeup_run_simps [simp]:
  "pc (wakeup s) = pc s" "waking (wakeup s) = waking s" "queued (wakeup s) = queued s"
  "executed (wakeup s) = executed s" "iteration (wakeup s) = iteration s" "early (wakeup s) = early s"
  for s :: "'f loop_run"
  by (simp_all add: wakeup_def)

text \<open>What a call in the loop thread changes.\<close>

lemma loop_cmd_effect:
  assumes "loop_cmd body s c = (s', ds)"
  shows "executed s' = executed s \<and> pc s' = pc s \<and> waking s' = waking s \<and> looping s' = looping s
    \<and> iteration s' = iteration s \<and> early s' = early s \<and> threadId s' = threadId s
    \<and> callingPendingFunctors s' = callingPendingFunctors s \<and> wakeupFd s \<le> wakeupFd s'
    \<and> (\<exists>fs. pendingFunctors s' = pendingFunctors s @ fs \<and> queued s' = queued s @ fs
         \<and> (fs \<noteq> [] \<longrightarrow> callingPendingFunctors s \<longrightarrow> 0 < wakeupFd s'))"
  using assms
  by (cases c) (auto simp: queueInLoop_def push_functor_def isInLoopThread_def runInLoop_def quit_call_def Let_def wakeup_def split: if_splits)

lemma step_inv: "step body s s' \<Longrightarrow> loop_inv s \<Longrightarrow> loop_inv s'"
proof (induction rule: step.induct)
  case (idle s c s' cs)
  then show ?case using loop_cmd_effect [OF idle(2)] by (auto simp: loop_inv_def woken_def)
next
  case (handle_cmd s as c cs s' ds)
  then show ?case using loop_cmd_effect [OF handle_cmd(2)] by (auto simp: loop_inv_def woken_def)
next
  case (call_cmd s fs c cs s' ds)
  then show ?case using loop_cmd_effect [OF call_cmd(2)] by (auto simp: loop_inv_def woken_def)
next
  case (other_wakeup s)
  then show ?case by (auto simp: loop_inv_def woken_def)
qed (auto simp: loop_inv_def woken_def EventLoop_handleRead_def push_functor_def)

lemma loop_inv_init: "\<not> looping l \<Longrightarrow> pendingFunctors l = [] \<Longrightarrow> loop_inv (loop_init l)"
  by (simp add: loop_inv_def loop_init_def event_loop.defs)

lemma EventLoop_new_fresh:
  "EventLoop_new t tid q c tfd ta wfd wa = Some l \<Longrightarrow> \<not> looping l \<and> pendingFunctors l = [] \<and> threadId l = tid"
  by (auto simp: EventLoop_new_def Let_def split: bind_splits)

definition reachable :: "('f \<Rightarrow> 'f cmd list) \<Rightarrow> 'f loop_run \<Rightarrow> bool" where
  "reachable body s \<longleftrightarrow> (\<exists>t tid q c tfd ta wfd wa l.
     EventLoop_new t tid q c tfd ta wfd wa = Some l \<and> steps body (loop_init l) s)"

lemma steps_inv: "steps body s s' \<Longrightarrow> loop_inv s \<Longrightarrow> loop_inv s'"
  by (induction rule: steps.induct) (auto intro: step_inv)

lemma reachable_inv: "reachable body s \<Longrightarrow> loop_inv s"
  unfolding reachable_def using steps_inv loop_inv_init EventLoop_new_fresh by blast

lemma reachable_steps: "reachable body s \<Longrightarrow> steps body s s' \<Longrightarrow> reachable body s'"
  unfolding reachable_def using steps_trans by blast

section \<open>Passes of the loop\<close>

text \<open>What is known, after a state in \<open>poll\<close> with \<open>q\<close> queued and \<open>n\<close> passes, of the states that follow.\<close>

definition pass_inv :: "'f list \<Rightarrow> nat \<Rightarrow> 'f loop_run \<Rightarrow> bool" where
  "pass_inv q n s \<longleftrightarrow> (if n < iteration s then prefix q (executed s)
     else iteration s = n \<and> (case pc s of
         Idle \<Rightarrow> False | Test \<Rightarrow> False
       | Calling fs cs \<Rightarrow> prefix q (executed s @ fs)
       | _ \<Rightarrow> prefix q (queued s)))"

lemma step_pass: "step body s s' \<Longrightarrow> loop_inv s \<Longrightarrow> pass_inv q n s \<Longrightarrow> pass_inv q n s'"
proof (induction rule: step.induct)
  case (idle s c s' cs)
  then show ?case using loop_cmd_effect [OF idle(2)] by (auto simp: pass_inv_def split: if_splits)
next
  case (handle_cmd s as c cs s' ds)
  then show ?case using loop_cmd_effect [OF handle_cmd(2)] by (auto simp: pass_inv_def split: if_splits)
next
  case (call_cmd s fs c cs s' ds)
  then show ?case using loop_cmd_effect [OF call_cmd(2)] by (auto simp: pass_inv_def split: if_splits)
next
  case (other_queue s f)
  then show ?case by (auto simp: pass_inv_def push_functor_def split: if_splits loop_pc.splits)
qed (auto simp: pass_inv_def loop_inv_def EventLoop_handleRead_def push_functor_def split: if_splits loop_pc.splits)

lemma steps_pass:
  assumes "steps body s s'" "loop_inv s" "pc s = Polling"
  shows "pass_inv (queued s) (iteration s) s'"
  using assms
proof (induction rule: steps.induct)
  case (refl s)
  then show ?case by (simp add: pass_inv_def)
next
  case (snoc s s' s'')
  then show ?case using step_pass steps_inv by blast
qed

text \<open>The loop thread gets through its calls when calls by \<open>runInLoop\<close> are not nested without end.\<close>

definition ranked :: "('f \<Rightarrow> nat) \<Rightarrow> ('f \<Rightarrow> 'f cmd list) \<Rightarrow> bool" where
  "ranked rank body \<longleftrightarrow> (\<forall>f g. Run g \<in> set (body f) \<longrightarrow> rank g < rank f)"

lemma loop_cmd_rank:
  assumes "ranked rank body" "loop_cmd body s c = (s', ds)" "Run g \<in> set ds"
  shows "\<exists>f. c = Run f \<and> rank g < rank f"
  using assms by (cases c) (auto simp: ranked_def runInLoop_def isInLoopThread_def)

lemma finish_cmds:
  assumes "ranked rank body"
    and at: "\<And>s c cs s' ds. pc s = P (c # cs) \<Longrightarrow> loop_cmd body s c = (s', ds) \<Longrightarrow> step body s (s'\<lparr>pc := P (ds @ cs)\<rparr>)"
  shows "pc s = P (cs @ rest) \<Longrightarrow> (\<And>f. Run f \<in> set cs \<Longrightarrow> rank f < n) \<Longrightarrow>
    \<exists>s'. steps body s s' \<and> pc s' = P rest \<and> iteration s' = iteration s"
proof (induction n arbitrary: s cs rest rule: less_induct)
  case (less n)
  from less.prems show ?case
  proof (induction cs arbitrary: s)
    case Nil
    then show ?case using steps.refl by fastforce
  next
    case (Cons c cs)
    obtain s1 ds where c: "loop_cmd body s c = (s1, ds)" by (cases "loop_cmd body s c")
    let ?s1 = "s1\<lparr>pc := P (ds @ cs @ rest)\<rparr>"
    have st: "step body s ?s1" using at [of s c "cs @ rest", OF _ c] Cons.prems(1) by simp
    have it: "iteration ?s1 = iteration s" using loop_cmd_effect [OF c] by simp
    have "\<exists>s2. steps body ?s1 s2 \<and> pc s2 = P (cs @ rest) \<and> iteration s2 = iteration ?s1"
    proof (cases "ds = []")
      case True
      then show ?thesis using steps.refl by fastforce
    next
      case False
      then obtain f where f: "c = Run f" using c by (cases c) auto
      then have "rank f < n" using Cons.prems(2) by simp
      moreover have "rank g < rank f" if "Run g \<in> set ds" for g using loop_cmd_rank [OF assms(1) c that] f by auto
      ultimately show ?thesis using less.IH [of "rank f" ?s1 ds "cs @ rest"] by simp
    qed
    then obtain s2 where s2: "steps body ?s1 s2" "pc s2 = P (cs @ rest)" "iteration s2 = iteration s" using it by auto
    then obtain s3 where "steps body s2 s3" "pc s3 = P rest" "iteration s3 = iteration s"
      using Cons.IH [of s2] Cons.prems(2) by auto
    moreover have "steps body s s2" using steps_trans [OF s2(1)] steps.snoc [OF steps.refl st] by blast
    ultimately show ?case using steps_trans by blast
  qed
qed

lemma rank_bound: "\<exists>n. \<forall>f. Run f \<in> set cs \<longrightarrow> rank f < (n :: nat)"
proof (induction cs)
  case (Cons c cs)
  then obtain n where "\<forall>f. Run f \<in> set cs \<longrightarrow> rank f < n" by auto
  then show ?case by (cases c) (auto intro!: exI [of _ "n + (case c of Run f \<Rightarrow> Suc (rank f) | _ \<Rightarrow> 0)"] simp: trans_less_add1)
qed simp

lemma finish_functors:
  assumes "ranked rank body"
  shows "pc s = Calling fs cs \<Longrightarrow> \<exists>s'. steps body s s' \<and> pc s' = Calling [] [] \<and> iteration s' = iteration s"
proof (induction fs arbitrary: s cs)
  case Nil
  obtain n where "\<And>f. Run f \<in> set cs \<Longrightarrow> rank f < n" using rank_bound by metis
  with finish_cmds [OF assms, of "Calling []" s cs "[]"] Nil show ?case by (auto intro: step.call_cmd)
next
  case (Cons f fs)
  obtain n where "\<And>f. Run f \<in> set cs \<Longrightarrow> rank f < n" using rank_bound by metis
  with finish_cmds [OF assms, of "Calling (f # fs)" s cs "[]"] Cons.prems
  obtain s1 where s1: "steps body s s1" "pc s1 = Calling (f # fs) []" "iteration s1 = iteration s"
    by (auto intro: step.call_cmd)
  let ?s2 = "s1\<lparr>executed := executed s1 @ [f], pc := Calling fs (body f)\<rparr>"
  have "step body s1 ?s2" using s1(2) by (rule step.call)
  then have "steps body s ?s2" using s1(1) by (rule steps.snoc [rotated])
  moreover obtain s3 where "steps body ?s2 s3" "pc s3 = Calling [] []" "iteration s3 = iteration s"
    using Cons.IH [of ?s2 "body f"] s1(3) by auto
  ultimately show ?case using steps_trans by blast
qed

lemma finish_pass:
  assumes "ranked rank body" "pc s = Polling"
  shows "\<exists>s'. steps body s s' \<and> pc s' = Test \<and> iteration s' = Suc (iteration s)"
proof -
  define as :: "'a active list" where "as = (if 0 < wakeupFd s then [Wakeup_active] else [])"
  have "step body s (s\<lparr>pc := Handling as []\<rparr>)" using assms(2) by (intro step.poll) (auto simp: as_def)
  then have h: "steps body s (s\<lparr>pc := Handling as []\<rparr>)" by (rule steps.snoc [OF steps.refl])
  obtain s1 where s1: "steps body s s1" "pc s1 = Handling [] []" "iteration s1 = iteration s"
  proof (cases "0 < wakeupFd s")
    case True
    let ?s = "s\<lparr>pc := Handling [Wakeup_active] []\<rparr>"
    have "step body ?s ((EventLoop_handleRead ?s)\<lparr>pc := Handling [] []\<rparr>)" by (intro step.handle_wakeup) simp
    then have "steps body s ((EventLoop_handleRead ?s)\<lparr>pc := Handling [] []\<rparr>)"
      using h True by (auto simp: as_def intro: steps.snoc)
    then show thesis using that by (simp add: EventLoop_handleRead_def)
  next
    case False
    then show thesis using that h by (simp add: as_def)
  qed
  let ?s3 = "take_pending (start_pending s1)"
  have "step body s1 (start_pending s1)" using s1(2) by (rule step.pending)
  moreover have "step body (start_pending s1) ?s3" by (rule step.swap) simp
  ultimately have "steps body s ?s3" using s1(1) by (blast intro: steps.snoc)
  moreover obtain s4 where s4: "steps body ?s3 s4" "pc s4 = Calling [] []" "iteration s4 = iteration s"
    using finish_functors [OF assms(1), of ?s3] s1(3) by auto
  moreover from this have "step body s4 (end_pending s4)" by (intro step.called)
  ultimately have "steps body s (end_pending s4)" by (blast intro: steps_trans steps.snoc)
  with s4(3) show ?thesis by (intro exI [of _ "end_pending s4"]) simp
qed

section \<open>Correctness of cross-thread calls\<close>

text \<open>
  C19: No wakeup is lost. Whenever the loop thread is in \<open>poll\<close> while a functor is queued or \<open>quit_\<close> is
  set, under every interleaving with other threads, the \<open>eventfd\<close> is readable or a thread is about to
  write to it, so \<open>poll\<close> does not wait for its timeout. (A functor that the loop thread queued itself
  before it entered \<open>loop\<close> is the exception.)
\<close>

theorem no_lost_wakeup:
  assumes "reachable body s" "pc s = Polling" "pendingFunctors s \<noteq> [] \<and> \<not> early s \<or> quit s"
  shows "0 < wakeupFd s \<or> 0 < waking s"
  using reachable_inv [OF assms(1)] assms(2,3) by (auto simp: loop_inv_def woken_def)

text \<open>
  C20: Functors run in the order in which they were queued, from any thread, each exactly once: at every
  moment the functors ever queued are those already run, those that \<open>doPendingFunctors\<close> still holds, and
  those in \<open>pendingFunctors_\<close>. If calls by \<open>runInLoop\<close> are not nested without end, a pass of the loop
  that is in \<open>poll\<close> can always be completed, and when it is, every functor that was queued has run.
\<close>

theorem functors_run_in_order:
  assumes "reachable body s" "ranked rank body"
  shows "queued s = executed s @ functors_left (pc s) @ pendingFunctors s
    \<and> (pc s = Polling \<longrightarrow>
         (\<exists>s'. steps body s s' \<and> iteration s < iteration s')
       \<and> (\<forall>s'. steps body s s' \<longrightarrow> iteration s < iteration s' \<longrightarrow> prefix (queued s) (executed s')))"
proof -
  have inv: "loop_inv s" using assms(1) by (rule reachable_inv)
  have "\<exists>s'. steps body s s' \<and> iteration s < iteration s'" if "pc s = Polling"
    using finish_pass [OF assms(2) that] by auto
  moreover have "prefix (queued s) (executed s')"
    if "pc s = Polling" "steps body s s'" "iteration s < iteration s'" for s'
    using steps_pass [OF that(2) inv that(1)] that(3) by (simp add: pass_inv_def)
  ultimately show ?thesis using inv by (auto simp: loop_inv_def)
qed

section \<open>Example\<close>

text \<open>Another thread queues functor 7 while the loop is in \<open>poll\<close>.\<close>

definition demo_loop :: "nat event_loop" where
  "demo_loop = the (EventLoop_new False 1 False False 4 100 5 101)"

definition demo_run :: "nat loop_run" where
  "demo_run = (let s = (loop_init demo_loop)\<lparr>looping := True, quit := False, pc := Polling\<rparr>
     in (push_functor s 7)\<lparr>queued := [7], waking := 1\<rparr>)"

lemma demo_new: "\<exists>l. EventLoop_new False 1 False False 4 100 5 101 = Some (l :: 'f event_loop)"
  by (simp add: EventLoop_new_def enableReading_def Channel_update_def Poller_updateChannel_def Poller_new_def
      Channel_new_def set_reading_def Let_def)

lemma demo_reachable: "reachable (\<lambda>_. []) demo_run"
proof -
  have new: "EventLoop_new False 1 False False 4 100 5 101 = Some demo_loop"
    using demo_new by (metis demo_loop_def option.sel)
  let ?s0 = "loop_init demo_loop"
  let ?s1 = "?s0\<lparr>looping := True, quit := False, pc := Test\<rparr>"
  have "step (\<lambda>_. []) ?s0 ?s1"
    using EventLoop_new_fresh [OF new] by (intro step.loop) (simp_all add: loop_init_def event_loop.defs)
  moreover have "step (\<lambda>_. []) ?s1 (?s1\<lparr>pc := Polling\<rparr>)" by (intro step.enter) simp_all
  moreover have "step (\<lambda>_. []) (?s1\<lparr>pc := Polling\<rparr>) demo_run"
    using step.other_queue [of "\<lambda>_. []" "?s1\<lparr>pc := Polling\<rparr>" 7]
    by (simp add: demo_run_def push_functor_def loop_init_def event_loop.defs)
  ultimately have "steps (\<lambda>_. []) ?s0 demo_run" by (blast intro: steps.intros)
  with new show ?thesis unfolding reachable_def by blast
qed

lemma demo_run_simps [simp]:
  "pc demo_run = Polling" "queued demo_run = [7]" "waking demo_run = 1" "early demo_run = False"
  "pendingFunctors demo_run \<noteq> []" "iteration demo_run = 0"
  by (simp_all add: demo_run_def push_functor_def loop_init_def event_loop.defs)

theorem no_lost_wakeup_witness: "0 < wakeupFd demo_run \<or> 0 < waking demo_run"
  using no_lost_wakeup [OF demo_reachable] by simp

theorem functors_run_in_order_witness:
  "\<exists>s'. steps (\<lambda>_. []) demo_run s' \<and> 0 < iteration s' \<and> prefix [7] (executed s')"
  using functors_run_in_order [OF demo_reachable, of "\<lambda>_. 0"] by (auto simp: ranked_def)

end
