(* ===== verification/TcpConnection.thy ===== *)
theory TcpConnection
  imports Buffer Poller
begin

text \<open>
  \<open>TcpConnection\<close> (\<open>src/TcpConnection.h\<close>, \<open>src/TcpConnection.cc\<close>). The state holds the members, the
  poller with the connection's channel, the functors of this connection that are queued in the loop,
  the bytes the kernel has accepted (\<open>wire\<close>), whether the write side of the socket is shut down, and
  the callbacks made so far. The result of \<open>write\<close> and \<open>readv\<close> is an argument of the operation that
  makes the call: an error number, or the number of bytes written, or the bytes read. User callbacks are
  recorded in \<open>calls\<close>; what they do to the connection are further operations of the run.
\<close>

datatype StateE = kConnecting | kConnected | kDisconnecting | kDisconnected

datatype conn_functor = F_sendInLoop bytes | F_shutdownInLoop | F_forceCloseInLoop | F_writeComplete | F_highWaterMark nat

datatype conn_call = C_connection | C_message | C_close | C_writeComplete | C_highWaterMark nat

record connection =
  name :: string
  state :: StateE
  channel :: addr
  conn_poller :: poller
  writeCompleteCallback :: bool
  highWaterMarkCallback :: bool
  highWaterMark :: nat
  inputBuffer :: buffer
  outputBuffer :: buffer
  functors :: "conn_functor list"
  wire :: bytes
  shut :: bool
  calls :: "conn_call list"

definition EPIPE :: int where "EPIPE = 32"
definition ECONNRESET :: int where "ECONNRESET = 104"
definition EWOULDBLOCK :: int where "EWOULDBLOCK = 11"

text \<open>The constructor makes the channel, at address \<open>a\<close>, with all four callbacks set.\<close>

definition TcpConnection_new :: "poller \<Rightarrow> string \<Rightarrow> int \<Rightarrow> addr \<Rightarrow> connection" where
  "TcpConnection_new w nameArg sockfd a =
     (let ch = (Channel_new sockfd)\<lparr>readCallback := True, writeCallback := True, closeCallback := True, errorCallback := True\<rparr>
      in \<lparr>name = nameArg, state = kConnecting, channel = a, conn_poller = w\<lparr>chans := (chans w)(a \<mapsto> ch)\<rparr>,
          writeCompleteCallback = False, highWaterMarkCallback = False, highWaterMark = 64 * 1024 * 1024,
          inputBuffer = Buffer_new, outputBuffer = Buffer_new, functors = [], wire = [], shut = False, calls = []\<rparr>)"

definition setWriteCompleteCallback :: "connection \<Rightarrow> connection" where
  "setWriteCompleteCallback c = c\<lparr>writeCompleteCallback := True\<rparr>"

definition setHighWaterMarkCallback :: "connection \<Rightarrow> nat \<Rightarrow> connection" where
  "setHighWaterMarkCallback c mark = c\<lparr>highWaterMarkCallback := True, highWaterMark := mark\<rparr>"

definition connected :: "connection \<Rightarrow> bool" where
  "connected c \<longleftrightarrow> state c = kConnected"

definition setState :: "connection \<Rightarrow> StateE \<Rightarrow> connection" where
  "setState c s = c\<lparr>state := s\<rparr>"

definition chan_of :: "connection \<Rightarrow> Channel option" where
  "chan_of c = chans (conn_poller c) (channel c)"

definition queue :: "connection \<Rightarrow> conn_functor \<Rightarrow> connection" where
  "queue c f = c\<lparr>functors := functors c @ [f]\<rparr>"

definition called_back :: "connection \<Rightarrow> conn_call \<Rightarrow> connection" where
  "called_back c x = c\<lparr>calls := calls c @ [x]\<rparr>"

definition on_channel :: "(poller \<Rightarrow> addr \<Rightarrow> poller option) \<Rightarrow> connection \<Rightarrow> connection option" where
  "on_channel f c = do { w \<leftarrow> f (conn_poller c) (channel c); Some (c\<lparr>conn_poller := w\<rparr>) }"

text \<open>The direct write at the start of \<open>sendInLoop\<close>: the bytes written, the rest, and a fatal error.\<close>

definition direct_write :: "connection \<Rightarrow> bytes \<Rightarrow> int + nat \<Rightarrow> nat \<times> nat \<times> bool \<times> connection" where
  "direct_write c message wr =
     (case wr of
        Inr nwrote \<Rightarrow>
          (let remaining = length message - nwrote; c = c\<lparr>wire := wire c @ take nwrote message\<rparr>
           in (nwrote, remaining, False,
               if nwrote < length message then c
               else if remaining = 0 \<and> writeCompleteCallback c then queue c F_writeComplete else c))
      | Inl errno \<Rightarrow>
          (0, length message, errno \<noteq> EWOULDBLOCK \<and> (errno = EPIPE \<or> errno = ECONNRESET), c))"

text \<open>The second half: what was not written is buffered, and the channel watches for room.\<close>

definition check_high_water :: "connection \<Rightarrow> nat \<Rightarrow> connection" where
  "check_high_water c remaining =
     (let oldLen = readableBytes (outputBuffer c)
      in if oldLen + remaining \<ge> highWaterMark c \<and> oldLen < highWaterMark c \<and> highWaterMarkCallback c
         then queue c (F_highWaterMark (oldLen + remaining)) else c)"

definition buffer_rest :: "connection \<Rightarrow> bytes \<Rightarrow> nat \<Rightarrow> connection option" where
  "buffer_rest c data remaining = do {
     let c = check_high_water c remaining;
     out \<leftarrow> append_buf (outputBuffer c) (take remaining data);
     let c = c\<lparr>outputBuffer := out\<rparr>;
     ch \<leftarrow> chan_of c;
     if \<not> isWriting ch then on_channel enableWriting c else Some c
   }"

definition sendInLoop :: "connection \<Rightarrow> bytes \<Rightarrow> int + nat \<Rightarrow> connection option" where
  "sendInLoop c message wr =
     (if state c = kDisconnected then Some c
      else do {
        ch \<leftarrow> chan_of c;
        let (nwrote, remaining, faultError, c) =
          (if \<not> isWriting ch \<and> readableBytes (outputBuffer c) = 0 then direct_write c message wr
           else (0, length message, False, c));
        ensure (remaining \<le> length message);
        if \<not> faultError \<and> remaining > 0 then buffer_rest c (drop nwrote message) remaining else Some c
      })"

text \<open>\<open>inLoop\<close> says whether the calling thread is the loop's.\<close>

definition send :: "connection \<Rightarrow> bool \<Rightarrow> bytes \<Rightarrow> int + nat \<Rightarrow> connection option" where
  "send c inLoop message wr =
     (if state c = kConnected then
        if inLoop then sendInLoop c message wr else Some (queue c (F_sendInLoop message))
      else Some c)"

definition send_buf :: "connection \<Rightarrow> bool \<Rightarrow> buffer \<Rightarrow> int + nat \<Rightarrow> (connection \<times> buffer) option" where
  "send_buf c inLoop buf wr =
     (if state c = kConnected then
        if inLoop then do {
          c \<leftarrow> sendInLoop c (slice buf (peek buf) (peek buf + readableBytes buf)) wr;
          Some (c, retrieveAll buf)
        }
        else do {
          (message, buf) \<leftarrow> retrieveAllAsString buf;
          Some (queue c (F_sendInLoop message), buf)
        }
      else Some (c, buf))"

definition shutdownInLoop :: "connection \<Rightarrow> connection option" where
  "shutdownInLoop c = do {
     ch \<leftarrow> chan_of c;
     Some (if \<not> isWriting ch then c\<lparr>shut := True\<rparr> else c)
   }"

definition shutdown :: "connection \<Rightarrow> bool \<Rightarrow> connection option" where
  "shutdown c inLoop =
     (if state c = kConnected then
        let c = setState c kDisconnecting
        in if inLoop then shutdownInLoop c else Some (queue c F_shutdownInLoop)
      else Some c)"

definition handleClose :: "connection \<Rightarrow> connection option" where
  "handleClose c = do {
     ensure (state c = kConnected \<or> state c = kDisconnecting);
     c \<leftarrow> on_channel disableAll c;
     Some (called_back c C_close)
   }"

definition forceCloseInLoop :: "connection \<Rightarrow> connection option" where
  "forceCloseInLoop c =
     (if state c = kConnected \<or> state c = kDisconnecting then handleClose c else Some c)"

definition forceClose :: "connection \<Rightarrow> connection" where
  "forceClose c =
     (if state c = kConnected \<or> state c = kDisconnecting
      then queue (setState c kDisconnecting) F_forceCloseInLoop else c)"

definition connectEstablished :: "connection \<Rightarrow> connection option" where
  "connectEstablished c = do {
     ensure (state c = kConnecting);
     c \<leftarrow> on_channel enableReading (setState c kConnected);
     Some (called_back c C_connection)
   }"

definition connectDestroyed :: "connection \<Rightarrow> connection option" where
  "connectDestroyed c = do {
     ensure (state c = kConnected \<or> state c = kDisconnecting);
     c \<leftarrow> on_channel disableAll (setState c kDisconnected);
     let c = called_back c C_connection;
     on_channel Poller_removeChannel c
   }"

text \<open>\<open>handleRead\<close> on the result of \<open>readv\<close>; an error is only logged.\<close>

definition handleRead :: "connection \<Rightarrow> int + bytes \<Rightarrow> connection option" where
  "handleRead c rv = do {
     (n, savedErrno, buf) \<leftarrow> readFd (inputBuffer c) rv;
     let c = c\<lparr>inputBuffer := buf\<rparr>;
     if n > 0 then Some (called_back c C_message)
     else if n = 0 then handleClose c
     else Some c
   }"

definition handleWrite :: "connection \<Rightarrow> int + nat \<Rightarrow> connection option" where
  "handleWrite c wr = do {
     ch \<leftarrow> chan_of c;
     if isWriting ch then
       (case wr of
          Inr n \<Rightarrow>
            if n > 0 then do {
              let c = c\<lparr>wire := wire c @ slice (outputBuffer c) (peek (outputBuffer c)) (peek (outputBuffer c) + n)\<rparr>;
              out \<leftarrow> retrieve (outputBuffer c) n;
              let c = c\<lparr>outputBuffer := out\<rparr>;
              if readableBytes out = 0 then do {
                c \<leftarrow> on_channel disableWriting c;
                let c = (if writeCompleteCallback c then queue c F_writeComplete else c);
                if state c = kDisconnecting then shutdownInLoop c else Some c
              }
              else Some c
            }
            else Some c
        | Inl errno \<Rightarrow> Some c)
     else Some c
   }"

section \<open>Runs\<close>

text \<open>
  The operations of a connection in the order in which the loop and the other threads make them;
  \<open>Op_functor\<close> is the loop running the oldest functor of this connection, \<open>Op_take\<close> the message
  callback consuming input.
\<close>

datatype conn_step = Op_established | Op_destroyed | Op_send bool bytes "int + nat" | Op_shutdown bool | Op_forceClose
  | Op_read "int + bytes" | Op_write "int + nat" | Op_hup | Op_functor "int + nat" | Op_take nat
  | Op_setWriteComplete | Op_setHighWaterMark nat

definition run_functor :: "connection \<Rightarrow> int + nat \<Rightarrow> connection option" where
  "run_functor c wr =
     (case functors c of
        [] \<Rightarrow> Some c
      | f # fs \<Rightarrow>
          let c = c\<lparr>functors := fs\<rparr>
          in (case f of
                F_sendInLoop m \<Rightarrow> sendInLoop c m wr
              | F_shutdownInLoop \<Rightarrow> shutdownInLoop c
              | F_forceCloseInLoop \<Rightarrow> forceCloseInLoop c
              | F_writeComplete \<Rightarrow> Some (called_back c C_writeComplete)
              | F_highWaterMark n \<Rightarrow> Some (called_back c (C_highWaterMark n))))"

fun conn_op :: "connection \<Rightarrow> conn_step \<Rightarrow> connection option" where
  "conn_op c Op_established = connectEstablished c"
| "conn_op c Op_destroyed = connectDestroyed c"
| "conn_op c (Op_send inLoop m wr) = send c inLoop m wr"
| "conn_op c (Op_shutdown inLoop) = shutdown c inLoop"
| "conn_op c Op_forceClose = Some (forceClose c)"
| "conn_op c (Op_read rv) = handleRead c rv"
| "conn_op c (Op_write wr) = handleWrite c wr"
| "conn_op c Op_hup = handleClose c"
| "conn_op c (Op_functor wr) = run_functor c wr"
| "conn_op c (Op_take n) = map_option (\<lambda>b. c\<lparr>inputBuffer := b\<rparr>) (retrieve (inputBuffer c) n)"
| "conn_op c Op_setWriteComplete = Some (setWriteCompleteCallback c)"
| "conn_op c (Op_setHighWaterMark n) = Some (setHighWaterMarkCallback c n)"

fun conn_ops :: "connection \<Rightarrow> conn_step list \<Rightarrow> connection option" where
  "conn_ops c [] = Some c"
| "conn_ops c (x # xs) = do { c \<leftarrow> conn_op c x; conn_ops c xs }"

section \<open>Invariant\<close>

lemma disable_then_remove:
  assumes inv: "poller_inv w" and r: "registered w (fd c) a c"
  shows "\<exists>w1 w2. disableAll w a = Some w1 \<and> Poller_removeChannel w1 a = Some w2 \<and> poller_inv w2
    \<and> channels w2 = (channels w)(fd c := None) \<and> chans w2 a \<noteq> None"
proof -
  have may: "may_update w a" using r registered_slot [OF inv r] by (auto simp: may_update_def registered_def)
  have f: "clear_all \<in> set event_ops" by (simp add: event_ops_def)
  obtain w1 c' where w1: "Channel_update clear_all w a = Some w1" "poller_inv w1" "registered w1 (fd c') a c'"
      "channels w1 = (channels w)(fd c' \<mapsto> a)" "map_option fd (chans w a) = Some (fd c')"
      "events c' = events (clear_all (the (chans w a)))"
      "pfd_events (pollfds w1 ! nat (index c')) = ucast (events c')"
      "isNoneEvent c' \<Longrightarrow> channels w (fd c') = Some a \<Longrightarrow> pfd_fd (pollfds w1 ! nat (index c')) = - fd c' - 1"
    using Channel_update_ok [OF inv f may] by metis
  have c': "fd c' = fd c" "events c' = 0" "isNoneEvent c'"
    using w1(5,6) r by (auto simp: registered_def clear_all_def kNoneEvent_def isNoneEvent_def)
  obtain w2 where w2: "Poller_removeChannel w1 a = Some w2" "poller_inv w2" "channels w2 = (channels w1)(fd c' := None)"
    "map_option fd (chans w2 a) = map_option fd (chans w1 a)"
    using remove_ok [OF w1(2,3) c'(3)] w1(7,8) c' r by (auto simp: registered_def)
  have "channels w2 = (channels w)(fd c := None)" using w2(3) w1(4) c'(1) by simp
  moreover have "chans w2 a \<noteq> None" using w2(4) w1(3) by (auto simp: registered_def)
  ultimately show ?thesis using w1(1) w2 by (auto simp: disableAll_def)
qed

definition chan_registered :: "connection \<Rightarrow> bool" where
  "chan_registered c \<longleftrightarrow> poller_inv (conn_poller c) \<and> (\<exists>ch. registered (conn_poller c) (fd ch) (channel c) ch)"

definition writing :: "connection \<Rightarrow> bool" where
  "writing c \<longleftrightarrow> (case chan_of c of None \<Rightarrow> False | Some ch \<Rightarrow> isWriting ch)"

definition stream :: "connection \<Rightarrow> bytes" where
  "stream c = wire c @ content (outputBuffer c)"

definition close_called :: "connection \<Rightarrow> bool" where
  "close_called c \<longleftrightarrow> C_close \<in> set (calls c)"

definition up :: "connection \<Rightarrow> bool" where
  "up c \<longleftrightarrow> state c = kConnected \<or> state c = kDisconnecting"

definition tcp_inv :: "connection \<Rightarrow> bool" where
  "tcp_inv c \<longleftrightarrow> buf_inv (inputBuffer c) \<and> buf_inv (outputBuffer c) \<and> chan_of c \<noteq> None
     \<and> poller_inv (conn_poller c)
     \<and> (state c = kConnecting \<longrightarrow> content (outputBuffer c) = [] \<and> functors c = [] \<and> \<not> writing c
          \<and> may_update (conn_poller c) (channel c) \<and> \<not> close_called c)
     \<and> (up c \<longrightarrow> chan_registered c \<and> (\<not> close_called c \<longrightarrow> writing c = (content (outputBuffer c) \<noteq> [])))"

lemma chan_may_update:
  assumes "chan_registered c"
  shows "may_update (conn_poller c) (channel c)"
proof -
  obtain ch where "registered (conn_poller c) (fd ch) (channel c) ch" and "poller_inv (conn_poller c)"
    using assms by (auto simp: chan_registered_def)
  then show ?thesis using registered_slot [of "conn_poller c" "fd ch" "channel c" ch]
    by (auto simp: may_update_def registered_def)
qed

text \<open>An operation of the channel succeeds and changes the poller only.\<close>

lemma on_channel_update:
  assumes "poller_inv (conn_poller c)" "may_update (conn_poller c) (channel c)" "f \<in> set event_ops"
  obtains w' where "on_channel (Channel_update f) c = Some (c\<lparr>conn_poller := w'\<rparr>)"
    "chan_registered (c\<lparr>conn_poller := w'\<rparr>)"
    "writing (c\<lparr>conn_poller := w'\<rparr>) = isWriting (f (the (chan_of c)))"
proof -
  obtain w' ch' where w': "Channel_update f (conn_poller c) (channel c) = Some w'" "poller_inv w'"
      "registered w' (fd ch') (channel c) ch'" "events ch' = events (f (the (chans (conn_poller c) (channel c))))"
    using Channel_update_ok [OF assms(1,3,2)] by metis
  show thesis
    by (rule that [of w'])
      (use w' in \<open>auto simp: on_channel_def chan_registered_def writing_def chan_of_def registered_def isWriting_def\<close>)
qed

lemmas tcp_defs = tcp_inv_def stream_def close_called_def up_def

lemma chan_of_upd [simp]:
  "chan_of (c\<lparr>state := state_new\<rparr>) = chan_of c"
  "chan_of (c\<lparr>functors := functors_new\<rparr>) = chan_of c"
  "chan_of (c\<lparr>wire := wire_new\<rparr>) = chan_of c"
  "chan_of (c\<lparr>outputBuffer := outputBuffer_new\<rparr>) = chan_of c"
  "chan_of (c\<lparr>inputBuffer := inputBuffer_new\<rparr>) = chan_of c"
  "chan_of (c\<lparr>shut := shut_new\<rparr>) = chan_of c"
  "chan_of (c\<lparr>calls := calls_new\<rparr>) = chan_of c"
  "chan_of (c\<lparr>writeCompleteCallback := writeCompleteCallback_new\<rparr>) = chan_of c"
  "chan_of (c\<lparr>highWaterMarkCallback := highWaterMarkCallback_new\<rparr>) = chan_of c"
  "chan_of (c\<lparr>highWaterMark := highWaterMark_new\<rparr>) = chan_of c"
  by (simp_all add: chan_of_def)

lemma writing_upd [simp]:
  "writing (c\<lparr>state := state_new\<rparr>) = writing c"
  "writing (c\<lparr>functors := functors_new\<rparr>) = writing c"
  "writing (c\<lparr>wire := wire_new\<rparr>) = writing c"
  "writing (c\<lparr>outputBuffer := outputBuffer_new\<rparr>) = writing c"
  "writing (c\<lparr>inputBuffer := inputBuffer_new\<rparr>) = writing c"
  "writing (c\<lparr>shut := shut_new\<rparr>) = writing c"
  "writing (c\<lparr>calls := calls_new\<rparr>) = writing c"
  "writing (c\<lparr>writeCompleteCallback := writeCompleteCallback_new\<rparr>) = writing c"
  "writing (c\<lparr>highWaterMarkCallback := highWaterMarkCallback_new\<rparr>) = writing c"
  "writing (c\<lparr>highWaterMark := highWaterMark_new\<rparr>) = writing c"
  by (simp_all add: writing_def)

lemma chan_registered_upd [simp]:
  "chan_registered (c\<lparr>state := state_new\<rparr>) = chan_registered c"
  "chan_registered (c\<lparr>functors := functors_new\<rparr>) = chan_registered c"
  "chan_registered (c\<lparr>wire := wire_new\<rparr>) = chan_registered c"
  "chan_registered (c\<lparr>outputBuffer := outputBuffer_new\<rparr>) = chan_registered c"
  "chan_registered (c\<lparr>inputBuffer := inputBuffer_new\<rparr>) = chan_registered c"
  "chan_registered (c\<lparr>shut := shut_new\<rparr>) = chan_registered c"
  "chan_registered (c\<lparr>calls := calls_new\<rparr>) = chan_registered c"
  "chan_registered (c\<lparr>writeCompleteCallback := writeCompleteCallback_new\<rparr>) = chan_registered c"
  "chan_registered (c\<lparr>highWaterMarkCallback := highWaterMarkCallback_new\<rparr>) = chan_registered c"
  "chan_registered (c\<lparr>highWaterMark := highWaterMark_new\<rparr>) = chan_registered c"
  by (simp_all add: chan_registered_def)

text \<open>The fields that change only in other operations.\<close>

definition same_conn :: "connection \<Rightarrow> connection \<Rightarrow> bool" where
  "same_conn c c' \<longleftrightarrow> state c' = state c \<and> channel c' = channel c \<and> inputBuffer c' = inputBuffer c
     \<and> shut c' = shut c \<and> calls c' = calls c"

lemma same_conn_trans: "same_conn a b \<Longrightarrow> same_conn b c \<Longrightarrow> same_conn a c"
  by (simp add: same_conn_def)

lemma direct_write_effect:
  assumes "direct_write c m wr = (n, r, fault, c')" "\<And>k. wr = Inr k \<Longrightarrow> k \<le> length m"
  shows "n \<le> length m \<and> r = length m - n \<and> wire c' = wire c @ take n m \<and> outputBuffer c' = outputBuffer c
    \<and> fault = (wr = Inl EPIPE \<or> wr = Inl ECONNRESET) \<and> (fault \<longrightarrow> n = 0)
    \<and> conn_poller c' = conn_poller c \<and> same_conn c c'"
  using assms
  by (auto simp: direct_write_def Let_def queue_def same_conn_def EPIPE_def ECONNRESET_def EWOULDBLOCK_def
      split: sum.splits if_splits)

text \<open>The bytes \<open>sendInLoop\<close> puts into the stream: all of the message, or none.\<close>

definition accepts :: "connection \<Rightarrow> bytes \<Rightarrow> int + nat \<Rightarrow> bytes" where
  "accepts c m wr =
     (if state c = kDisconnected then []
      else if \<not> writing c \<and> content (outputBuffer c) = [] \<and> (wr = Inl EPIPE \<or> wr = Inl ECONNRESET) then []
      else m)"

lemma readable_zero: "buf_inv b \<Longrightarrow> (readableBytes b = 0) = (content b = [])"
  by (metis length_content length_0_conv)

lemma tcp_inv_cong:
  assumes "tcp_inv c" "same_conn c c'" "conn_poller c' = conn_poller c" "outputBuffer c' = outputBuffer c"
    and "state c \<noteq> kConnecting"
  shows "tcp_inv c'"
  using assms by (simp add: tcp_defs same_conn_def writing_def chan_of_def chan_registered_def)

lemma buffer_rest_ok:
  assumes inv: "tcp_inv c" and up: "up c" and data: "data \<noteq> []" "r = length data"
  shows "\<exists>c'. buffer_rest c data r = Some c' \<and> tcp_inv c' \<and> same_conn c c'
    \<and> wire c' = wire c \<and> content (outputBuffer c') = content (outputBuffer c) @ data"
proof -
  define c1 where "c1 = check_high_water c r"
  have c1: "same_conn c c1" "conn_poller c1 = conn_poller c" "outputBuffer c1 = outputBuffer c" "wire c1 = wire c"
    by (simp_all add: c1_def check_high_water_def Let_def queue_def same_conn_def)
  have b: "buf_inv (outputBuffer c)" using inv by (simp add: tcp_inv_def)
  obtain out where out: "append_buf (outputBuffer c) data = Some out" "buf_inv out"
      "content out = content (outputBuffer c) @ data"
    using append_buf_ok [OF b] .
  let ?c2 = "c1\<lparr>outputBuffer := out\<rparr>"
  obtain ch where ch: "chan_of ?c2 = Some ch" using inv c1 by (auto simp: tcp_inv_def chan_of_def same_conn_def)
  have eq: "buffer_rest c data r = (if \<not> isWriting ch then on_channel enableWriting ?c2 else Some ?c2)"
    unfolding buffer_rest_def c1_def [symmetric] Let_def using out(1) c1(3) ch data(2) by simp
  have reg: "chan_registered ?c2" "poller_inv (conn_poller ?c2)"
    using inv up c1 by (auto simp: tcp_inv_def chan_registered_def same_conn_def)
  show ?thesis
  proof (cases "isWriting ch")
    case True
    then have "tcp_inv ?c2"
      using inv up c1 out data reg ch by (auto simp: tcp_defs same_conn_def writing_def)
    with True eq c1 out show ?thesis by (auto simp: same_conn_def)
  next
    case False
    obtain w' where w': "on_channel (Channel_update set_writing) ?c2 = Some (?c2\<lparr>conn_poller := w'\<rparr>)"
      "chan_registered (?c2\<lparr>conn_poller := w'\<rparr>)"
      "writing (?c2\<lparr>conn_poller := w'\<rparr>) = isWriting (set_writing (the (chan_of ?c2)))"
      using on_channel_update [OF reg(2) chan_may_update [OF reg(1)], of set_writing] by (auto simp: event_ops_def)
    have "tcp_inv (?c2\<lparr>conn_poller := w'\<rparr>)"
      using inv up c1 out data w'(2,3)
      by (auto simp: tcp_defs same_conn_def chan_registered_def chan_of_def registered_def)
    with False eq c1 out w'(1) show ?thesis by (auto simp: same_conn_def enableWriting_def)
  qed
qed

lemma sendInLoop_ok:
  assumes inv: "tcp_inv c" and st: "state c \<noteq> kConnecting" and wr: "\<And>k. wr = Inr k \<Longrightarrow> k \<le> length m"
  shows "\<exists>c'. sendInLoop c m wr = Some c' \<and> tcp_inv c' \<and> same_conn c c' \<and> stream c' = stream c @ accepts c m wr"
proof (cases "state c = kDisconnected")
  case True
  then show ?thesis using inv by (simp add: sendInLoop_def accepts_def same_conn_def)
next
  case False
  then have up: "up c" using st by (cases "state c") (auto simp: up_def)
  obtain ch where ch: "chan_of c = Some ch" using inv by (auto simp: tcp_inv_def)
  have z: "(readableBytes (outputBuffer c) = 0) = (content (outputBuffer c) = [])"
    using inv readable_zero by (simp add: tcp_inv_def)
  have w: "writing c = isWriting ch" using ch by (simp add: writing_def)
  show ?thesis
  proof (cases "\<not> isWriting ch \<and> content (outputBuffer c) = []")
    case direct: True
    obtain n r fault c1 where d: "direct_write c m wr = (n, r, fault, c1)" by (cases "direct_write c m wr") auto
    note e = direct_write_effect [OF d wr]
    have inv1: "tcp_inv c1" using tcp_inv_cong [OF inv] e st by blast
    have up1: "up c1" using up e by (simp add: up_def same_conn_def)
    show ?thesis
    proof (cases "\<not> fault \<and> 0 < r")
      case True
      then obtain c' where c': "buffer_rest c1 (drop n m) r = Some c'" "tcp_inv c'" "same_conn c1 c'"
          "wire c' = wire c1" "content (outputBuffer c') = content (outputBuffer c1) @ drop n m"
        using buffer_rest_ok [OF inv1 up1, of "drop n m" r] e by auto
      then show ?thesis
        using True False ch direct d e z w same_conn_trans
        by (auto simp: sendInLoop_def accepts_def stream_def)
    next
      case nr: False
      then have "n = length m \<or> fault" using e by auto
      then show ?thesis
        using nr False ch direct d e z w inv1 by (auto simp: sendInLoop_def accepts_def stream_def)
    qed
  next
    case indirect: False
    show ?thesis
    proof (cases "m = []")
      case True
      then show ?thesis using False ch indirect z w inv by (auto simp: sendInLoop_def accepts_def same_conn_def)
    next
      case m: False
      then obtain c' where "buffer_rest c m (length m) = Some c'" "tcp_inv c'" "same_conn c c'"
          "wire c' = wire c" "content (outputBuffer c') = content (outputBuffer c) @ m"
        using buffer_rest_ok [OF inv up, of m "length m"] by auto
      then show ?thesis
        using False m ch indirect z w by (auto simp: sendInLoop_def accepts_def stream_def)
    qed
  qed
qed

section \<open>Every operation keeps the invariant\<close>

text \<open>What the environment keeps to: the kernel accepts no more than it is given, channel events and
  \<open>connectDestroyed\<close> come between \<open>connectEstablished\<close> and \<open>connectDestroyed\<close>.\<close>

fun enabled :: "connection \<Rightarrow> conn_step \<Rightarrow> bool" where
  "enabled c Op_established = (state c = kConnecting)"
| "enabled c Op_destroyed = up c"
| "enabled c (Op_send inLoop m wr) = (\<forall>k. wr = Inr k \<longrightarrow> k \<le> length m)"
| "enabled c (Op_read rv) = up c"
| "enabled c (Op_write wr) = (up c \<and> (\<forall>k. wr = Inr k \<longrightarrow> k \<le> readableBytes (outputBuffer c)))"
| "enabled c Op_hup = up c"
| "enabled c (Op_functor wr) = (\<forall>m fs k. functors c = F_sendInLoop m # fs \<longrightarrow> wr = Inr k \<longrightarrow> k \<le> length m)"
| "enabled c (Op_take n) = (n \<le> readableBytes (inputBuffer c))"
| "enabled c _ = True"

fun accepted :: "connection \<Rightarrow> conn_step \<Rightarrow> bytes" where
  "accepted c (Op_send inLoop m wr) = (if inLoop \<and> state c = kConnected then accepts c m wr else [])"
| "accepted c (Op_functor wr) = (case functors c of F_sendInLoop m # fs \<Rightarrow> accepts c m wr | _ \<Rightarrow> [])"
| "accepted c _ = []"

definition step_ok :: "connection \<Rightarrow> bytes \<Rightarrow> connection \<Rightarrow> bool" where
  "step_ok c acc c' \<longleftrightarrow> tcp_inv c' \<and> stream c' = stream c @ acc
     \<and> (shut c \<longrightarrow> shut c')
     \<and> (shut c' \<longrightarrow> shut c \<or> close_called c \<or> state c = kDisconnected \<or> content (outputBuffer c') = [])"

lemma disable_conn_ok:
  assumes "tcp_inv c" "up c"
  obtains w' where "on_channel disableAll c = Some (c\<lparr>conn_poller := w'\<rparr>)" "chan_registered (c\<lparr>conn_poller := w'\<rparr>)"
proof -
  have "chan_registered c" "poller_inv (conn_poller c)" using assms by (auto simp: tcp_inv_def)
  then show thesis
    using on_channel_update [OF _ chan_may_update, of c clear_all] that
    by (auto simp: event_ops_def disableAll_def)
qed

lemma registered_chan: "chan_registered c \<Longrightarrow> chan_of c \<noteq> None \<and> poller_inv (conn_poller c)"
  by (auto simp: chan_registered_def chan_of_def registered_def)

lemma handleClose_ok:
  assumes "tcp_inv c" "up c"
  shows "\<exists>c'. handleClose c = Some c' \<and> step_ok c [] c'"
proof -
  obtain w' where w': "on_channel disableAll c = Some (c\<lparr>conn_poller := w'\<rparr>)" "chan_registered (c\<lparr>conn_poller := w'\<rparr>)"
    using disable_conn_ok [OF assms] .
  then have "handleClose c = Some (called_back (c\<lparr>conn_poller := w'\<rparr>) C_close)"
    using assms(2) by (simp add: handleClose_def up_def)
  moreover have "step_ok c [] (called_back (c\<lparr>conn_poller := w'\<rparr>) C_close)"
    using assms w'(2) registered_chan [OF w'(2)] by (auto simp: step_ok_def tcp_defs called_back_def chan_of_def)
  ultimately show ?thesis by blast
qed

lemma shutdownInLoop_ok:
  assumes "tcp_inv c" "state c \<noteq> kConnecting"
  shows "\<exists>c'. shutdownInLoop c = Some c' \<and> step_ok c [] c'"
proof -
  obtain ch where ch: "chan_of c = Some ch" using assms by (auto simp: tcp_inv_def)
  have "step_ok c [] (if isWriting ch then c else c\<lparr>shut := True\<rparr>)"
    using assms ch by (cases "state c") (auto simp: step_ok_def tcp_defs writing_def)
  with ch show ?thesis by (auto simp: shutdownInLoop_def)
qed

lemma step_ok_refl: "tcp_inv c \<Longrightarrow> step_ok c [] c"
  by (simp add: step_ok_def)

lemma shutdown_ok:
  assumes "tcp_inv c"
  shows "\<exists>c'. shutdown c inLoop = Some c' \<and> step_ok c [] c'"
proof (cases "state c = kConnected")
  case True
  let ?c = "setState c kDisconnecting"
  have inv: "tcp_inv ?c" using assms True by (auto simp: tcp_defs setState_def)
  have q: "step_ok c [] (queue ?c F_shutdownInLoop)"
    using assms True by (auto simp: tcp_defs setState_def queue_def step_ok_def)
  obtain c' where "shutdownInLoop ?c = Some c'" "step_ok ?c [] c'"
    using shutdownInLoop_ok [OF inv] by (auto simp: setState_def)
  then have "shutdownInLoop ?c = Some c'" "step_ok c [] c'"
    using True by (auto simp: step_ok_def setState_def stream_def close_called_def)
  with q True show ?thesis by (cases inLoop) (simp_all add: shutdown_def Let_def)
next
  case False
  then show ?thesis using assms step_ok_refl by (simp add: shutdown_def)
qed

lemma connectEstablished_ok:
  assumes "tcp_inv c" "state c = kConnecting"
  shows "\<exists>c'. connectEstablished c = Some c' \<and> step_ok c [] c'"
proof -
  let ?c = "setState c kConnected"
  have "poller_inv (conn_poller ?c)" "may_update (conn_poller ?c) (channel ?c)" "set_reading \<in> set event_ops"
    using assms by (auto simp: tcp_inv_def setState_def event_ops_def)
  then obtain w' where w': "on_channel (Channel_update set_reading) ?c = Some (?c\<lparr>conn_poller := w'\<rparr>)"
      "chan_registered (?c\<lparr>conn_poller := w'\<rparr>)"
      "writing (?c\<lparr>conn_poller := w'\<rparr>) = isWriting (set_reading (the (chan_of ?c)))"
    using on_channel_update [of ?c set_reading] by metis
  have "\<not> writing (?c\<lparr>conn_poller := w'\<rparr>)"
    using w'(3) assms by (auto simp: tcp_inv_def writing_def setState_def split: option.splits)
  then have "step_ok c [] (called_back (?c\<lparr>conn_poller := w'\<rparr>) C_connection)"
    using assms w'(2) registered_chan [OF w'(2)] by (auto simp: step_ok_def tcp_defs called_back_def setState_def)
  moreover have "connectEstablished c = Some (called_back (?c\<lparr>conn_poller := w'\<rparr>) C_connection)"
    using w'(1) assms(2) by (simp add: connectEstablished_def enableReading_def)
  ultimately show ?thesis by blast
qed

lemma connectDestroyed_ok:
  assumes "tcp_inv c" "up c"
  shows "\<exists>c'. connectDestroyed c = Some c' \<and> step_ok c [] c' \<and> state c' = kDisconnected"
proof -
  have "chan_registered c" using assms by (simp add: tcp_inv_def)
  then obtain ch where r: "registered (conn_poller c) (fd ch) (channel c) ch" "poller_inv (conn_poller c)"
    by (auto simp: chan_registered_def)
  obtain w1 w2 where w: "disableAll (conn_poller c) (channel c) = Some w1"
      "Poller_removeChannel w1 (channel c) = Some w2" "poller_inv w2" "chans w2 (channel c) \<noteq> None"
    using disable_then_remove [OF r(2,1)] by blast
  let ?c' = "c\<lparr>state := kDisconnected, conn_poller := w2, calls := calls c @ [C_connection]\<rparr>"
  have "connectDestroyed c = Some ?c'"
    using w assms(2) by (simp add: connectDestroyed_def on_channel_def setState_def called_back_def up_def)
  moreover have "step_ok c [] ?c'"
    using assms w(3,4) by (auto simp: step_ok_def tcp_defs chan_of_def)
  ultimately show ?thesis by auto
qed

lemma step_ok_trans:
  assumes "step_ok c x c1" "step_ok c1 y c2" "state c1 = state c" "close_called c1 = close_called c"
    and "shut c1 = shut c"
  shows "step_ok c (x @ y) c2"
  using assms by (auto simp: step_ok_def)

lemma drained_ok:
  assumes inv: "tcp_inv c" and up: "up c" and b: "buf_inv out" "content out = []"
    and all: "wire' = wire c @ content (outputBuffer c)"
  shows "\<exists>c'. do {
      c \<leftarrow> on_channel disableWriting (c\<lparr>wire := wire', outputBuffer := out\<rparr>);
      let c = (if writeCompleteCallback c then queue c F_writeComplete else c);
      if state c = kDisconnecting then shutdownInLoop c else Some c
    } = Some c' \<and> step_ok c [] c'"
proof -
  let ?c1 = "c\<lparr>wire := wire', outputBuffer := out\<rparr>"
  have reg: "chan_registered ?c1" "poller_inv (conn_poller ?c1)" using inv up by (auto simp: tcp_inv_def)
  obtain w' where w': "on_channel (Channel_update clear_writing) ?c1 = Some (?c1\<lparr>conn_poller := w'\<rparr>)"
      "chan_registered (?c1\<lparr>conn_poller := w'\<rparr>)"
      "writing (?c1\<lparr>conn_poller := w'\<rparr>) = isWriting (clear_writing (the (chan_of ?c1)))"
    using on_channel_update [OF reg(2) chan_may_update [OF reg(1)], of clear_writing] by (auto simp: event_ops_def)
  define c2 where "c2 = (if writeCompleteCallback c then queue (?c1\<lparr>conn_poller := w'\<rparr>) F_writeComplete else ?c1\<lparr>conn_poller := w'\<rparr>)"
  have inv2: "tcp_inv c2" and s2: "step_ok c [] c2"
    using inv up b all w'(2,3) registered_chan [OF w'(2)]
    by (auto simp: c2_def step_ok_def tcp_defs queue_def chan_of_def)
  have st2: "state c2 = state c" "close_called c2 = close_called c" "shut c2 = shut c"
    by (simp_all add: c2_def queue_def close_called_def)
  have eq: "do {
      c \<leftarrow> on_channel disableWriting ?c1;
      let c = (if writeCompleteCallback c then queue c F_writeComplete else c);
      if state c = kDisconnecting then shutdownInLoop c else Some c
    } = (if state c = kDisconnecting then shutdownInLoop c2 else Some c2)"
    using w'(1) st2(1) by (simp add: disableWriting_def c2_def Let_def)
  show ?thesis
  proof (cases "state c = kDisconnecting")
    case True
    then obtain c3 where "shutdownInLoop c2 = Some c3" "step_ok c2 [] c3"
      using shutdownInLoop_ok [OF inv2] st2(1) by auto
    with step_ok_trans [OF s2 this(2) st2] eq True show ?thesis by simp
  next
    case False
    with eq s2 show ?thesis by simp
  qed
qed

lemma handleWrite_ok:
  assumes inv: "tcp_inv c" and up: "up c" and wr: "\<And>k. wr = Inr k \<Longrightarrow> k \<le> readableBytes (outputBuffer c)"
  shows "\<exists>c'. handleWrite c wr = Some c' \<and> step_ok c [] c'"
proof -
  obtain ch where ch: "chan_of c = Some ch" using inv by (auto simp: tcp_inv_def)
  have b: "buf_inv (outputBuffer c)" using inv by (simp add: tcp_inv_def)
  show ?thesis
  proof (cases "isWriting ch \<and> (\<exists>n. wr = Inr n \<and> 0 < n)")
    case True
    then obtain n where n: "wr = Inr n" "0 < n" "n \<le> readableBytes (outputBuffer c)" using wr by auto
    obtain out where out: "retrieve (outputBuffer c) n = Some out" "buf_inv out"
        "content out = drop n (content (outputBuffer c))" "readableBytes out = readableBytes (outputBuffer c) - n"
      using retrieve_ok [OF b n(3)] .
    let ?w = "wire c @ take n (content (outputBuffer c))"
    have sl: "slice (outputBuffer c) (peek (outputBuffer c)) (peek (outputBuffer c) + n) = take n (content (outputBuffer c))"
      by (rule content_split [OF b n(3)])
    let ?c1 = "c\<lparr>wire := ?w, outputBuffer := out\<rparr>"
    have hw: "handleWrite c wr = (if readableBytes out = 0 then do {
        c \<leftarrow> on_channel disableWriting ?c1;
        let c = (if writeCompleteCallback c then queue c F_writeComplete else c);
        if state c = kDisconnecting then shutdownInLoop c else Some c
      } else Some ?c1)"
      using ch True n out(1) sl by (simp add: handleWrite_def)
    show ?thesis
    proof (cases "readableBytes out = 0")
      case z: True
      then have "content out = []" "?w = wire c @ content (outputBuffer c)"
        using out(2,4) n(3) readable_zero [OF out(2)] length_content [OF b] by simp_all
      from drained_ok [OF inv up out(2) this] show ?thesis using z hw by simp
    next
      case False
      then have "content out \<noteq> []" using readable_zero [OF out(2)] by simp
      moreover have "content (outputBuffer c) = take n (content (outputBuffer c)) @ content out" using out(3) by simp
      ultimately have "step_ok c [] ?c1"
        using inv up out(2) True ch by (auto simp: step_ok_def tcp_defs writing_def simp flip: out(3))
      then show ?thesis using False hw by simp
    qed
  next
    case False
    then have "handleWrite c wr = Some c" using ch by (auto simp: handleWrite_def split: sum.splits)
    then show ?thesis using step_ok_refl [OF inv] by simp
  qed
qed

lemma handleRead_ok:
  assumes inv: "tcp_inv c" and up: "up c"
  shows "\<exists>c'. handleRead c rv = Some c' \<and> step_ok c [] c'"
proof (cases rv)
  case (Inl e)
  then show ?thesis using step_ok_refl [OF inv] by (simp add: handleRead_def readFd_def)
next
  case (Inr data)
  have "buf_inv (inputBuffer c)" using inv by (simp add: tcp_inv_def)
  then obtain b where b: "readFd (inputBuffer c) (Inr data) = Some (int (length data), None, b)" "buf_inv b"
    using readFd_ok by metis
  let ?c = "c\<lparr>inputBuffer := b\<rparr>"
  have inv': "tcp_inv ?c" "step_ok c [] ?c" using inv b(2) by (auto simp: tcp_defs step_ok_def)
  have m: "step_ok c [] (called_back ?c C_message)"
    using inv b(2) by (auto simp: tcp_defs step_ok_def called_back_def)
  have "up ?c" using up by (simp add: up_def)
  from handleClose_ok [OF inv'(1) this] obtain c' where c': "handleClose ?c = Some c'" "step_ok ?c [] c'" by auto
  have "step_ok c [] c'" using step_ok_trans [OF inv'(2) c'(2)] by (simp add: close_called_def)
  with c'(1) m Inr b(1) show ?thesis by (cases "data = []") (simp_all add: handleRead_def)
qed

lemma send_ok:
  assumes inv: "tcp_inv c" and wr: "\<And>k. wr = Inr k \<Longrightarrow> k \<le> length m"
  shows "\<exists>c'. send c inLoop m wr = Some c' \<and> step_ok c (if inLoop \<and> state c = kConnected then accepts c m wr else []) c'"
proof (cases "state c = kConnected")
  case True
  then obtain c' where "sendInLoop c m wr = Some c'" "tcp_inv c'" "same_conn c c'" "stream c' = stream c @ accepts c m wr"
    using sendInLoop_ok [OF inv _ wr] by auto
  then have "sendInLoop c m wr = Some c'" "step_ok c (accepts c m wr) c'" by (auto simp: step_ok_def same_conn_def)
  moreover have "step_ok c [] (queue c (F_sendInLoop m))" using inv True by (auto simp: step_ok_def tcp_defs queue_def)
  ultimately show ?thesis using True by (cases inLoop) (simp_all add: send_def)
qed (use step_ok_refl [OF inv] in \<open>simp add: send_def\<close>)

lemma run_functor_ok:
  assumes inv: "tcp_inv c" and en: "enabled c (Op_functor wr)"
  shows "\<exists>c'. run_functor c wr = Some c' \<and> step_ok c (accepted c (Op_functor wr)) c'"
proof (cases "functors c")
  case Nil
  then show ?thesis using step_ok_refl [OF inv] by (simp add: run_functor_def)
next
  case (Cons f fs)
  then have st: "state c \<noteq> kConnecting" using inv by (auto simp: tcp_inv_def)
  let ?c = "c\<lparr>functors := fs\<rparr>"
  have inv': "tcp_inv ?c" and s: "step_ok c [] ?c" using inv st by (auto simp: tcp_defs step_ok_def)
  have lift: "step_ok c x c'" if "step_ok ?c x c'" for x c'
    using step_ok_trans [OF s that] by (simp add: close_called_def)
  show ?thesis
  proof (cases f)
    case (F_sendInLoop m)
    then obtain c' where "sendInLoop ?c m wr = Some c'" "tcp_inv c'" "same_conn ?c c'" "stream c' = stream ?c @ accepts ?c m wr"
      using sendInLoop_ok [OF inv', of wr m] st en Cons by auto
    moreover have "accepts ?c m wr = accepts c m wr" by (simp add: accepts_def)
    ultimately show ?thesis using Cons F_sendInLoop by (auto simp: run_functor_def step_ok_def same_conn_def stream_def)
  next
    case F_shutdownInLoop
    then show ?thesis using shutdownInLoop_ok [OF inv'] st Cons lift by (auto simp: run_functor_def)
  next
    case F_forceCloseInLoop
    have "\<exists>c'. forceCloseInLoop ?c = Some c' \<and> step_ok ?c [] c'"
      using handleClose_ok [OF inv'] step_ok_refl [OF inv'] by (auto simp: forceCloseInLoop_def up_def)
    then show ?thesis using Cons F_forceCloseInLoop lift by (auto simp: run_functor_def)
  next
    case F_writeComplete
    then show ?thesis using Cons inv st by (auto simp: run_functor_def step_ok_def tcp_defs called_back_def)
  next
    case (F_highWaterMark n)
    then show ?thesis using Cons inv st by (auto simp: run_functor_def step_ok_def tcp_defs called_back_def)
  qed
qed

lemma conn_op_ok:
  assumes inv: "tcp_inv c" and en: "enabled c x"
  shows "\<exists>c'. conn_op c x = Some c' \<and> step_ok c (accepted c x) c'"
proof (cases x)
  case Op_forceClose
  have "step_ok c [] (forceClose c)" using inv by (auto simp: forceClose_def step_ok_def tcp_defs queue_def setState_def)
  then show ?thesis using Op_forceClose by simp
next
  case (Op_take n)
  have b: "buf_inv (inputBuffer c)" using inv by (simp add: tcp_inv_def)
  obtain b' where "retrieve (inputBuffer c) n = Some b'" "buf_inv b'"
    using retrieve_ok [OF b] en Op_take by auto
  then show ?thesis using Op_take inv by (auto simp: step_ok_def tcp_defs)
next
  case Op_setWriteComplete
  then show ?thesis using inv by (auto simp: step_ok_def tcp_defs setWriteCompleteCallback_def)
next
  case (Op_setHighWaterMark n)
  then show ?thesis using inv by (auto simp: step_ok_def tcp_defs setHighWaterMarkCallback_def)
next
  case Op_destroyed
  then show ?thesis using connectDestroyed_ok [OF inv] en by auto
qed (use inv en connectEstablished_ok handleRead_ok handleWrite_ok handleClose_ok shutdown_ok send_ok run_functor_ok in \<open>auto\<close>)

fun enabled_all :: "connection \<Rightarrow> conn_step list \<Rightarrow> bool" where
  "enabled_all c [] = True"
| "enabled_all c (x # xs) = (enabled c x \<and> (case conn_op c x of None \<Rightarrow> True | Some c' \<Rightarrow> enabled_all c' xs))"

fun accepted_all :: "connection \<Rightarrow> conn_step list \<Rightarrow> bytes" where
  "accepted_all c [] = []"
| "accepted_all c (x # xs) = accepted c x @ (case conn_op c x of None \<Rightarrow> [] | Some c' \<Rightarrow> accepted_all c' xs)"

lemma conn_ops_ok:
  "tcp_inv c \<Longrightarrow> enabled_all c xs \<Longrightarrow>
     \<exists>c'. conn_ops c xs = Some c' \<and> tcp_inv c' \<and> stream c' = stream c @ accepted_all c xs"
proof (induction xs arbitrary: c)
  case (Cons x xs)
  then obtain c1 where "conn_op c x = Some c1" "step_ok c (accepted c x) c1" using conn_op_ok [of c x] by auto
  then show ?case using Cons.IH [of c1] Cons.prems unfolding step_ok_def by auto
qed simp

lemma TcpConnection_new_inv:
  assumes "poller_inv w" "chans w a = None" "channels w sockfd = None" "0 \<le> sockfd"
  shows "tcp_inv (TcpConnection_new w n sockfd a)" "stream (TcpConnection_new w n sockfd a) = []"
  using assms poller_inv_create [OF assms(1,2)]
  by (auto simp: TcpConnection_new_def Let_def tcp_defs chan_of_def writing_def may_update_def isWriting_def
      kWriteEvent_def Channel_new_def)

section \<open>Properties\<close>

text \<open>
  C21: Output of a connection, over every run of a new connection (sends from any thread, partial and
  failing writes, shutdown, close, callbacks): no assertion fails, and the bytes accepted by the kernel
  followed by those in the output buffer are exactly the messages that were not given up, in order. A
  message is given up only as a whole, when the connection is down or its first write fails with
  \<open>EPIPE\<close> or \<open>ECONNRESET\<close>. Until the connection is closed the channel waits for writability exactly when
  bytes are left.
\<close>

theorem connection_output:
  assumes "poller_inv w" "chans w a = None" "channels w sockfd = None" "0 \<le> sockfd"
    and "enabled_all (TcpConnection_new w n sockfd a) xs"
  shows "\<exists>c. conn_ops (TcpConnection_new w n sockfd a) xs = Some c
    \<and> wire c @ content (outputBuffer c) = accepted_all (TcpConnection_new w n sockfd a) xs
    \<and> (up c \<and> \<not> close_called c \<longrightarrow> writing c = (content (outputBuffer c) \<noteq> []))"
proof -
  note new = TcpConnection_new_inv [OF assms(1-4), of n]
  from conn_ops_ok [OF new(1) assms(5)] obtain c where "conn_ops (TcpConnection_new w n sockfd a) xs = Some c"
    "tcp_inv c" "stream c = accepted_all (TcpConnection_new w n sockfd a) xs" using new(2) by auto
  then show ?thesis by (auto simp: tcp_inv_def stream_def)
qed

text \<open>
  C22: Graceful shutdown: in every run of a new connection, the step that shuts down the write side of a
  connection that is not closed or destroyed leaves no byte behind: all messages accepted before it have
  been handed to the kernel.
\<close>

theorem shutdown_after_drain:
  assumes "poller_inv w" "chans w a = None" "channels w sockfd = None" "0 \<le> sockfd"
    and "enabled_all (TcpConnection_new w n sockfd a) xs" "conn_ops (TcpConnection_new w n sockfd a) xs = Some c"
    and "enabled c x" "conn_op c x = Some c'" "\<not> shut c" "shut c'" "\<not> close_called c" "state c \<noteq> kDisconnected"
  shows "content (outputBuffer c') = []
    \<and> wire c' = accepted_all (TcpConnection_new w n sockfd a) xs @ accepted c x"
proof -
  note new = TcpConnection_new_inv [OF assms(1-4), of n]
  have c: "tcp_inv c" "stream c = accepted_all (TcpConnection_new w n sockfd a) xs"
    using conn_ops_ok [OF new(1) assms(5)] assms(6) new(2) by auto
  then have "step_ok c (accepted c x) c'" using conn_op_ok [OF c(1) assms(7)] assms(8) by simp
  then show ?thesis using c(2) assms(9-12) by (auto simp: step_ok_def stream_def)
qed

definition demo_conn :: connection where
  "demo_conn = TcpConnection_new Poller_new ''c'' 5 9"

definition demo_sent :: connection where
  "demo_sent = the (conn_ops demo_conn [Op_established, Op_send True ''ab'' (Inr 2), Op_shutdown False])"

lemmas conn_eval = demo_conn_def TcpConnection_new_def connectEstablished_def on_channel_def enableReading_def
  Channel_update_def Poller_updateChannel_def Poller_new_def Channel_new_def set_reading_def setState_def called_back_def
  send_def sendInLoop_def direct_write_def chan_of_def isWriting_def kReadEvent_def kWriteEvent_def poll_bits
  Buffer_new_def readableBytes_def shutdown_def queue_def run_functor_def shutdownInLoop_def

lemma demo_conn_ops:
  "conn_ops demo_conn [Op_established, Op_send True ''ab'' (Inr 2), Op_shutdown False] = Some demo_sent
   \<and> enabled_all demo_conn [Op_established, Op_send True ''ab'' (Inr 2), Op_shutdown False]
   \<and> accepted_all demo_conn [Op_established, Op_send True ''ab'' (Inr 2), Op_shutdown False] = ''ab''
   \<and> \<not> shut demo_sent \<and> \<not> close_called demo_sent \<and> state demo_sent = kDisconnecting
   \<and> functors demo_sent = [F_shutdownInLoop]"
  by (simp add: conn_eval demo_sent_def Let_def accepts_def close_called_def)

lemma demo_fresh: "poller_inv Poller_new" "chans Poller_new 9 = None" "channels Poller_new 5 = None" "(0 :: int) \<le> 5"
  by (simp_all add: Poller_new_inv) (simp_all add: Poller_new_def)

theorem connection_output_witness:
  "\<exists>c. conn_ops demo_conn [Op_established, Op_send True ''ab'' (Inr 2), Op_shutdown False] = Some c
     \<and> wire c @ content (outputBuffer c) = ''ab''"
  using connection_output [OF demo_fresh, of "''c''", folded demo_conn_def] demo_conn_ops by metis

theorem shutdown_after_drain_witness:
  "\<exists>c'. conn_op demo_sent (Op_functor (Inr 0)) = Some c' \<and> wire c' = ''ab''"
proof -
  have "\<exists>c'. conn_op demo_sent (Op_functor (Inr 0)) = Some c' \<and> shut c'"
    by (simp add: conn_eval demo_sent_def Let_def)
  moreover have "enabled demo_sent (Op_functor (Inr 0))" "accepted demo_sent (Op_functor (Inr 0)) = []"
    using demo_conn_ops by simp_all
  ultimately show ?thesis
    using shutdown_after_drain [OF demo_fresh, of "''c''", folded demo_conn_def] demo_conn_ops by fastforce
qed

end
