(* ===== verification/Threads.thy ===== *)
theory Threads
  imports Prelude "HOL-Library.Word"
begin

text \<open>
  The thread layer: \<open>AtomicIntegerT\<close> (\<open>src/Atomic.h\<close>), \<open>Thread\<close> (\<open>src/Thread.h\<close>, \<open>src/Thread.cc\<close>),
  \<open>MutexLock\<close> and \<open>Condition\<close> (\<open>src/Mutex.h\<close>, \<open>src/Condition.h\<close>), \<open>EventLoopThread\<close>
  (\<open>src/EventLoopThread.cc\<close>) with the handshake of its two threads as a step relation, and the
  round robin of \<open>EventLoopThreadPool\<close> (\<open>src/EventLoopThreadPool.cc\<close>). Loops are addresses. The \<open>pthread\<close>
  calls are modelled by their documented effect: a mutex has at most one owner, and
  \<open>pthread_cond_wait\<close> releases it and acquires it again.
\<close>

section \<open>Atomic integers\<close>

type_synonym 'w atomic = "'w word"

definition Atomic_new :: "'w :: len atomic" where "Atomic_new = 0"

text \<open>The compare-and-swap of 0 with 0 reads the value.\<close>

definition atomic_get :: "'w :: len atomic \<Rightarrow> 'w word \<times> 'w atomic" where
  "atomic_get a = (a, if a = 0 then 0 else a)"

definition getAndAdd :: "'w :: len atomic \<Rightarrow> 'w word \<Rightarrow> 'w word \<times> 'w atomic" where
  "getAndAdd a x = (a, a + x)"

definition addAndGet :: "'w :: len atomic \<Rightarrow> 'w word \<Rightarrow> 'w word \<times> 'w atomic" where
  "addAndGet a x = (let (v, a) = getAndAdd a x in (v + x, a))"

definition incrementAndGet :: "'w :: len atomic \<Rightarrow> 'w word \<times> 'w atomic" where
  "incrementAndGet a = addAndGet a 1"

definition decrementAndGet :: "'w :: len atomic \<Rightarrow> 'w word \<times> 'w atomic" where
  "decrementAndGet a = addAndGet a (- 1)"

definition atomic_add :: "'w :: len atomic \<Rightarrow> 'w word \<Rightarrow> 'w atomic" where
  "atomic_add a x = snd (getAndAdd a x)"

definition increment :: "'w :: len atomic \<Rightarrow> 'w atomic" where
  "increment a = snd (incrementAndGet a)"

definition decrement :: "'w :: len atomic \<Rightarrow> 'w atomic" where
  "decrement a = snd (decrementAndGet a)"

definition getAndSet :: "'w :: len atomic \<Rightarrow> 'w word \<Rightarrow> 'w word \<times> 'w atomic" where
  "getAndSet a newValue = (a, newValue)"

lemmas atomic_defs = atomic_get_def getAndAdd_def addAndGet_def incrementAndGet_def decrementAndGet_def
  atomic_add_def increment_def decrement_def getAndSet_def

lemma atomic_returns_new: "fst (addAndGet a x) = snd (addAndGet a x)"
  by (simp add: atomic_defs)

lemma increment_decrement: "decrement (increment a) = a"
  by (simp add: atomic_defs)

section \<open>Threads\<close>

record thread =
  started_flag :: bool
  joined :: bool
  pthreadId :: nat
  thread_name :: string

text \<open>\<open>snprintf\<close> into a buffer of \<open>n\<close> bytes.\<close>

definition snprintf :: "nat \<Rightarrow> string \<Rightarrow> string" where
  "snprintf n s = take (n - 1) s"

text \<open>\<open>numCreated_\<close> is the atomic counter before and after.\<close>

definition setDefaultName :: "thread \<Rightarrow> 32 atomic \<Rightarrow> thread \<times> 32 atomic" where
  "setDefaultName t numCreated =
     (let (num, numCreated) = incrementAndGet numCreated
      in (if thread_name t = [] then t\<lparr>thread_name := snprintf 32 (''Thread'' @ show_int (sint num))\<rparr> else t,
          numCreated))"

definition Thread_new :: "string \<Rightarrow> 32 atomic \<Rightarrow> thread \<times> 32 atomic" where
  "Thread_new n numCreated =
     setDefaultName \<lparr>started_flag = False, joined = False, pthreadId = 0, thread_name = n\<rparr> numCreated"

definition started :: "thread \<Rightarrow> bool" where
  "started t \<longleftrightarrow> pthreadId t \<noteq> 0"

text \<open>\<open>start\<close>: \<open>created\<close> is the thread that \<open>pthread_create\<close> makes; failing is fatal.\<close>

definition Thread_start :: "thread \<Rightarrow> nat option \<Rightarrow> thread option" where
  "Thread_start t created = do {
     ensure (\<not> started_flag t);
     i \<leftarrow> created;
     Some (t\<lparr>started_flag := True, pthreadId := i\<rparr>)
   }"

definition Thread_join :: "thread \<Rightarrow> thread option" where
  "Thread_join t = do {
     ensure (started_flag t);
     ensure (\<not> joined t);
     Some (t\<lparr>joined := True\<rparr>)
   }"

text \<open>The destructor detaches a thread that was started and not joined.\<close>

definition Thread_dtor :: "thread \<Rightarrow> bool" where
  "Thread_dtor t \<longleftrightarrow> started_flag t \<and> \<not> joined t"

lemma thread_join_once: "Thread_join t = Some t' \<Longrightarrow> Thread_join t' = None \<and> \<not> Thread_dtor t'"
  by (auto simp: Thread_join_def Thread_dtor_def)

section \<open>Mutex and condition\<close>

text \<open>\<open>owner\<close> is the kernel's view, \<open>holder\<close> the member \<open>holder_\<close>.\<close>

record mutex =
  owner :: "int option"
  holder :: int

definition MutexLock_new :: mutex where "MutexLock_new = \<lparr>owner = None, holder = 0\<rparr>"

definition MutexLock_dtor :: "mutex \<Rightarrow> unit option" where
  "MutexLock_dtor m = ensure (holder m = 0)"

definition isLockedByThisThread :: "mutex \<Rightarrow> int \<Rightarrow> bool" where
  "isLockedByThisThread m tid \<longleftrightarrow> holder m = tid"

definition assertLocked :: "mutex \<Rightarrow> int \<Rightarrow> unit option" where
  "assertLocked m tid = ensure (isLockedByThisThread m tid)"

text \<open>\<open>None\<close>: the caller blocks.\<close>

definition lock :: "mutex \<Rightarrow> int \<Rightarrow> mutex option" where
  "lock m tid = (if owner m = None then Some (m\<lparr>owner := Some tid, holder := tid\<rparr>) else None)"

definition unlock :: "mutex \<Rightarrow> mutex" where
  "unlock m = m\<lparr>holder := 0, owner := None\<rparr>"

text \<open>The two halves of \<open>Condition::wait\<close>, which calls \<open>pthread_cond_wait\<close> on the mutex inside \<open>MutexLock\<close>.\<close>

definition wait_release :: "mutex \<Rightarrow> mutex" where
  "wait_release m = m\<lparr>owner := None\<rparr>"

definition wait_acquire :: "mutex \<Rightarrow> int \<Rightarrow> mutex option" where
  "wait_acquire m tid = (if owner m = None then Some (m\<lparr>owner := Some tid\<rparr>) else None)"

section \<open>EventLoopThread\<close>

datatype main_pc = M_start | M_lock | M_test | M_wait | M_woken | M_unlock | M_done
datatype func_pc = T_none | T_lock | T_set | T_notify | T_unlock | T_loop

record loop_thread =
  loop_ptr :: "nat option"
  thread_obj :: thread
  mtx :: mutex
  main_pc :: main_pc
  func_pc :: func_pc

definition EventLoopThread_new :: "thread \<Rightarrow> loop_thread" where
  "EventLoopThread_new t = \<lparr>loop_ptr = None, thread_obj = t, mtx = MutexLock_new, main_pc = M_start, func_pc = T_none\<rparr>"

text \<open>
  \<open>startLoop\<close> in the calling thread (id 1) and \<open>threadFunc\<close> in the new one (id 2), whose stack holds the
  loop at address \<open>l\<close>. A wait may also end without a signal.
\<close>

inductive lt_step :: "nat \<Rightarrow> loop_thread \<Rightarrow> loop_thread \<Rightarrow> bool" for l :: nat where
  start: "main_pc s = M_start \<Longrightarrow> \<not> started (thread_obj s) \<Longrightarrow> i \<noteq> 0 \<Longrightarrow> Thread_start (thread_obj s) (Some i) = Some t \<Longrightarrow>
     lt_step l s (s\<lparr>thread_obj := t, main_pc := M_lock, func_pc := T_lock\<rparr>)"
| main_lock: "main_pc s = M_lock \<Longrightarrow> lock (mtx s) 1 = Some m \<Longrightarrow> lt_step l s (s\<lparr>mtx := m, main_pc := M_test\<rparr>)"
| main_wait: "main_pc s = M_test \<Longrightarrow> loop_ptr s = None \<Longrightarrow>
     lt_step l s (s\<lparr>mtx := wait_release (mtx s), main_pc := M_wait\<rparr>)"
| spurious: "main_pc s = M_wait \<Longrightarrow> lt_step l s (s\<lparr>main_pc := M_woken\<rparr>)"
| main_acquire: "main_pc s = M_woken \<Longrightarrow> wait_acquire (mtx s) 1 = Some m \<Longrightarrow> lt_step l s (s\<lparr>mtx := m, main_pc := M_test\<rparr>)"
| main_found: "main_pc s = M_test \<Longrightarrow> loop_ptr s \<noteq> None \<Longrightarrow> lt_step l s (s\<lparr>main_pc := M_unlock\<rparr>)"
| main_unlock: "main_pc s = M_unlock \<Longrightarrow> lt_step l s (s\<lparr>mtx := unlock (mtx s), main_pc := M_done\<rparr>)"
| func_lock: "func_pc s = T_lock \<Longrightarrow> lock (mtx s) 2 = Some m \<Longrightarrow> lt_step l s (s\<lparr>mtx := m, func_pc := T_set\<rparr>)"
| func_set: "func_pc s = T_set \<Longrightarrow> lt_step l s (s\<lparr>loop_ptr := Some l, func_pc := T_notify\<rparr>)"
| func_notify: "func_pc s = T_notify \<Longrightarrow>
     lt_step l s (s\<lparr>main_pc := (if main_pc s = M_wait then M_woken else main_pc s), func_pc := T_unlock\<rparr>)"
| func_unlock: "func_pc s = T_unlock \<Longrightarrow> lt_step l s (s\<lparr>mtx := unlock (mtx s), func_pc := T_loop\<rparr>)"

inductive lt_steps :: "nat \<Rightarrow> loop_thread \<Rightarrow> loop_thread \<Rightarrow> bool" for l :: nat where
  lt_refl: "lt_steps l s s"
| lt_cons: "lt_step l s s' \<Longrightarrow> lt_steps l s' s'' \<Longrightarrow> lt_steps l s s''"

definition lt_inv :: "nat \<Rightarrow> loop_thread \<Rightarrow> bool" where
  "lt_inv l s \<longleftrightarrow> (owner (mtx s) = Some 1) = (main_pc s \<in> {M_test, M_unlock})
     \<and> (owner (mtx s) = Some 2) = (func_pc s \<in> {T_set, T_notify, T_unlock})
     \<and> owner (mtx s) \<in> {None, Some 1, Some 2}
     \<and> (func_pc s = T_none \<longleftrightarrow> main_pc s = M_start)
     \<and> loop_ptr s = (if func_pc s \<in> {T_notify, T_unlock, T_loop} then Some l else None)
     \<and> (main_pc s = M_wait \<longrightarrow> func_pc s \<in> {T_lock, T_set, T_notify})
     \<and> (main_pc s \<in> {M_unlock, M_done} \<longrightarrow> loop_ptr s \<noteq> None)
     \<and> (main_pc s = M_start \<longrightarrow> \<not> started_flag (thread_obj s) \<and> \<not> started (thread_obj s))"

lemmas mutex_defs = lock_def unlock_def wait_release_def wait_acquire_def

lemma lt_step_inv: "lt_step l s s' \<Longrightarrow> lt_inv l s \<Longrightarrow> lt_inv l s'"
proof (induction rule: lt_step.induct)
  case (main_wait s)
  then show ?case by (cases "func_pc s") (auto simp: lt_inv_def mutex_defs)
qed (auto simp: lt_inv_def mutex_defs split: if_splits)

lemma lt_steps_inv: "lt_steps l s s' \<Longrightarrow> lt_inv l s \<Longrightarrow> lt_inv l s'"
  by (induction rule: lt_steps.induct) (auto intro: lt_step_inv)

text \<open>How far the two threads are from the end.\<close>

fun main_left :: "main_pc \<Rightarrow> nat" where
  "main_left M_start = 6" | "main_left M_lock = 5" | "main_left M_woken = 5" | "main_left M_test = 4"
| "main_left M_wait = 3" | "main_left M_unlock = 1" | "main_left M_done = 0"

fun func_left :: "func_pc \<Rightarrow> nat" where
  "func_left T_none = 6" | "func_left T_lock = 5" | "func_left T_set = 4" | "func_left T_notify = 3"
| "func_left T_unlock = 2" | "func_left T_loop = 0"

definition lt_left :: "loop_thread \<Rightarrow> nat" where
  "lt_left s = 10 * func_left (func_pc s) + main_left (main_pc s)"

text \<open>The thread function moves when it can, else the caller.\<close>

definition lt_can_move :: "nat \<Rightarrow> loop_thread \<Rightarrow> bool" where
  "lt_can_move l s \<longleftrightarrow> (\<exists>s'. lt_step l s s' \<and> lt_left s' < lt_left s)"

lemma lt_can_moveI: "lt_step l s s' \<Longrightarrow> lt_left s' < lt_left s \<Longrightarrow> lt_can_move l s"
  by (auto simp: lt_can_move_def)

lemma lt_func_progress:
  assumes "lt_inv l s" "func_pc s \<in> {T_lock, T_set, T_notify, T_unlock}" "owner (mtx s) \<noteq> Some 1"
  shows "lt_can_move l s"
proof (cases "func_pc s")
  case T_lock
  then have "lock (mtx s) 2 = Some ((mtx s)\<lparr>owner := Some 2, holder := 2\<rparr>)"
    using assms by (auto simp: lt_inv_def lock_def)
  from lt_can_moveI [OF lt_step.func_lock [OF T_lock this]] show ?thesis by (simp add: lt_left_def T_lock)
next
  case T_set
  from lt_can_moveI [OF lt_step.func_set [OF this]] show ?thesis by (simp add: lt_left_def T_set)
next
  case T_notify
  from lt_can_moveI [OF lt_step.func_notify [OF this]] show ?thesis by (simp add: lt_left_def T_notify)
next
  case T_unlock
  from lt_can_moveI [OF lt_step.func_unlock [OF this]] show ?thesis by (simp add: lt_left_def T_unlock)
qed (use assms in auto)

lemma lt_main_progress:
  assumes inv: "lt_inv l s" and "main_pc s \<noteq> M_done" "func_pc s \<in> {T_none, T_loop} \<or> owner (mtx s) = Some 1"
  shows "lt_can_move l s"
proof (cases "main_pc s")
  case M_start
  then have "Thread_start (thread_obj s) (Some 1) = Some ((thread_obj s)\<lparr>started_flag := True, pthreadId := 1\<rparr>)"
    and "\<not> started (thread_obj s)" "func_pc s = T_none"
    using inv by (simp_all add: lt_inv_def Thread_start_def)
  from lt_can_moveI [OF lt_step.start [OF M_start this(2) _ this(1)]] show ?thesis
    using \<open>func_pc s = T_none\<close> by (simp add: lt_left_def M_start)
next
  case M_lock
  then have "lock (mtx s) 1 = Some ((mtx s)\<lparr>owner := Some 1, holder := 1\<rparr>)"
    using assms by (auto simp: lt_inv_def lock_def)
  from lt_can_moveI [OF lt_step.main_lock [OF M_lock this]] show ?thesis by (simp add: lt_left_def M_lock)
next
  case M_test
  show ?thesis
  proof (cases "loop_ptr s = None")
    case True
    from lt_can_moveI [OF lt_step.main_wait [OF M_test this]] show ?thesis by (simp add: lt_left_def M_test)
  next
    case False
    from lt_can_moveI [OF lt_step.main_found [OF M_test this]] show ?thesis by (simp add: lt_left_def M_test)
  qed
next
  case M_woken
  then have "wait_acquire (mtx s) 1 = Some ((mtx s)\<lparr>owner := Some 1\<rparr>)"
    using assms by (auto simp: lt_inv_def wait_acquire_def)
  from lt_can_moveI [OF lt_step.main_acquire [OF M_woken this]] show ?thesis by (simp add: lt_left_def M_woken)
next
  case M_unlock
  from lt_can_moveI [OF lt_step.main_unlock [OF this]] show ?thesis by (simp add: lt_left_def M_unlock)
qed (use assms in \<open>auto simp: lt_inv_def\<close>)

lemma lt_progress:
  assumes "lt_inv l s" "main_pc s \<noteq> M_done"
  shows "\<exists>s'. lt_step l s s' \<and> lt_left s' < lt_left s"
  using lt_func_progress [OF assms(1)] lt_main_progress [OF assms] unfolding lt_can_move_def
  by (cases "func_pc s") auto

lemma lt_finishes: "lt_inv l s \<Longrightarrow> \<exists>s'. lt_steps l s s' \<and> main_pc s' = M_done"
proof (induction "lt_left s" arbitrary: s rule: less_induct)
  case less
  show ?case
  proof (cases "main_pc s = M_done")
    case True
    then show ?thesis using lt_steps.lt_refl by blast
  next
    case False
    then obtain s1 where s1: "lt_step l s s1" "lt_left s1 < lt_left s" using lt_progress [OF less.prems] by blast
    then obtain s' where "lt_steps l s1 s'" "main_pc s' = M_done"
      using less.hyps lt_step_inv [OF s1(1) less.prems] by blast
    with s1(1) show ?thesis using lt_steps.lt_cons by blast
  qed
qed

lemma lt_inv_new: "\<not> started t \<Longrightarrow> \<not> started_flag t \<Longrightarrow> lt_inv l (EventLoopThread_new t)"
  by (simp add: lt_inv_def EventLoopThread_new_def MutexLock_new_def)

text \<open>
  C25: \<open>startLoop\<close> under every interleaving with the thread it starts and with spurious wakeups: it returns
  the loop of that thread and never a null pointer, the mutex excludes the two, no notification is lost
  (it waits only while the thread has not signalled), and it can always finish.
\<close>

theorem startLoop_handshake:
  assumes "lt_steps l (EventLoopThread_new (fst (Thread_new n c))) s"
  shows "(main_pc s = M_done \<longrightarrow> loop_ptr s = Some l)
    \<and> (main_pc s = M_wait \<longrightarrow> func_pc s \<in> {T_lock, T_set, T_notify})
    \<and> \<not> (main_pc s \<in> {M_test, M_unlock} \<and> func_pc s \<in> {T_set, T_notify, T_unlock})
    \<and> (\<exists>s'. lt_steps l s s' \<and> main_pc s' = M_done)"
proof -
  have "lt_inv l (EventLoopThread_new (fst (Thread_new n c)))"
    by (rule lt_inv_new) (simp_all add: Thread_new_def setDefaultName_def started_def split: prod.splits)
  then have inv: "lt_inv l s" using lt_steps_inv assms by blast
  note inv' = inv [unfolded lt_inv_def]
  have own: "(owner (mtx s) = Some 1) = (main_pc s \<in> {M_test, M_unlock})"
    "(owner (mtx s) = Some 2) = (func_pc s \<in> {T_set, T_notify, T_unlock})"
    and wait: "main_pc s = M_wait \<longrightarrow> func_pc s \<in> {T_lock, T_set, T_notify}"
    and ptr: "loop_ptr s = (if func_pc s \<in> {T_notify, T_unlock, T_loop} then Some l else None)"
      "main_pc s \<in> {M_unlock, M_done} \<longrightarrow> loop_ptr s \<noteq> None"
    using inv' by blast+
  have "main_pc s = M_done \<longrightarrow> loop_ptr s = Some l"
    using ptr by (metis insertI1 insert_commute)
  moreover have "\<not> (main_pc s \<in> {M_test, M_unlock} \<and> func_pc s \<in> {T_set, T_notify, T_unlock})"
    unfolding own [symmetric] by simp
  moreover note wait
  ultimately show ?thesis using lt_finishes [OF inv] by blast
qed

theorem startLoop_handshake_witness:
  "\<exists>s'. lt_steps 7 (EventLoopThread_new (fst (Thread_new ''x'' 0))) s' \<and> main_pc s' = M_done"
  using startLoop_handshake [OF lt_steps.lt_refl, of "''x''" 0 7] by blast

text \<open>After a wait the mutex is held and \<open>holder_\<close> is not the holder.\<close>

lemma holder_lost_by_wait:
  assumes "lock MutexLock_new 1 = Some m" "lock (wait_release m) 2 = Some m2" "wait_acquire (unlock m2) 1 = Some m3"
  shows "owner m3 = Some 1 \<and> \<not> isLockedByThisThread m3 1 \<and> assertLocked m3 1 = None"
  using assms by (auto simp: mutex_defs MutexLock_new_def isLockedByThisThread_def assertLocked_def)

section \<open>EventLoopThreadPool\<close>

record pool =
  baseLoop :: nat
  pool_started :: bool
  pool_name :: string
  numThreads :: int
  next_loop :: int
  loops :: "nat list"

definition EventLoopThreadPool_new :: "nat \<Rightarrow> string \<Rightarrow> pool" where
  "EventLoopThreadPool_new base nameArg =
     \<lparr>baseLoop = base, pool_started = False, pool_name = nameArg, numThreads = 0, next_loop = 0, loops = []\<rparr>"

definition setThreadNum :: "pool \<Rightarrow> int \<Rightarrow> pool" where
  "setThreadNum p n = p\<lparr>numThreads := n\<rparr>"

text \<open>\<open>start\<close>: \<open>startLoop i\<close> is the loop the \<open>i\<close>-th new thread returns.\<close>

fun start_threads :: "(nat \<Rightarrow> nat) \<Rightarrow> nat \<Rightarrow> nat \<Rightarrow> nat list" where
  "start_threads startLoop i 0 = []"
| "start_threads startLoop i (Suc n) = startLoop i # start_threads startLoop (Suc i) n"

definition pool_start :: "pool \<Rightarrow> (nat \<Rightarrow> nat) \<Rightarrow> pool option" where
  "pool_start p startLoop = do {
     ensure (\<not> pool_started p);
     Some (p\<lparr>pool_started := True, loops := loops p @ start_threads startLoop 0 (nat (numThreads p))\<rparr>)
   }"

text \<open>An index outside \<open>loops_\<close> is undefined behaviour: \<open>None\<close>.\<close>

definition getNextLoop :: "pool \<Rightarrow> (nat \<times> pool) option" where
  "getNextLoop p =
     (if loops p \<noteq> [] then do {
        ensure (0 \<le> next_loop p \<and> nat (next_loop p) < length (loops p));
        let loop = loops p ! nat (next_loop p);
        let next = next_loop p + 1;
        let next = (if nat next \<ge> length (loops p) then 0 else next);
        Some (loop, p\<lparr>next_loop := next\<rparr>)
      }
      else Some (baseLoop p, p))"

fun take_loops :: "pool \<Rightarrow> nat \<Rightarrow> (nat list \<times> pool) option" where
  "take_loops p 0 = Some ([], p)"
| "take_loops p (Suc n) = do { (l, p) \<leftarrow> getNextLoop p; (ls, p) \<leftarrow> take_loops p n; Some (l # ls, p) }"

definition pool_inv :: "pool \<Rightarrow> bool" where
  "pool_inv p \<longleftrightarrow> 0 \<le> next_loop p \<and> (loops p \<noteq> [] \<longrightarrow> nat (next_loop p) < length (loops p))"

text \<open>The loop for the \<open>k\<close>-th connection.\<close>

definition round_robin :: "pool \<Rightarrow> nat \<Rightarrow> nat" where
  "round_robin p k = (if loops p = [] then baseLoop p else loops p ! ((nat (next_loop p) + k) mod length (loops p)))"

lemma getNextLoop_ok:
  assumes "pool_inv p"
  shows "\<exists>p'. getNextLoop p = Some (round_robin p 0, p') \<and> pool_inv p' \<and> (\<forall>k. round_robin p' k = round_robin p (Suc k))"
proof (cases "loops p = []")
  case True
  then show ?thesis using assms by (auto simp: getNextLoop_def round_robin_def)
next
  case False
  let ?n = "length (loops p)" and ?i = "nat (next_loop p)"
  have i: "?i < ?n" "0 \<le> next_loop p" using assms False by (auto simp: pool_inv_def)
  define nx where "nx = (if nat (next_loop p + 1) \<ge> ?n then 0 else next_loop p + 1)"
  have g: "getNextLoop p = Some (loops p ! ?i, p\<lparr>next_loop := nx\<rparr>)"
    using False i by (simp add: getNextLoop_def Let_def nx_def)
  have "nat (next_loop p + 1) = Suc ?i" using i(2) by linarith
  then have nx: "nat nx = Suc ?i mod ?n" "0 \<le> nx" using i by (auto simp: nx_def le_Suc_eq)
  then have "(nat nx + k) mod ?n = (?i + Suc k) mod ?n" for k by (simp add: mod_add_left_eq)
  then have "round_robin (p\<lparr>next_loop := nx\<rparr>) k = round_robin p (Suc k)" for k
    using False by (simp add: round_robin_def)
  moreover have "pool_inv (p\<lparr>next_loop := nx\<rparr>)" using nx False by (simp add: pool_inv_def)
  moreover have "round_robin p 0 = loops p ! ?i" using i False by (simp add: round_robin_def)
  ultimately show ?thesis using g by metis
qed

lemma take_loops_ok:
  "pool_inv p \<Longrightarrow> \<exists>p'. take_loops p n = Some (map (round_robin p) [0..<n], p') \<and> pool_inv p'"
proof (induction n arbitrary: p)
  case (Suc n)
  obtain p1 where p1: "getNextLoop p = Some (round_robin p 0, p1)" "pool_inv p1"
      "\<forall>k. round_robin p1 k = round_robin p (Suc k)"
    using getNextLoop_ok [OF Suc.prems] by blast
  obtain p2 where "take_loops p1 n = Some (map (round_robin p1) [0..<n], p2)" "pool_inv p2"
    using Suc.IH [OF p1(2)] by blast
  moreover have "map (round_robin p) [0..<Suc n] = round_robin p 0 # map (round_robin p1) [0..<n]"
    unfolding map_upt_Suc using p1(3) by simp
  ultimately show ?case using p1(1) by simp
qed simp

end
