(* ===== verification/TcpServer.thy ===== *)
theory TcpServer
  imports TcpConnection Threads
begin

text \<open>
  \<open>TcpServer\<close> (\<open>src/TcpServer.h\<close>, \<open>src/TcpServer.cc\<close>): accepted connections get a name and an I/O loop
  from the pool, are kept in the map by name until they close, and are then destroyed in their loop.
  Loops are addresses; a connection in the map is the address of its loop. Incrementing \<open>nextConnId_\<close>
  past the largest \<open>int\<close> is undefined: \<open>None\<close>.
\<close>

record server =
  server_name :: string
  ipPort :: string
  threadPool :: pool
  srv_started :: bool
  nextConnId :: int
  listening :: bool
  connections :: "string \<rightharpoonup> nat"

definition TcpServer_new :: "nat \<Rightarrow> string \<Rightarrow> string \<Rightarrow> server" where
  "TcpServer_new loop listenAddr nameArg =
     \<lparr>server_name = nameArg, ipPort = listenAddr, threadPool = EventLoopThreadPool_new loop nameArg,
      srv_started = False, nextConnId = 1, listening = False, connections = Map.empty\<rparr>"

definition TcpServer_setThreadNum :: "server \<Rightarrow> int \<Rightarrow> server option" where
  "TcpServer_setThreadNum sv n = do {
     ensure (0 \<le> n);
     Some (sv\<lparr>threadPool := setThreadNum (threadPool sv) n\<rparr>)
   }"

text \<open>\<open>start\<close> in the loop thread; \<open>startLoop\<close> gives the loops of the new threads.\<close>

definition TcpServer_start :: "server \<Rightarrow> (nat \<Rightarrow> nat) \<Rightarrow> server option" where
  "TcpServer_start sv startLoop =
     (if \<not> srv_started sv then do {
        p \<leftarrow> pool_start (threadPool sv) startLoop;
        let sv = sv\<lparr>srv_started := True, threadPool := p\<rparr>;
        Some (if \<not> listening sv then sv\<lparr>listening := True\<rparr> else sv)
      }
      else Some sv)"

definition newConnection :: "server \<Rightarrow> (string \<times> nat \<times> server) option" where
  "newConnection sv = do {
     let buf = snprintf 32 (CHR ''#'' # show_int (nextConnId sv));
     ensure (nextConnId sv < 2 ^ 31 - 1);
     let connName = server_name sv @ buf;
     (ioLoop, p) \<leftarrow> getNextLoop (threadPool sv);
     Some (connName, ioLoop,
       sv\<lparr>nextConnId := nextConnId sv + 1, threadPool := p, connections := (connections sv)(connName \<mapsto> ioLoop)\<rparr>)
   }"

text \<open>The result is the loop in which \<open>connectDestroyed\<close> is queued.\<close>

definition removeConnectionInLoop :: "server \<Rightarrow> string \<Rightarrow> (nat \<times> server) option" where
  "removeConnectionInLoop sv connName = do {
     let n = (if connections sv connName = None then 0 else 1 :: nat);
     ensure (n = 1);
     ioLoop \<leftarrow> connections sv connName;
     Some (ioLoop, sv\<lparr>connections := (connections sv)(connName := None)\<rparr>)
   }"

datatype srv_event = Accept | Remove string

fun srv_run :: "server \<Rightarrow> srv_event list \<Rightarrow> ((string \<times> nat) list \<times> server) option" where
  "srv_run sv [] = Some ([], sv)"
| "srv_run sv (Accept # vs) = do {
     (n, l, sv) \<leftarrow> newConnection sv;
     (xs, sv) \<leftarrow> srv_run sv vs;
     Some ((n, l) # xs, sv)
   }"
| "srv_run sv (Remove n # vs) = do { (l, sv) \<leftarrow> removeConnectionInLoop sv n; srv_run sv vs }"

section \<open>Names\<close>

definition conn_name :: "server \<Rightarrow> int \<Rightarrow> string" where
  "conn_name sv i = server_name sv @ CHR ''#'' # show_int i"

lemma show_id_short: "1 \<le> i \<Longrightarrow> i < 2 ^ 31 \<Longrightarrow> length (show_int i) \<le> 10"
proof -
  assume i: "1 \<le> i" "i < 2 ^ 31"
  then have "nat i < 10 ^ Suc 9" by simp
  from length_show_nat_le [OF this] show ?thesis using i by (simp add: show_int_def)
qed

lemma conn_name_buffer:
  "1 \<le> i \<Longrightarrow> i < 2 ^ 31 \<Longrightarrow> server_name sv @ snprintf 32 (CHR ''#'' # show_int i) = conn_name sv i"
  using show_id_short [of i] by (simp add: snprintf_def conn_name_def)

lemma conn_name_inj: "1 \<le> i \<Longrightarrow> 1 \<le> j \<Longrightarrow> conn_name sv i = conn_name sv j \<longleftrightarrow> i = j"
  by (auto simp: conn_name_def show_int_def)

text \<open>Every connection in the map has the name of an id that was given out.\<close>

definition srv_inv :: "server \<Rightarrow> bool" where
  "srv_inv sv \<longleftrightarrow> 1 \<le> nextConnId sv \<and> pool_inv (threadPool sv)
     \<and> dom (connections sv) \<subseteq> conn_name sv ` {1..<nextConnId sv}"

lemma srv_inv_fresh: "srv_inv sv \<Longrightarrow> nextConnId sv \<le> i \<Longrightarrow> connections sv (conn_name sv i) = None"
  using conn_name_inj [of _ i sv] by (fastforce simp: srv_inv_def)

lemma newConnection_ok:
  assumes "srv_inv sv" "nextConnId sv < 2 ^ 31 - 1"
  obtains sv' where "newConnection sv = Some (conn_name sv (nextConnId sv), round_robin (threadPool sv) 0, sv')"
    "srv_inv sv'" "nextConnId sv' = nextConnId sv + 1" "server_name sv' = server_name sv"
    "\<And>k. round_robin (threadPool sv') k = round_robin (threadPool sv) (Suc k)"
    "connections sv' = (connections sv)(conn_name sv (nextConnId sv) \<mapsto> round_robin (threadPool sv) 0)"
proof -
  obtain p where p: "getNextLoop (threadPool sv) = Some (round_robin (threadPool sv) 0, p)" "pool_inv p"
      "\<forall>k. round_robin p k = round_robin (threadPool sv) (Suc k)"
    using getNextLoop_ok assms(1) unfolding srv_inv_def by blast
  let ?sv = "sv\<lparr>nextConnId := nextConnId sv + 1, threadPool := p,
      connections := (connections sv)(conn_name sv (nextConnId sv) \<mapsto> round_robin (threadPool sv) 0)\<rparr>"
  have n: "server_name sv @ snprintf 32 (CHR ''#'' # show_int (nextConnId sv)) = conn_name sv (nextConnId sv)"
    using conn_name_buffer [of "nextConnId sv" sv] assms by (simp add: srv_inv_def)
  have "newConnection sv = Some (conn_name sv (nextConnId sv), round_robin (threadPool sv) 0, ?sv)"
    unfolding newConnection_def Let_def n using p(1) assms(2) by simp
  moreover have "conn_name ?sv = conn_name sv" by (simp add: conn_name_def fun_eq_iff)
  then have "srv_inv ?sv" using assms(1) p(2) by (force simp: srv_inv_def)
  ultimately show thesis using that [of ?sv] p(3) by simp
qed

text \<open>The events that can happen: a connection closes while it is in the map, once.\<close>

fun srv_enabled :: "server \<Rightarrow> srv_event list \<Rightarrow> bool" where
  "srv_enabled sv [] = True"
| "srv_enabled sv (Accept # vs) = (nextConnId sv < 2 ^ 31 - 1 \<and>
     (case newConnection sv of None \<Rightarrow> True | Some (n, l, sv') \<Rightarrow> srv_enabled sv' vs))"
| "srv_enabled sv (Remove n # vs) = (connections sv n \<noteq> None \<and>
     (case removeConnectionInLoop sv n of None \<Rightarrow> True | Some (l, sv') \<Rightarrow> srv_enabled sv' vs))"

definition srv_post :: "server \<Rightarrow> srv_event list \<Rightarrow> (string \<times> nat) list \<Rightarrow> server \<Rightarrow> bool" where
  "srv_post sv vs xs sv' \<longleftrightarrow>
     xs = map (\<lambda>k. (conn_name sv (nextConnId sv + int k), round_robin (threadPool sv) k)) [0..<length xs]
     \<and> (\<forall>n. connections sv' n = (if Remove n \<in> set vs then None
          else case connections sv n of Some l \<Rightarrow> Some l | None \<Rightarrow> map_of xs n))"

lemma srv_post_Accept:
  assumes inv: "srv_inv sv" and sv1: "nextConnId sv1 = nextConnId sv + 1" "server_name sv1 = server_name sv"
    "\<And>k. round_robin (threadPool sv1) k = round_robin (threadPool sv) (Suc k)"
    "connections sv1 = (connections sv)(conn_name sv (nextConnId sv) \<mapsto> round_robin (threadPool sv) 0)"
    and post: "srv_post sv1 vs xs sv'"
  shows "srv_post sv (Accept # vs) ((conn_name sv (nextConnId sv), round_robin (threadPool sv) 0) # xs) sv'"
proof -
  have cn: "conn_name sv1 = conn_name sv" using sv1(2) by (simp add: conn_name_def fun_eq_iff)
  have "connections sv (conn_name sv (nextConnId sv)) = None" using srv_inv_fresh [OF inv] by simp
  then show ?thesis
    using post unfolding srv_post_def cn sv1(1,3,4)
    by (auto simp: map_upt_Suc algebra_simps simp del: upt_Suc split: option.splits)
qed

lemma srv_post_Remove:
  assumes inv: "srv_inv sv" and l: "connections sv n = Some l"
    and post: "srv_post (sv\<lparr>connections := (connections sv)(n := None)\<rparr>) vs xs sv'"
  shows "srv_post sv (Remove n # vs) xs sv'"
proof -
  let ?sv = "sv\<lparr>connections := (connections sv)(n := None)\<rparr>"
  have cn: "conn_name ?sv = conn_name sv" by (simp add: conn_name_def fun_eq_iff)
  have xs: "xs = map (\<lambda>k. (conn_name sv (nextConnId sv + int k), round_robin (threadPool sv) k)) [0..<length xs]"
    using post by (simp add: srv_post_def cn)
  have "n \<notin> fst ` set xs"
  proof
    assume "n \<in> fst ` set xs"
    then have "n \<in> fst ` set (map (\<lambda>k. (conn_name sv (nextConnId sv + int k), round_robin (threadPool sv) k)) [0..<length xs])"
      by (simp only: xs [symmetric])
    then obtain k where "n = conn_name sv (nextConnId sv + int k)" by auto
    then show False using srv_inv_fresh [OF inv, of "nextConnId sv + int k"] l by simp
  qed
  then have "map_of xs n = None" by (simp add: map_of_eq_None_iff)
  then show ?thesis
    using post unfolding srv_post_def cn by (auto split: if_splits option.splits)
qed

lemma srv_run_ok:
  "srv_inv sv \<Longrightarrow> srv_enabled sv vs \<Longrightarrow> \<exists>xs sv'. srv_run sv vs = Some (xs, sv') \<and> srv_post sv vs xs sv' \<and> srv_inv sv'"
proof (induction vs arbitrary: sv)
  case Nil
  then show ?case by (auto simp: srv_post_def split: option.splits)
next
  case (Cons v vs)
  note inv = Cons.prems(1)
  show ?case
  proof (cases v)
    case Accept
    obtain sv1 where sv1: "newConnection sv = Some (conn_name sv (nextConnId sv), round_robin (threadPool sv) 0, sv1)"
      "srv_inv sv1" "nextConnId sv1 = nextConnId sv + 1"
      "server_name sv1 = server_name sv" "\<And>k. round_robin (threadPool sv1) k = round_robin (threadPool sv) (Suc k)"
      "connections sv1 = (connections sv)(conn_name sv (nextConnId sv) \<mapsto> round_robin (threadPool sv) 0)"
      using newConnection_ok [OF inv] Cons.prems(2) Accept by auto
    then obtain xs sv' where r: "srv_run sv1 vs = Some (xs, sv')" "srv_post sv1 vs xs sv'" "srv_inv sv'"
      using Cons.IH [of sv1] Cons.prems(2) Accept by auto
    from srv_post_Accept [OF inv sv1(3-6) r(2)] show ?thesis using sv1(1) r Accept by simp
  next
    case (Remove n)
    let ?sv = "sv\<lparr>connections := (connections sv)(n := None)\<rparr>"
    obtain l where l: "connections sv n = Some l" using Cons.prems(2) Remove by auto
    then have rm: "removeConnectionInLoop sv n = Some (l, ?sv)" by (simp add: removeConnectionInLoop_def)
    have "conn_name ?sv = conn_name sv" by (simp add: conn_name_def fun_eq_iff)
    then have "srv_inv ?sv" using inv by (auto simp: srv_inv_def)
    then obtain xs sv' where r: "srv_run ?sv vs = Some (xs, sv')" "srv_post ?sv vs xs sv'" "srv_inv sv'"
      using Cons.IH [of ?sv] Cons.prems(2) Remove rm by auto
    from srv_post_Remove [OF inv l r(2)] show ?thesis using rm r Remove by simp
  qed
qed

lemma TcpServer_start_inv:
  assumes "TcpServer_setThreadNum (TcpServer_new loop addr n) k = Some sv0" "TcpServer_start sv0 f = Some sv"
  shows "srv_inv sv" "nextConnId sv = 1" "server_name sv = n" "connections sv = Map.empty"
    "next_loop (threadPool sv) = 0" "loops (threadPool sv) = start_threads f 0 (nat k)" "baseLoop (threadPool sv) = loop"
  using assms
  by (auto simp: TcpServer_setThreadNum_def TcpServer_new_def TcpServer_start_def pool_start_def setThreadNum_def
      EventLoopThreadPool_new_def srv_inv_def pool_inv_def Let_def)

lemma start_threads_map: "start_threads f i n = map f [i..<i + n]"
proof (induction n arbitrary: i)
  case (Suc n)
  have "[i..<i + Suc n] = i # [Suc i..<Suc i + n]" by (simp add: upt_conv_Cons del: upt_Suc)
  with Suc show ?case by simp
qed simp

section \<open>Properties\<close>

text \<open>
  C23: A started server with \<open>k\<close> threads, over any sequence of accepted and closed connections: the
  \<open>i\<close>-th connection gets the name of id \<open>i\<close> (no name is cut off by the buffer of 32 bytes) and, in
  rotation, the loop of thread \<open>(i - 1) mod k\<close>, or the server's own loop without threads; no name is
  given twice, so no connection is lost from the map, and the map holds exactly the connections that
  were accepted and not closed, each with its loop.
\<close>

theorem server_connections:
  assumes "TcpServer_setThreadNum (TcpServer_new loop addr n) k = Some sv0" "TcpServer_start sv0 startLoop = Some sv"
    and "srv_enabled sv vs"
  shows "\<exists>xs sv'. srv_run sv vs = Some (xs, sv') \<and> distinct (map fst xs)
    \<and> xs = map (\<lambda>i. (n @ CHR ''#'' # show_int (int i + 1), if k = 0 then loop else startLoop (i mod nat k))) [0..<length xs]
    \<and> (\<forall>m. connections sv' m = (if Remove m \<in> set vs then None else map_of xs m))"
proof -
  note sv = TcpServer_start_inv [OF assms(1,2)]
  have k: "0 \<le> k" using assms(1) by (simp add: TcpServer_setThreadNum_def)
  obtain xs sv' where r: "srv_run sv vs = Some (xs, sv')" and post: "srv_post sv vs xs sv'"
    using srv_run_ok [OF sv(1) assms(3)] by blast
  have rr: "round_robin (threadPool sv) i = (if k = 0 then loop else startLoop (i mod nat k))" for i
    using sv(5-7) k by (auto simp: round_robin_def start_threads_map)
  have xs: "xs = map (\<lambda>i. (n @ CHR ''#'' # show_int (int i + 1), if k = 0 then loop else startLoop (i mod nat k))) [0..<length xs]"
    using post unfolding srv_post_def rr by (simp add: conn_name_def sv(2,3) add.commute)
  have "map fst xs = map (\<lambda>i. conn_name sv (int i + 1)) [0..<length xs]"
    by (subst xs) (simp add: conn_name_def sv(3) comp_def)
  then have "distinct (map fst xs)" by (simp add: distinct_map inj_on_def conn_name_inj)
  moreover have "\<forall>m. connections sv' m = (if Remove m \<in> set vs then None else map_of xs m)"
    using post by (simp add: srv_post_def sv(4))
  ultimately show ?thesis using r xs by blast
qed

theorem server_connections_witness:
  "\<exists>xs sv'. srv_run (the (TcpServer_start (the (TcpServer_setThreadNum (TcpServer_new 5 [] ''s'') 0)) (\<lambda>i. i)))
       [Accept, Remove ''s#1''] = Some (xs, sv') \<and> connections sv' ''s#1'' = None"
proof -
  let ?sv = "\<lparr>server_name = ''s'', ipPort = [], threadPool = (EventLoopThreadPool_new 5 ''s'')\<lparr>pool_started := True\<rparr>,
    srv_started = True, nextConnId = 1, listening = True, connections = Map.empty\<rparr>"
  have s: "TcpServer_setThreadNum (TcpServer_new 5 [] ''s'') 0 = Some (TcpServer_new 5 [] ''s'')"
    "TcpServer_start (TcpServer_new 5 [] ''s'') (\<lambda>i. i) = Some ?sv"
    by (simp_all add: TcpServer_setThreadNum_def TcpServer_new_def TcpServer_start_def pool_start_def setThreadNum_def
        EventLoopThreadPool_new_def)
  have "show_int 1 = ''1''" by code_simp
  then have "srv_enabled ?sv [Accept, Remove ''s#1'']"
    by (simp add: newConnection_def getNextLoop_def EventLoopThreadPool_new_def snprintf_def removeConnectionInLoop_def Let_def)
  from server_connections [OF s this] s show ?thesis by fastforce
qed

text \<open>
  C24: Calling \<open>forceClose\<close> twice on an established connection, before the loop gets to the first call,
  closes it twice, because \<open>handleClose\<close> leaves the state as it is; the server's \<open>removeConnection\<close> then
  runs a second time for a connection that is no longer in its map, and its assertion fails.
\<close>

theorem force_close_twice:
  assumes "poller_inv w" "chans w a = None" "channels w sockfd = None" "0 \<le> sockfd"
    and "conn_ops (TcpConnection_new w n sockfd a) [Op_established] = Some c"
  shows "\<exists>c'. conn_ops c [Op_forceClose, Op_forceClose, Op_functor wr, Op_functor wr'] = Some c'
      \<and> calls c' = [C_connection, C_close, C_close]
    \<and> (\<forall>sv l sv'. removeConnectionInLoop sv n = Some (l, sv') \<longrightarrow> removeConnectionInLoop sv' n = None)"
proof -
  let ?c0 = "TcpConnection_new w n sockfd a"
  note new = TcpConnection_new_inv [OF assms(1-4), of n]
  have "tcp_inv c" using conn_ops_ok [OF new(1), of "[Op_established]"] assms(5) by (simp add: TcpConnection_new_def Let_def)
  moreover have "connectEstablished ?c0 = Some c" using assms(5) by (cases "connectEstablished ?c0") auto
  then have c: "state c = kConnected" "functors c = []" "calls c = [C_connection]"
    by (auto simp: connectEstablished_def on_channel_def setState_def called_back_def TcpConnection_new_def Let_def
        split: bind_splits)
  let ?c1 = "c\<lparr>state := kDisconnecting, functors := [F_forceCloseInLoop, F_forceCloseInLoop]\<rparr>"
  have f: "forceClose (forceClose c) = ?c1" using c by (simp add: forceClose_def setState_def queue_def)
  have inv1: "tcp_inv (?c1\<lparr>functors := fs\<rparr>)" for fs using \<open>tcp_inv c\<close> c by (simp add: tcp_defs)
  have close: "\<exists>c'. handleClose d = Some c' \<and> tcp_inv c' \<and> state c' = state d \<and> functors c' = functors d
      \<and> calls c' = calls d @ [C_close]" if d: "tcp_inv d" and u: "up d" for d
  proof -
    obtain c' where c': "handleClose d = Some c'" "step_ok d [] c'" using handleClose_ok [OF d u] by blast
    then have "state c' = state d" "functors c' = functors d" "calls c' = calls d @ [C_close]"
      by (auto simp: handleClose_def on_channel_def called_back_def split: bind_splits)
    with c' show ?thesis by (auto simp: step_ok_def)
  qed
  obtain c2 where c2: "handleClose (?c1\<lparr>functors := [F_forceCloseInLoop]\<rparr>) = Some c2" "tcp_inv c2"
      "state c2 = kDisconnecting" "functors c2 = [F_forceCloseInLoop]" "calls c2 = [C_connection, C_close]"
    using close [OF inv1 [of "[F_forceCloseInLoop]"]] c by (auto simp: up_def)
  have "tcp_inv (c2\<lparr>functors := []\<rparr>)" using c2 by (simp add: tcp_defs)
  then obtain c3 where "handleClose (c2\<lparr>functors := []\<rparr>) = Some c3" "calls c3 = [C_connection, C_close, C_close]"
    using close [of "c2\<lparr>functors := []\<rparr>"] c2 by (auto simp: up_def)
  then have "conn_ops c [Op_forceClose, Op_forceClose, Op_functor wr, Op_functor wr'] = Some c3"
    using f c2 by (simp add: run_functor_def forceCloseInLoop_def)
  moreover have "removeConnectionInLoop sv' n = None" if "removeConnectionInLoop sv n = Some (l, sv')" for sv l sv'
    using that by (auto simp: removeConnectionInLoop_def Let_def split: if_splits bind_splits)
  ultimately show ?thesis using \<open>calls c3 = _\<close> by blast
qed

theorem force_close_twice_witness:
  "\<exists>c c'. conn_ops demo_conn [Op_established] = Some c
     \<and> conn_ops c [Op_forceClose, Op_forceClose, Op_functor (Inr 0), Op_functor (Inr 0)] = Some c'
     \<and> calls c' = [C_connection, C_close, C_close]"
proof -
  obtain c where "conn_ops demo_conn [Op_established] = Some c" by (simp add: conn_eval Let_def)
  with force_close_twice [OF demo_fresh, of "''c''" c, folded demo_conn_def] show ?thesis by blast
qed

end
