(* ===== verification/InetAddress.thy ===== *)
theory InetAddress
  imports Endian "HOL-Library.Monad_Syntax"
begin

text \<open>
  \<open>InetAddress\<close> (\<open>src/InetAddress.h\<close>, \<open>src/InetAddress.cc\<close>) and the address functions of
  \<open>src/SocketsOps.cc\<close>. An address is the 28 bytes of the union of \<open>sockaddr_in\<close> and \<open>sockaddr_in6\<close>, so
  reading one member after writing the other is covered; the bytes a constructor does not write are an
  argument. \<open>inet_pton\<close> and \<open>inet_ntop\<close> are modelled for IPv4; the text form of an IPv6 address is an
  argument.
\<close>

type_synonym sockaddr = bytes

definition AF_INET :: "16 word" where "AF_INET = 2"
definition AF_INET6 :: "16 word" where "AF_INET6 = 10"
definition kInaddrAny :: "32 word" where "kInaddrAny = 0"
definition kInaddrLoopback :: "32 word" where "kInaddrLoopback = 0x7f000001"
definition INET_ADDRSTRLEN :: nat where "INET_ADDRSTRLEN = 16"
definition INET6_ADDRSTRLEN :: nat where "INET6_ADDRSTRLEN = 46"

text \<open>Members of the two structures, at their offsets.\<close>

definition get_at :: "nat \<Rightarrow> nat \<Rightarrow> sockaddr \<Rightarrow> bytes" where
  "get_at off n a = take n (drop off a)"

definition family :: "sockaddr \<Rightarrow> 16 word" where "family a = load16 (get_at 0 2 a)"
definition portNetEndian :: "sockaddr \<Rightarrow> 16 word" where "portNetEndian a = load16 (get_at 2 2 a)"
definition sin_addr :: "sockaddr \<Rightarrow> bytes" where "sin_addr a = get_at 4 4 a"
definition sin6_addr :: "sockaddr \<Rightarrow> bytes" where "sin6_addr a = get_at 8 16 a"

definition in6addr_any :: bytes where "in6addr_any = replicate 16 (CHR 0x00)"
definition in6addr_loopback :: bytes where "in6addr_loopback = replicate 15 (CHR 0x00) @ [CHR 0x01]"

definition bzero :: "nat \<Rightarrow> sockaddr \<Rightarrow> sockaddr" where
  "bzero n a = copy_to a 0 (replicate n (CHR 0x00))"

text \<open>The constructor from a port; \<open>u\<close> is the memory of the object before it.\<close>

definition InetAddress_port :: "sockaddr \<Rightarrow> 16 word \<Rightarrow> bool \<Rightarrow> bool \<Rightarrow> sockaddr" where
  "InetAddress_port u port loopbackOnly ipv6 =
     (if ipv6 then
        let a = bzero 28 u;
            a = copy_to a 0 (mem16 AF_INET6);
            a = copy_to a 8 (if loopbackOnly then in6addr_loopback else in6addr_any)
        in copy_to a 2 (mem16 (hostToNetwork16 port))
      else
        let a = bzero 16 u;
            a = copy_to a 0 (mem16 AF_INET);
            ip = (if loopbackOnly then kInaddrLoopback else kInaddrAny);
            a = copy_to a 4 (mem32 (hostToNetwork32 ip))
        in copy_to a 2 (mem16 (hostToNetwork16 port)))"

text \<open>\<open>inet_pton(AF_INET, ...)\<close>: four decimal numbers up to 255 without leading zeros, separated by dots.\<close>

definition pton_octet :: "string \<Rightarrow> (char \<times> string) option" where
  "pton_octet s =
     (let ds = takeWhile is_digit s in
      if ds \<noteq> [] \<and> (hd ds = CHR ''0'' \<longrightarrow> ds = ''0'') \<and> read_nat 0 ds \<le> 255
      then Some (char_of (read_nat 0 ds), dropWhile is_digit s) else None)"

definition pton_dot :: "string \<Rightarrow> string option" where
  "pton_dot s = (case s of c # s \<Rightarrow> if c = CHR ''.'' then Some s else None | [] \<Rightarrow> None)"

definition inet_pton4 :: "string \<Rightarrow> bytes option" where
  "inet_pton4 s = do {
     (a, s) \<leftarrow> pton_octet s; s \<leftarrow> pton_dot s;
     (b, s) \<leftarrow> pton_octet s; s \<leftarrow> pton_dot s;
     (c, s) \<leftarrow> pton_octet s; s \<leftarrow> pton_dot s;
     (d, s) \<leftarrow> pton_octet s;
     ensure (s = []);
     Some [a, b, c, d]
   }"

fun inet_ntop4 :: "bytes \<Rightarrow> string" where
  "inet_ntop4 [] = []"
| "inet_ntop4 [b] = show_nat (of_char b)"
| "inet_ntop4 (b # bs) = show_nat (of_char b) @ CHR ''.'' # inet_ntop4 bs"

text \<open>Both overloads of \<open>fromIpPort\<close>; a text that does not parse is only logged.\<close>

definition fromIpPort :: "string \<Rightarrow> 16 word \<Rightarrow> sockaddr \<Rightarrow> sockaddr" where
  "fromIpPort ip port a =
     (let a = copy_to a 0 (mem16 AF_INET);
          a = copy_to a 2 (mem16 (hostToNetwork16 port))
      in case inet_pton4 ip of Some bs \<Rightarrow> copy_to a 4 bs | None \<Rightarrow> a)"

definition fromIpPort6 :: "string \<Rightarrow> 16 word \<Rightarrow> sockaddr \<Rightarrow> sockaddr" where
  "fromIpPort6 ip port a =
     (let a = copy_to a 0 (mem16 AF_INET6);
          a = copy_to a 2 (mem16 (hostToNetwork16 port))
      in case inet_pton4 ip of Some bs \<Rightarrow> copy_to a 8 bs | None \<Rightarrow> a)"

definition InetAddress_ip :: "sockaddr \<Rightarrow> string \<Rightarrow> 16 word \<Rightarrow> bool \<Rightarrow> sockaddr" where
  "InetAddress_ip u ip port ipv6 =
     (if ipv6 then fromIpPort6 ip port (bzero 28 u) else fromIpPort ip port (bzero 16 u))"

text \<open>\<open>toIp\<close> and \<open>toIpPort\<close> into a buffer of \<open>sz\<close> bytes that held \<open>buf\<close>.\<close>

definition sockets_toIp :: "(bytes \<Rightarrow> string) \<Rightarrow> string \<Rightarrow> nat \<Rightarrow> sockaddr \<Rightarrow> string option" where
  "sockets_toIp inet_ntop6 buf sz a =
     (if family a = AF_INET then do {
        ensure (INET_ADDRSTRLEN \<le> sz);
        Some (inet_ntop4 (sin_addr a))
      }
      else if family a = AF_INET6 then do {
        ensure (INET6_ADDRSTRLEN \<le> sz);
        Some (inet_ntop6 (sin6_addr a))
      }
      else Some buf)"

definition sockets_toIpPort :: "(bytes \<Rightarrow> string) \<Rightarrow> string \<Rightarrow> nat \<Rightarrow> sockaddr \<Rightarrow> string option" where
  "sockets_toIpPort inet_ntop6 buf sz a = do {
     buf \<leftarrow> sockets_toIp inet_ntop6 buf sz a;
     let end_pos = length buf;
     let port = networkToHost16 (portNetEndian a);
     ensure (sz > end_pos);
     Some (buf @ take (sz - end_pos - 1) (CHR '':'' # show_nat (unat port)))
   }"

definition toIp :: "(bytes \<Rightarrow> string) \<Rightarrow> sockaddr \<Rightarrow> string option" where
  "toIp inet_ntop6 a = sockets_toIp inet_ntop6 [] 64 a"

definition toIpPort :: "(bytes \<Rightarrow> string) \<Rightarrow> sockaddr \<Rightarrow> string option" where
  "toIpPort inet_ntop6 a = sockets_toIpPort inet_ntop6 [] 64 a"

definition toPort :: "sockaddr \<Rightarrow> 16 word" where
  "toPort a = networkToHost16 (portNetEndian a)"

definition ipNetEndian :: "sockaddr \<Rightarrow> 32 word option" where
  "ipNetEndian a = do { ensure (family a = AF_INET); Some (load32 (sin_addr a)) }"

text \<open>\<open>resolve\<close>: \<open>he\<close> is the answer of \<open>gethostbyname_r\<close>, its address type and bytes.\<close>

definition resolve :: "(16 word \<times> bytes) option \<Rightarrow> sockaddr \<Rightarrow> (bool \<times> sockaddr) option" where
  "resolve he out =
     (case he of
        Some (h_addrtype, h_addr) \<Rightarrow> do {
          ensure (h_addrtype = AF_INET \<and> length h_addr = 4);
          Some (True, copy_to out 4 h_addr)
        }
      | None \<Rightarrow> Some (False, out))"

definition isSelfConnect :: "sockaddr \<Rightarrow> sockaddr \<Rightarrow> bool" where
  "isSelfConnect localaddr peeraddr =
     (if family localaddr = AF_INET then
        portNetEndian localaddr = portNetEndian peeraddr \<and> sin_addr localaddr = sin_addr peeraddr
      else if family localaddr = AF_INET6 then
        portNetEndian localaddr = portNetEndian peeraddr \<and> sin6_addr localaddr = sin6_addr peeraddr
      else False)"

section \<open>Text of IPv4 addresses\<close>

lemma show_nat_step: "0 < x \<Longrightarrow> d < 10 \<Longrightarrow> show_nat (10 * x + d) = show_nat x @ [digit_char d]"
  by (subst show_nat.simps) simp

lemma digit_char_zero: "d < 10 \<Longrightarrow> digit_char d = CHR ''0'' \<longleftrightarrow> d = 0"
proof -
  assume d: "d < 10"
  have "digit_char d = CHR ''0'' \<longleftrightarrow> (of_char (digit_char d) :: nat) = of_char (CHR ''0'')" by (simp only: of_char_eq_iff)
  with d show ?thesis by simp
qed

lemma show_nat_no_zero: "0 < n \<Longrightarrow> hd (show_nat n) \<noteq> CHR ''0''"
proof (induction n rule: show_nat.induct)
  case (1 n)
  show ?case
  proof (cases "n < 10")
    case True
    with 1 show ?thesis by (simp add: show_nat.simps [of n] digit_char_zero)
  next
    case False
    with 1 show ?thesis by (subst show_nat.simps) simp
  qed
qed

lemma show_nat_zero: "show_nat 0 = ''0''"
  by (simp add: show_nat.simps [of 0] digit_char_zero)

lemma digit_cases: "is_digit c \<Longrightarrow> c = digit_char (of_char c - 48) \<and> of_char c - 48 < (10 :: nat)"
  by (auto simp: is_digit_def digit_char_def)

lemma show_read_nat:
  assumes "ds \<noteq> []" "\<forall>c\<in>set ds. is_digit c" "hd ds = CHR ''0'' \<longrightarrow> ds = ''0''"
  shows "show_nat (read_nat 0 ds) = ds"
  using assms
proof (induction ds rule: rev_induct)
  case (snoc c ds)
  have c: "c = digit_char (of_char c - 48)" "of_char c - 48 < (10 :: nat)" using digit_cases [of c] snoc.prems by auto
  show ?case
  proof (cases "ds = []")
    case True
    then show ?thesis using c by (simp add: show_nat.simps)
  next
    case False
    then have "show_nat (read_nat 0 ds) = ds" and h: "hd ds \<noteq> CHR ''0''" using snoc by auto
    moreover from this have "0 < read_nat 0 ds"
      using show_nat_zero by (cases "read_nat 0 ds") auto
    ultimately show ?thesis using show_nat_step [OF _ c(2)] c(1) by (simp add: read_nat_append)
  qed
qed simp

lemma pton_octet_sound:
  assumes "pton_octet s = Some (c, r)"
  shows "s = show_nat (of_char c) @ r"
proof -
  let ?ds = "takeWhile is_digit s"
  have ds: "?ds \<noteq> []" "hd ?ds = CHR ''0'' \<longrightarrow> ?ds = ''0''" "read_nat 0 ?ds \<le> 255"
    "c = char_of (read_nat 0 ?ds)" "r = dropWhile is_digit s"
    using assms by (auto simp: pton_octet_def Let_def split: if_splits)
  have "\<forall>x\<in>set ?ds. is_digit x" by (auto dest: set_takeWhileD)
  then have "show_nat (read_nat 0 ?ds) = ?ds" using show_read_nat ds by blast
  moreover have "of_char c = read_nat 0 ?ds" using ds(3,4) by simp
  ultimately show ?thesis using ds(5) by simp
qed

lemma takeWhile_digits:
  assumes "r = [] \<or> \<not> is_digit (hd r)"
  shows "takeWhile is_digit (show_nat n @ r) = show_nat n" "dropWhile is_digit (show_nat n @ r) = r"
proof -
  have "takeWhile is_digit r = []" "dropWhile is_digit r = r" using assms by (cases r; simp)+
  then show "takeWhile is_digit (show_nat n @ r) = show_nat n" "dropWhile is_digit (show_nat n @ r) = r"
    using show_nat_digits by (simp_all add: takeWhile_append2 dropWhile_append2)
qed

lemma pton_octet_complete:
  assumes "r = [] \<or> \<not> is_digit (hd r)"
  shows "pton_octet (show_nat (of_char c) @ r) = Some (c, r)"
proof -
  have "(of_char c :: nat) \<le> 255" using of_char_less_256 [of c] by linarith
  moreover have "hd (show_nat (of_char c)) = CHR ''0'' \<longrightarrow> show_nat (of_char c) = ''0''"
    using show_nat_no_zero [of "of_char c"] show_nat_zero by (cases "(of_char c :: nat) = 0") auto
  ultimately show ?thesis using takeWhile_digits [OF assms] by (simp add: pton_octet_def)
qed

lemma pton_dot_Some: "pton_dot s = Some r \<longleftrightarrow> s = CHR ''.'' # r"
  by (auto simp: pton_dot_def split: list.splits)

lemma dot_no_digit: "\<not> is_digit CHR ''.''"
  by (simp add: is_digit_def)

lemma inet_pton4_sound: "inet_pton4 s = Some bs \<Longrightarrow> length bs = 4 \<and> inet_ntop4 bs = s"
  unfolding inet_pton4_def by (clarsimp simp: bind_eq_Some_conv pton_dot_Some dest!: pton_octet_sound)

lemma inet_pton4_complete: "length bs = 4 \<Longrightarrow> inet_pton4 (inet_ntop4 bs) = Some bs"
proof -
  assume "length bs = 4"
  then obtain a b c d where bs: "bs = [a, b, c, d]"
    by (auto simp: numeral_eq_Suc length_Suc_conv)
  have p: "pton_octet (show_nat (of_char x) @ CHR ''.'' # r) = Some (x, CHR ''.'' # r)" for x r
    by (rule pton_octet_complete) (simp add: dot_no_digit)
  have q: "pton_octet (show_nat (of_char x)) = Some (x, [])" for x
    using pton_octet_complete [of "[]" x] by simp
  show ?thesis by (simp add: bs inet_pton4_def p q pton_dot_def)
qed

lemma inet_ntop4_short: "length bs = 4 \<Longrightarrow> length (inet_ntop4 bs) \<le> 15"
proof -
  assume "length bs = 4"
  then obtain a b c d where bs: "bs = [a, b, c, d]" by (auto simp: numeral_eq_Suc length_Suc_conv)
  have "length (show_nat (of_char x)) \<le> 3" for x
    using length_show_nat_le [of "of_char x" 2] of_char_less_256 [of x] by simp
  from this [of a] this [of b] this [of c] this [of d] show ?thesis by (simp add: bs)
qed

lemma colon_no_pton: "CHR '':'' \<in> set ip \<Longrightarrow> inet_pton4 ip = None"
proof (rule ccontr)
  assume c: "CHR '':'' \<in> set ip" and "inet_pton4 ip \<noteq> None"
  then obtain bs where "length bs = 4" "inet_ntop4 bs = ip" using inet_pton4_sound by blast
  moreover have "CHR '':'' \<notin> set (show_nat n)" for n using show_nat_digits [of "CHR '':''" n] by (auto simp: is_digit_def)
  ultimately show False using c by (auto simp: numeral_eq_Suc length_Suc_conv)
qed

section \<open>Members\<close>

lemma get_at_copy_same:
  "off + n \<le> length a \<Longrightarrow> length src = n \<Longrightarrow> get_at off n (copy_to a off src) = src"
  by (simp add: get_at_def copy_to_def)

lemma get_at_copy_before:
  assumes "off + n \<le> off'" "off' + length src \<le> length a"
  shows "get_at off n (copy_to a off' src) = get_at off n a"
proof -
  have "get_at off n b = drop off (take (off + n) b)" for b by (simp add: get_at_def drop_take)
  then show ?thesis using take_copy_to [OF assms] by simp
qed

lemma get_at_copy_after:
  assumes "off' + length src \<le> off" "off' + length src \<le> length a"
  shows "get_at off n (copy_to a off' src) = get_at off n a"
proof -
  have "drop off (copy_to a off' src) = drop off a" using assms by (simp add: copy_to_def)
  then show ?thesis by (simp add: get_at_def)
qed

lemmas addr_simps = family_def portNetEndian_def sin_addr_def sin6_addr_def get_at_copy_same get_at_copy_before
  get_at_copy_after bzero_def

lemma length_bzero [simp]: "length u = 28 \<Longrightarrow> n \<le> 28 \<Longrightarrow> length (bzero n u) = 28"
  by (simp add: bzero_def)

lemma fromIpPort_members:
  assumes "length a = 28" "inet_pton4 ip = Some bs"
  shows "family (fromIpPort ip port a) = AF_INET" "portNetEndian (fromIpPort ip port a) = hostToNetwork16 port"
    "sin_addr (fromIpPort ip port a) = bs"
  using assms inet_pton4_sound [OF assms(2)] by (simp_all add: fromIpPort_def Let_def addr_simps)

lemma toIpPort_inet:
  assumes "family a = AF_INET" "length (sin_addr a) = 4"
  shows "toIp f a = Some (inet_ntop4 (sin_addr a))"
    "toIpPort f a = Some (inet_ntop4 (sin_addr a) @ CHR '':'' # show_nat (unat (toPort a)))"
proof -
  let ?s = "inet_ntop4 (sin_addr a)" and ?p = "show_nat (unat (toPort a))"
  show ip: "toIp f a = Some ?s" using assms by (simp add: toIp_def sockets_toIp_def INET_ADDRSTRLEN_def)
  have l: "length ?s \<le> 15" using inet_ntop4_short [OF assms(2)] .
  have "unat (toPort a) < 10 ^ Suc 4" using unat_bounds(1) [of "toPort a"] by simp
  from length_show_nat_le [OF this] l have "take (64 - length ?s - 1) (CHR '':'' # ?p) = CHR '':'' # ?p" by simp
  then show "toIpPort f a = Some (?s @ CHR '':'' # ?p)"
    unfolding toIpPort_def sockets_toIpPort_def using ip l by (simp add: toIp_def toPort_def)
qed

lemma le_bytes_4: "le_bytes 4 x = [char_of (x mod 256), char_of (x div 256 mod 256),
    char_of (x div 256 div 256 mod 256), char_of (x div 256 div 256 div 256 mod 256)]"
proof -
  have "(4 :: nat) = Suc (Suc (Suc (Suc 0)))" by simp
  then show ?thesis by (simp only: le_bytes.simps)
qed

lemma char_values: "char_of (127 :: nat) = CHR 0x7f" "char_of (Suc 0) = CHR 0x01" "char_of (0 :: nat) = CHR 0x00"
  by code_simp+

lemma inaddr_bytes:
  "mem32 (hostToNetwork32 kInaddrLoopback) = [CHR 0x7f, CHR 0x00, CHR 0x00, CHR 0x01]"
  "mem32 (hostToNetwork32 kInaddrAny) = [CHR 0x00, CHR 0x00, CHR 0x00, CHR 0x00]"
proof -
  have "mem32 kInaddrLoopback = [CHR 0x01, CHR 0x00, CHR 0x00, CHR 0x7f]"
    "mem32 kInaddrAny = [CHR 0x00, CHR 0x00, CHR 0x00, CHR 0x00]"
    unfolding mem32_def le_bytes_4 kInaddrLoopback_def kInaddrAny_def by (simp_all add: char_values)
  then show "mem32 (hostToNetwork32 kInaddrLoopback) = [CHR 0x7f, CHR 0x00, CHR 0x00, CHR 0x01]"
    "mem32 (hostToNetwork32 kInaddrAny) = [CHR 0x00, CHR 0x00, CHR 0x00, CHR 0x00]"
    by (simp_all only: mem_hostToNetwork rev.simps append.simps)
qed

lemma inaddr_text:
  "inet_ntop4 (mem32 (hostToNetwork32 (if loopback then kInaddrLoopback else kInaddrAny)))
    = (if loopback then ''127.0.0.1'' else ''0.0.0.0'')"
proof -
  have "inet_ntop4 [CHR 0x7f, CHR 0x00, CHR 0x00, CHR 0x01] = ''127.0.0.1''"
    "inet_ntop4 [CHR 0x00, CHR 0x00, CHR 0x00, CHR 0x00] = ''0.0.0.0''"
    by code_simp+
  then show ?thesis by (cases loopback) (simp_all only: inaddr_bytes if_True if_False)
qed

text \<open>
  C26: Addresses and their text: an address made from IPv4 text and a port has exactly that text and
  port, and nothing is cut off by the buffer of 64 bytes; every IPv4 address has a text that is parsed
  back to it. An address made from a port alone is the wildcard or the loopback address with that port.
\<close>

theorem inet_text_roundtrip:
  assumes "length u = 28"
  shows "(\<forall>ip bs. inet_pton4 ip = Some bs \<longrightarrow>
      family (InetAddress_ip u ip port False) = AF_INET
    \<and> toIp f (InetAddress_ip u ip port False) = Some ip
    \<and> toIpPort f (InetAddress_ip u ip port False) = Some (ip @ CHR '':'' # show_nat (unat port))
    \<and> toPort (InetAddress_ip u ip port False) = port)
    \<and> (\<forall>bs. length bs = 4 \<longrightarrow> inet_pton4 (inet_ntop4 bs) = Some bs)
    \<and> toIpPort f (InetAddress_port u port loopback False)
        = Some ((if loopback then ''127.0.0.1'' else ''0.0.0.0'') @ CHR '':'' # show_nat (unat port))"
proof (intro conjI allI impI)
  fix ip bs assume ip: "inet_pton4 ip = Some bs"
  let ?a = "InetAddress_ip u ip port False"
  have "length (bzero 16 u) = 28" using assms by simp
  note mem = fromIpPort_members [OF this ip, of port]
  have a: "?a = fromIpPort ip port (bzero 16 u)" by (simp add: InetAddress_ip_def)
  have bs: "length bs = 4" "inet_ntop4 bs = ip" using inet_pton4_sound [OF ip] by simp_all
  show fam: "family ?a = AF_INET" using mem(1) a by simp
  show port: "toPort ?a = port" using mem(2) a by (simp add: toPort_def)
  show "toIp f ?a = Some ip" "toIpPort f ?a = Some (ip @ CHR '':'' # show_nat (unat port))"
    using toIpPort_inet [OF fam, of f] mem(3) bs a port by simp_all
next
  fix bs :: bytes assume "length bs = 4"
  then show "inet_pton4 (inet_ntop4 bs) = Some bs" by (rule inet_pton4_complete)
next
  let ?a = "InetAddress_port u port loopback False"
  have l: "length (bzero 16 u) = 28" using assms by simp
  then have "family ?a = AF_INET" "toPort ?a = port"
    "sin_addr ?a = mem32 (hostToNetwork32 (if loopback then kInaddrLoopback else kInaddrAny))"
    by (simp_all add: InetAddress_port_def Let_def addr_simps toPort_def)
  moreover note inaddr_text [of loopback]
  ultimately show "toIpPort f ?a
        = Some ((if loopback then ''127.0.0.1'' else ''0.0.0.0'') @ CHR '':'' # show_nat (unat port))"
    using toIpPort_inet [of ?a f] by (simp del: if_split)
qed

theorem inet_text_roundtrip_witness:
  "toIpPort (\<lambda>_. []) (InetAddress_ip (replicate 28 (CHR 0x00)) ''10.0.0.7'' 80 False) = Some ''10.0.0.7:80''"
proof -
  have "inet_pton4 ''10.0.0.7'' = Some [CHR 0x0a, CHR 0x00, CHR 0x00, CHR 0x07]" by code_simp
  moreover have "show_nat 80 = ''80''" by code_simp
  ultimately show ?thesis
    using inet_text_roundtrip [of "replicate 28 (CHR 0x00)" 80 "\<lambda>_. []" False] by simp
qed

text \<open>An IPv6 text given with \<open>ipv6\<close> set is not parsed: the address is the wildcard.\<close>

lemma ipv6_text_ignored:
  assumes "length u = 28" "CHR '':'' \<in> set ip"
  shows "sin6_addr (InetAddress_ip u ip port True) = in6addr_any"
proof -
  have "get_at 8 16 (bzero 28 u) = replicate 16 (CHR 0x00)" using assms(1) by (simp add: get_at_def bzero_def copy_to_def)
  then show ?thesis
    using assms by (simp add: InetAddress_ip_def fromIpPort6_def colon_no_pton Let_def sin6_addr_def
        get_at_copy_after in6addr_any_def)
qed

end
