(* ===== verification/Sockets.thy ===== *)
theory Sockets
  imports InetAddress
begin

text \<open>
  The socket layer: the remaining functions of \<open>src/SocketsOps.cc\<close>, \<open>Socket\<close> (\<open>src/Socket.cc\<close>) and
  \<open>Acceptor\<close> (\<open>src/Acceptor.cc\<close>). The result of a system call is an argument, and a fatal log message is
  \<open>None\<close>. For \<open>Acceptor\<close> the kernel is a table of open descriptors with a limit and a queue of pending
  connections: \<open>open\<close> and \<open>accept\<close> take the lowest free descriptor and fail with \<open>EMFILE\<close> if there is none.
\<close>

definition EPERM :: int where "EPERM = 1"
definition EINTR :: int where "EINTR = 4"
definition EAGAIN :: int where "EAGAIN = 11"
definition EMFILE :: int where "EMFILE = 24"
definition EPROTO :: int where "EPROTO = 71"
definition ECONNABORTED :: int where "ECONNABORTED = 103"

lemmas errno_defs = EPERM_def EINTR_def EAGAIN_def EMFILE_def EPROTO_def ECONNABORTED_def

definition createNonblockingOrDie :: "int \<Rightarrow> int option" where
  "createNonblockingOrDie sockfd = do { ensure (sockfd \<ge> 0); Some sockfd }"

definition bindOrDie :: "int \<Rightarrow> unit option" where
  "bindOrDie ret = ensure (ret \<ge> 0)"

definition listenOrDie :: "int \<Rightarrow> unit option" where
  "listenOrDie ret = ensure (ret \<ge> 0)"

text \<open>\<open>accept\<close>: errors of a single connection attempt or of a full table are passed on, others are fatal.\<close>

definition sockets_accept :: "int + int \<times> sockaddr \<Rightarrow> (int + int \<times> sockaddr) option" where
  "sockets_accept rv =
     (case rv of
        Inr x \<Rightarrow> Some (Inr x)
      | Inl e \<Rightarrow>
          if e \<in> {EAGAIN, ECONNABORTED, EINTR, EPROTO, EPERM, EMFILE} then Some (Inl e) else None)"

definition getSocketError :: "int + int \<Rightarrow> int" where
  "getSocketError rv = (case rv of Inl e \<Rightarrow> e | Inr optval \<Rightarrow> optval)"

text \<open>\<open>getLocalAddr\<close> and \<open>getPeerAddr\<close>: on an error the zeroed structure is returned.\<close>

definition getLocalAddr :: "sockaddr option \<Rightarrow> sockaddr" where
  "getLocalAddr rv = (case rv of Some a \<Rightarrow> a | None \<Rightarrow> replicate 28 (CHR 0x00))"

definition getPeerAddr :: "sockaddr option \<Rightarrow> sockaddr" where
  "getPeerAddr rv = (case rv of Some a \<Rightarrow> a | None \<Rightarrow> replicate 28 (CHR 0x00))"

lemma EAGAIN_not_EMFILE [simp]: "EAGAIN \<noteq> EMFILE"
  by (simp add: errno_defs)

lemma no_self_connect_on_error: "\<not> isSelfConnect (getLocalAddr None) peer"
proof -
  have "take 2 (replicate 28 c) = [c, c]" for c :: char by (simp add: numeral_2_eq_2)
  then have "family (replicate 28 (CHR 0x00)) = 0" by (simp add: family_def get_at_def load16_def)
  then show ?thesis by (simp add: isSelfConnect_def getLocalAddr_def AF_INET_def AF_INET6_def)
qed

section \<open>Socket\<close>

record socket =
  sockfd :: int
  reuseAddr :: bool
  reusePort :: bool
  tcpNoDelay :: bool
  keepAlive :: bool
  socket_listening :: bool
  write_shut :: bool

definition Socket_new :: "int \<Rightarrow> socket" where
  "Socket_new n = \<lparr>sockfd = n, reuseAddr = False, reusePort = False, tcpNoDelay = False, keepAlive = False,
     socket_listening = False, write_shut = False\<rparr>"

definition bindAddress :: "socket \<Rightarrow> int \<Rightarrow> socket option" where
  "bindAddress s ret = do { bindOrDie ret; Some s }"

definition Socket_listen :: "socket \<Rightarrow> int \<Rightarrow> socket option" where
  "Socket_listen s ret = do { listenOrDie ret; Some (s\<lparr>socket_listening := True\<rparr>) }"

text \<open>\<open>accept\<close> returns the descriptor and the peer's address, which is untouched on an error.\<close>

definition Socket_accept :: "int + int \<times> sockaddr \<Rightarrow> sockaddr \<Rightarrow> ((int + int) \<times> sockaddr) option" where
  "Socket_accept rv peeraddr = do {
     r \<leftarrow> sockets_accept rv;
     Some (case r of Inr (connfd, a) \<Rightarrow> (Inr connfd, a) | Inl e \<Rightarrow> (Inl e, peeraddr))
   }"

definition setReuseAddr :: "socket \<Rightarrow> bool \<Rightarrow> socket" where "setReuseAddr s on = s\<lparr>reuseAddr := on\<rparr>"

text \<open>The test is for \<open>SO_RUSEPORT\<close>, which no system defines: the option is only reported as unsupported.\<close>

definition setReusePort :: "socket \<Rightarrow> bool \<Rightarrow> socket" where "setReusePort s on = s"

definition shutdownWrite :: "socket \<Rightarrow> socket" where "shutdownWrite s = s\<lparr>write_shut := True\<rparr>"
definition setTcpNoDelay :: "socket \<Rightarrow> bool \<Rightarrow> socket" where "setTcpNoDelay s on = s\<lparr>tcpNoDelay := on\<rparr>"
definition setKeepAlive :: "socket \<Rightarrow> bool \<Rightarrow> socket" where "setKeepAlive s on = s\<lparr>keepAlive := on\<rparr>"

section \<open>Descriptors\<close>

record kernel =
  open_fds :: "nat list"
  fd_limit :: nat
  backlog :: "sockaddr list"

definition free_fd :: "kernel \<Rightarrow> nat option" where
  "free_fd k = List.find (\<lambda>i. i \<notin> set (open_fds k)) [0..<fd_limit k]"

definition k_open :: "kernel \<Rightarrow> int \<times> kernel" where
  "k_open k = (case free_fd k of None \<Rightarrow> (- 1, k) | Some i \<Rightarrow> (int i, k\<lparr>open_fds := i # open_fds k\<rparr>))"

definition k_close :: "int \<Rightarrow> kernel \<Rightarrow> kernel" where
  "k_close n k = (if n < 0 then k else k\<lparr>open_fds := removeAll (nat n) (open_fds k)\<rparr>)"

definition k_accept :: "kernel \<Rightarrow> (int + int \<times> sockaddr) \<times> kernel" where
  "k_accept k =
     (case free_fd k of
        None \<Rightarrow> (Inl EMFILE, k)
      | Some i \<Rightarrow>
          (case backlog k of
             [] \<Rightarrow> (Inl EAGAIN, k)
           | p # ps \<Rightarrow> (Inr (int i, p), k\<lparr>open_fds := i # open_fds k, backlog := ps\<rparr>)))"

section \<open>Acceptor\<close>

record acceptor =
  acceptSocket :: socket
  acc_listening :: bool
  idleFd :: int
  newConnectionCallback :: bool

text \<open>The constructor, with the results of \<open>socket\<close> and \<open>bind\<close>; the read callback of its channel is \<open>handleRead\<close>.\<close>

definition Acceptor_new :: "int \<Rightarrow> int \<Rightarrow> bool \<Rightarrow> kernel \<Rightarrow> (acceptor \<times> kernel) option" where
  "Acceptor_new fd bind_ret reuseport k = do {
     n \<leftarrow> createNonblockingOrDie fd;
     let (idle, k) = k_open k;
     ensure (idle \<ge> 0);
     s \<leftarrow> bindAddress (setReusePort (setReuseAddr (Socket_new n) True) reuseport) bind_ret;
     Some (\<lparr>acceptSocket = s, acc_listening = False, idleFd = idle, newConnectionCallback = False\<rparr>, k)
   }"

definition setNewConnectionCallback :: "acceptor \<Rightarrow> acceptor" where
  "setNewConnectionCallback a = a\<lparr>newConnectionCallback := True\<rparr>"

definition Acceptor_listen :: "acceptor \<Rightarrow> int \<Rightarrow> acceptor option" where
  "Acceptor_listen a ret = do {
     let a = a\<lparr>acc_listening := True\<rparr>;
     s \<leftarrow> Socket_listen (acceptSocket a) ret;
     Some (a\<lparr>acceptSocket := s\<rparr>)
   }"

text \<open>\<open>handleRead\<close>: the result is the connection handed to the callback, if any.\<close>

definition Acceptor_handleRead :: "acceptor \<Rightarrow> kernel \<Rightarrow> ((int \<times> sockaddr) option \<times> acceptor \<times> kernel) option" where
  "Acceptor_handleRead a k = do {
     let (rv, k) = k_accept k;
     (r, peerAddr) \<leftarrow> Socket_accept rv (InetAddress_port (replicate 28 (CHR 0x00)) 0 False False);
     Some (case r of
        Inr connfd \<Rightarrow>
          if newConnectionCallback a then (Some (connfd, peerAddr), a, k) else (None, a, k_close connfd k)
      | Inl e \<Rightarrow>
          if e = EMFILE then
            let k = k_close (idleFd a) k;
                (rv2, k) = k_accept k;
                idle = (case rv2 of Inr (n, p) \<Rightarrow> n | Inl _ \<Rightarrow> - 1);
                k = k_close idle k;
                (idle, k) = k_open k
            in (None, a\<lparr>idleFd := idle\<rparr>, k)
          else (None, a, k))
   }"

definition Acceptor_dtor :: "acceptor \<Rightarrow> kernel \<Rightarrow> kernel" where
  "Acceptor_dtor a k = k_close (idleFd a) k"

section \<open>The reserved descriptor\<close>

definition acc_inv :: "acceptor \<Rightarrow> kernel \<Rightarrow> bool" where
  "acc_inv a k \<longleftrightarrow> idleFd a \<ge> 0 \<and> nat (idleFd a) \<in> set (open_fds k) \<and> nat (idleFd a) < fd_limit k"

lemma find_Some_in: "List.find P xs = Some x \<Longrightarrow> P x \<and> x \<in> set xs"
  by (induction xs) (auto split: if_splits)

lemma free_fd_Some: "free_fd k = Some i \<Longrightarrow> i < fd_limit k \<and> i \<notin> set (open_fds k)"
  unfolding free_fd_def by (drule find_Some_in) simp

lemma free_fd_None: "free_fd k = None \<longleftrightarrow> {0..<fd_limit k} \<subseteq> set (open_fds k)"
  by (auto simp: free_fd_def find_None_iff)

lemma free_fd_unique:
  assumes "{0..<fd_limit k} - set (open_fds k) = {i}"
  shows "free_fd k = Some i"
proof (cases "free_fd k")
  case None
  then have "{0..<fd_limit k} - set (open_fds k) = {}" unfolding free_fd_None by blast
  with assms show ?thesis by simp
next
  case (Some j)
  then have "j \<in> {0..<fd_limit k} - set (open_fds k)" using free_fd_Some [OF Some] by simp
  then have "j = i" unfolding assms by simp
  with Some show ?thesis by simp
qed

lemma free_fd_cong: "set (open_fds k') = set (open_fds k) \<Longrightarrow> fd_limit k' = fd_limit k \<Longrightarrow> free_fd k' = free_fd k"
  by (simp add: free_fd_def)

text \<open>With a full table: the reserved descriptor is spent on the next connection and taken again.\<close>

lemma emfile_round:
  assumes inv: "acc_inv a k" and full: "free_fd k = None"
  shows "Acceptor_handleRead a k = Some (None, a,
    k\<lparr>open_fds := nat (idleFd a) # removeAll (nat (idleFd a)) (open_fds k), backlog := drop 1 (backlog k)\<rparr>)"
proof -
  let ?i = "nat (idleFd a)"
  let ?k1 = "k\<lparr>open_fds := removeAll ?i (open_fds k)\<rparr>"
  have i: "idleFd a \<ge> 0" "?i < fd_limit k" using inv by (simp_all add: acc_inv_def)
  have "{0..<fd_limit ?k1} - set (open_fds ?k1) = {?i}" using full i unfolding free_fd_None by auto
  then have f1: "free_fd ?k1 = Some ?i" by (rule free_fd_unique)
  then have f2: "free_fd (k\<lparr>backlog := b, open_fds := removeAll ?i (open_fds k)\<rparr>) = Some ?i" for b
    by (simp add: free_fd_def)
  have sa: "Socket_accept (Inl EMFILE) p = Some (Inl EMFILE, p)" for p by (simp add: Socket_accept_def sockets_accept_def)
  show ?thesis
  proof (cases "backlog k")
    case Nil
    then show ?thesis
      using f1 i full by (simp add: Acceptor_handleRead_def k_accept_def sa k_close_def k_open_def Let_def)
  next
    case (Cons p ps)
    then show ?thesis
      using f1 f2 [of ps] i full by (simp add: Acceptor_handleRead_def k_accept_def sa k_close_def k_open_def Let_def)
  qed
qed

text \<open>
  C27: A readable listening socket never makes the loop spin and never leaks the reserve: in every state
  in which the acceptor holds its reserved descriptor, \<open>handleRead\<close> does not abort, keeps a reserved
  descriptor open, and takes one connection off the backlog if there is one, either handing it over with
  a fresh descriptor or, when the process has no descriptor left, closing it at once.
\<close>

theorem acceptor_reserve:
  assumes "acc_inv a k" "newConnectionCallback a"
  shows "\<exists>r a' k'. Acceptor_handleRead a k = Some (r, a', k') \<and> acc_inv a' k' \<and> backlog k' = drop 1 (backlog k)
    \<and> (case r of
         Some (n, p) \<Rightarrow> backlog k \<noteq> [] \<and> p = hd (backlog k) \<and> 0 \<le> n \<and> nat n \<notin> set (open_fds k)
           \<and> set (open_fds k') = insert (nat n) (set (open_fds k))
       | None \<Rightarrow> set (open_fds k') = set (open_fds k) \<and> (backlog k \<noteq> [] \<longrightarrow> free_fd k = None))"
proof (cases "free_fd k")
  case None
  from emfile_round [OF assms(1) this] show ?thesis using assms(1) None by (auto simp: acc_inv_def)
next
  case (Some i)
  have sa: "Socket_accept (Inl EAGAIN) p = Some (Inl EAGAIN, p)" "Socket_accept (Inr (n, q)) p = Some (Inr n, q)" for p n q
    by (simp_all add: Socket_accept_def sockets_accept_def)
  show ?thesis
    using assms Some free_fd_Some [OF Some]
    by (cases "backlog k") (auto simp: Acceptor_handleRead_def k_accept_def sa acc_inv_def)
qed

theorem acceptor_reserve_witness:
  "\<exists>r a' k'. Acceptor_handleRead
      \<lparr>acceptSocket = Socket_new 0, acc_listening = True, idleFd = 1, newConnectionCallback = True\<rparr>
      \<lparr>open_fds = [0, 1], fd_limit = 2, backlog = [[]]\<rparr> = Some (r, a', k') \<and> backlog k' = []"
  using acceptor_reserve [of "\<lparr>acceptSocket = Socket_new 0, acc_listening = True, idleFd = 1, newConnectionCallback = True\<rparr>"
      "\<lparr>open_fds = [0, 1], fd_limit = 2, backlog = [[]]\<rparr>"]
  by (auto simp: acc_inv_def)

end
