(* ===== verification/Connector.thy ===== *)
theory Connector
  imports TcpConnection InetAddress
begin

text \<open>
  \<open>Connector\<close> (\<open>src/Connector.h\<close>, \<open>src/Connector.cc\<close>) and \<open>TcpClient\<close> (\<open>src/TcpClient.cc\<close>). The state of
  a connector holds its members, the poller with its channel, the delays in milliseconds of the timers
  that will call \<open>startInLoop\<close>, the number of queued \<open>resetChannel\<close> functors, the descriptors it has
  closed and those it has handed to the callback. The results of \<open>connect\<close>, \<open>SO_ERROR\<close> and the test for
  a self connection are arguments, as are the new descriptor and the address of the new channel.
  \<open>EventLoop::cancel\<close> does nothing, so \<open>stop\<close> leaves the timers.
\<close>

datatype States = kDisconnected | kConnecting | kConnected

definition kMaxRetryDelayMs :: int where "kMaxRetryDelayMs = 30 * 1000"
definition kInitRetryDelayMs :: int where "kInitRetryDelayMs = 500"

record connector =
  connect_flag :: bool
  cstate :: States
  cchannel :: "addr option"
  cpoller :: poller
  retryDelayMs :: int
  timers :: "int list"
  resets :: nat
  closed_fds :: "int list"
  handed :: "int list"

definition Connector_new :: "poller \<Rightarrow> connector" where
  "Connector_new w = \<lparr>connect_flag = False, cstate = kDisconnected, cchannel = None, cpoller = w,
     retryDelayMs = kInitRetryDelayMs, timers = [], resets = 0, closed_fds = [], handed = []\<rparr>"

text \<open>The destructor asserts that the channel is gone.\<close>

definition Connector_dtor :: "connector \<Rightarrow> unit option" where
  "Connector_dtor c = ensure (cchannel c = None)"

definition csetState :: "connector \<Rightarrow> States \<Rightarrow> connector" where
  "csetState c s = c\<lparr>cstate := s\<rparr>"

definition connecting :: "connector \<Rightarrow> int \<Rightarrow> addr \<Rightarrow> connector option" where
  "connecting c sockfd a = do {
     let c = csetState c kConnecting;
     ensure (cchannel c = None);
     let ch = (Channel_new sockfd)\<lparr>writeCallback := True, errorCallback := True\<rparr>;
     w \<leftarrow> enableWriting ((cpoller c)\<lparr>chans := (chans (cpoller c))(a \<mapsto> ch)\<rparr>) a;
     Some (c\<lparr>cchannel := Some a, cpoller := w\<rparr>)
   }"

definition retry :: "connector \<Rightarrow> int \<Rightarrow> connector" where
  "retry c sockfd =
     (let c = csetState (c\<lparr>closed_fds := closed_fds c @ [sockfd]\<rparr>) kDisconnected
      in if connect_flag c
         then c\<lparr>timers := timers c @ [retryDelayMs c], retryDelayMs := min (retryDelayMs c * 2) kMaxRetryDelayMs\<rparr>
         else c)"

definition EINPROGRESS :: int where "EINPROGRESS = 115"
definition EINTR :: int where "EINTR = 4"
definition EISCONN :: int where "EISCONN = 106"
definition EAGAIN :: int where "EAGAIN = 11"
definition EADDRINUSE :: int where "EADDRINUSE = 98"
definition EADDRNOTAVAIL :: int where "EADDRNOTAVAIL = 99"
definition ECONNREFUSED :: int where "ECONNREFUSED = 111"
definition ENETUNREACH :: int where "ENETUNREACH = 101"

lemmas cerrno_defs = EINPROGRESS_def EINTR_def EISCONN_def EAGAIN_def EADDRINUSE_def EADDRNOTAVAIL_def
  ECONNREFUSED_def ENETUNREACH_def

definition Connector_connect :: "connector \<Rightarrow> int \<Rightarrow> int \<Rightarrow> addr \<Rightarrow> connector option" where
  "Connector_connect c sockfd savedErrno a =
     (if savedErrno \<in> {0, EINPROGRESS, EINTR, EISCONN} then connecting c sockfd a
      else if savedErrno \<in> {EAGAIN, EADDRINUSE, EADDRNOTAVAIL, ECONNREFUSED, ENETUNREACH} then Some (retry c sockfd)
      else Some (c\<lparr>closed_fds := closed_fds c @ [sockfd]\<rparr>))"

definition startInLoop :: "connector \<Rightarrow> int \<Rightarrow> int \<Rightarrow> addr \<Rightarrow> connector option" where
  "startInLoop c sockfd savedErrno a = do {
     ensure (cstate c = kDisconnected);
     if connect_flag c then Connector_connect c sockfd savedErrno a else Some c
   }"

text \<open>\<open>start\<close> in the loop thread runs \<open>startInLoop\<close> at once.\<close>

definition Connector_start :: "connector \<Rightarrow> int \<Rightarrow> int \<Rightarrow> addr \<Rightarrow> connector option" where
  "Connector_start c sockfd savedErrno a = startInLoop (c\<lparr>connect_flag := True\<rparr>) sockfd savedErrno a"

definition restart :: "connector \<Rightarrow> int \<Rightarrow> int \<Rightarrow> addr \<Rightarrow> connector option" where
  "restart c sockfd savedErrno a =
     startInLoop ((csetState c kDisconnected)\<lparr>retryDelayMs := kInitRetryDelayMs, connect_flag := True\<rparr>) sockfd savedErrno a"

definition Connector_stop :: "connector \<Rightarrow> connector" where
  "Connector_stop c = c\<lparr>connect_flag := False\<rparr>"

definition removeAndResetChannel :: "connector \<Rightarrow> (int \<times> connector) option" where
  "removeAndResetChannel c = do {
     a \<leftarrow> cchannel c;
     w \<leftarrow> disableAll (cpoller c) a;
     w \<leftarrow> Poller_removeChannel w a;
     ch \<leftarrow> chans w a;
     Some (fd ch, c\<lparr>cpoller := w, resets := resets c + 1\<rparr>)
   }"

text \<open>The queued functor; the channel object is destroyed.\<close>

definition resetChannel :: "connector \<Rightarrow> connector" where
  "resetChannel c =
     (case cchannel c of
        None \<Rightarrow> c\<lparr>resets := resets c - 1\<rparr>
      | Some a \<Rightarrow> c\<lparr>cchannel := None, resets := resets c - 1, cpoller := (cpoller c)\<lparr>chans := (chans (cpoller c))(a := None)\<rparr>\<rparr>)"

definition Connector_handleWrite :: "connector \<Rightarrow> int \<Rightarrow> bool \<Rightarrow> connector option" where
  "Connector_handleWrite c err selfConnect =
     (if cstate c = kConnecting then do {
        (sockfd, c) \<leftarrow> removeAndResetChannel c;
        Some (if err \<noteq> 0 then retry c sockfd
              else if selfConnect then retry c sockfd
              else let c = csetState c kConnected
                   in if connect_flag c then c\<lparr>handed := handed c @ [sockfd]\<rparr>
                      else c\<lparr>closed_fds := closed_fds c @ [sockfd]\<rparr>)
      }
      else do { ensure (cstate c = kDisconnected); Some c })"

definition Connector_handleError :: "connector \<Rightarrow> connector option" where
  "Connector_handleError c = do {
     ensure (cstate c = kConnecting);
     (sockfd, c) \<leftarrow> removeAndResetChannel c;
     Some (retry c sockfd)
   }"

text \<open>The oldest timer fires.\<close>

definition fire_timer :: "connector \<Rightarrow> int \<Rightarrow> int \<Rightarrow> addr \<Rightarrow> connector option" where
  "fire_timer c sockfd savedErrno a =
     (case timers c of [] \<Rightarrow> Some c | d # ds \<Rightarrow> startInLoop (c\<lparr>timers := ds\<rparr>) sockfd savedErrno a)"

section \<open>Attempts\<close>

text \<open>The ways an attempt fails: refused at once, an error or a self connection when writable, an error event.\<close>

datatype outcome = Refused | Failed int | SelfConnect | ErrorEvent

definition in_progress :: "connector \<Rightarrow> int \<Rightarrow> addr \<Rightarrow> (connector \<Rightarrow> connector option) \<Rightarrow> connector option" where
  "in_progress c n a event = do {
     c \<leftarrow> startInLoop c n EINPROGRESS a;
     c \<leftarrow> event c;
     Some (resetChannel c)
   }"

fun attempt :: "connector \<Rightarrow> int \<Rightarrow> addr \<Rightarrow> outcome \<Rightarrow> connector option" where
  "attempt c n a Refused = startInLoop c n ECONNREFUSED a"
| "attempt c n a (Failed e) = in_progress c n a (\<lambda>c. Connector_handleWrite c (if e = 0 then 1 else e) False)"
| "attempt c n a SelfConnect = in_progress c n a (\<lambda>c. Connector_handleWrite c 0 True)"
| "attempt c n a ErrorEvent = in_progress c n a Connector_handleError"

definition idle :: "connector \<Rightarrow> bool" where
  "idle c \<longleftrightarrow> cstate c = kDisconnected \<and> cchannel c = None \<and> connect_flag c \<and> poller_inv (cpoller c)"

definition unused :: "connector \<Rightarrow> int \<Rightarrow> addr \<Rightarrow> bool" where
  "unused c n a \<longleftrightarrow> 0 \<le> n \<and> channels (cpoller c) n = None \<and> chans (cpoller c) a = None"

lemma poller_inv_drop:
  assumes inv: "poller_inv w" and no: "\<And>k. channels w k \<noteq> Some a"
  shows "poller_inv (w\<lparr>chans := (chans w)(a := None)\<rparr>)" (is "poller_inv ?w")
proof -
  have keep: "registered ?w k b c = registered w k b c" for k b c
    using no by (auto simp: registered_def)
  show ?thesis
  proof (rule poller_invI)
    fix k b assume "channels ?w k = Some b"
    then have "channels w k = Some b" by simp
    then obtain c where "registered w k b c" using registered_chans [OF inv] by blast
    then show "\<exists>c. registered ?w k b c \<and> fd c = k \<and> 0 \<le> k \<and> 0 \<le> index c
        \<and> nat (index c) < length (pollfds ?w) \<and> slot_ok c (pollfds ?w ! nat (index c))"
      using registered_slot [OF inv, of k b c] keep by auto
  next
    fix i assume "i < length (pollfds ?w)"
    then show "\<exists>k b c. registered ?w k b c \<and> nat (index c) = i"
      using inv keep unfolding poller_inv_def by simp
  qed
qed

text \<open>The state while an attempt is in progress.\<close>

definition in_connect :: "connector \<Rightarrow> connector \<Rightarrow> int \<Rightarrow> addr \<Rightarrow> bool" where
  "in_connect c c1 n a \<longleftrightarrow> cstate c1 = kConnecting \<and> cchannel c1 = Some a \<and> poller_inv (cpoller c1)
     \<and> (\<exists>ch. registered (cpoller c1) n a ch \<and> fd ch = n)
     \<and> channels (cpoller c1) = (channels (cpoller c))(n \<mapsto> a)
     \<and> (\<forall>b. b \<noteq> a \<longrightarrow> chans (cpoller c1) b = chans (cpoller c) b)
     \<and> (\<exists>w. c1 = c\<lparr>cstate := kConnecting, cchannel := Some a, cpoller := w\<rparr>)"

lemma start_in_progress:
  assumes "idle c" "unused c n a"
  shows "\<exists>c1. startInLoop c n EINPROGRESS a = Some c1 \<and> in_connect c c1 n a"
proof -
  let ?ch = "(Channel_new n)\<lparr>writeCallback := True, errorCallback := True\<rparr>"
  let ?w = "(cpoller c)\<lparr>chans := (chans (cpoller c))(a \<mapsto> ?ch)\<rparr>"
  have inv: "poller_inv ?w" using assms poller_inv_create by (simp add: idle_def unused_def)
  have may: "may_update ?w a" using assms by (simp add: unused_def may_update_def Channel_new_def)
  have sw: "set_writing \<in> set event_ops" by (simp add: event_ops_def)
  obtain w ch where w: "Channel_update set_writing ?w a = Some w" "poller_inv w" "registered w (fd ch) a ch"
      "channels w = (channels ?w)(fd ch \<mapsto> a)" "map_option fd (chans ?w a) = Some (fd ch)"
      "\<And>b. b \<noteq> a \<Longrightarrow> chans w b = chans ?w b"
    using Channel_update_ok [OF inv sw may] by metis
  have n: "fd ch = n" using w(5) by (simp add: Channel_new_def)
  have "startInLoop c n EINPROGRESS a = Some (c\<lparr>cstate := kConnecting, cchannel := Some a, cpoller := w\<rparr>)"
    using assms w(1) by (simp add: startInLoop_def idle_def Connector_connect_def connecting_def csetState_def enableWriting_def)
  moreover have "in_connect c (c\<lparr>cstate := kConnecting, cchannel := Some a, cpoller := w\<rparr>) n a"
    using w n by (auto simp: in_connect_def)
  ultimately show ?thesis by blast
qed

text \<open>The end of an attempt, for the poller: the channel is removed and then destroyed.\<close>

lemma remove_and_reset:
  assumes idle: "idle c" and un: "unused c n a" and ic: "in_connect c c1 n a"
  shows "\<exists>w1. removeAndResetChannel c1 = Some (n, c1\<lparr>cpoller := w1, resets := resets c1 + 1\<rparr>)
    \<and> poller_inv (w1\<lparr>chans := (chans w1)(a := None)\<rparr>) \<and> channels w1 = channels (cpoller c)
    \<and> (\<forall>b. ((chans w1)(a := None)) b = None \<longleftrightarrow> chans (cpoller c) b = None)"
proof -
  let ?w = "cpoller c1"
  obtain ch where ch: "registered ?w (fd ch) a ch" "fd ch = n" using ic by (auto simp: in_connect_def)
  have inv: "poller_inv ?w" using ic by (simp add: in_connect_def)
  have may: "may_update ?w a"
    using ch(1) registered_slot [OF inv ch(1)] by (auto simp: may_update_def registered_def)
  have f: "clear_all \<in> set event_ops" by (simp add: event_ops_def)
  obtain w0 c' where w0: "Channel_update clear_all ?w a = Some w0" "poller_inv w0" "registered w0 (fd c') a c'"
      "channels w0 = (channels ?w)(fd c' \<mapsto> a)" "map_option fd (chans ?w a) = Some (fd c')"
      "events c' = events (clear_all (the (chans ?w a)))" "\<And>b. b \<noteq> a \<Longrightarrow> chans w0 b = chans ?w b"
      "pfd_events (pollfds w0 ! nat (index c')) = ucast (events c')"
      "isNoneEvent c' \<Longrightarrow> channels ?w (fd c') = Some a \<Longrightarrow> pfd_fd (pollfds w0 ! nat (index c')) = - fd c' - 1"
    using Channel_update_ok [OF inv f may] by metis
  have c': "fd c' = n" "events c' = 0" "isNoneEvent c'"
    using w0(5,6) ch by (auto simp: registered_def clear_all_def kNoneEvent_def isNoneEvent_def)
  obtain w1 where w1: "Poller_removeChannel w0 a = Some w1" "poller_inv w1" "channels w1 = (channels w0)(fd c' := None)"
    "\<And>b. map_option fd (chans w1 b) = map_option fd (chans w0 b)"
    using remove_ok [OF w0(2,3) c'(3)] w0(8,9) c' ch by (auto simp: registered_def)
  have chn: "channels w1 = channels (cpoller c)"
    using w1(3) w0(4) c'(1) ic un by (auto simp: in_connect_def unused_def)
  have no: "channels w1 k \<noteq> Some a" for k
  proof
    assume "channels w1 k = Some a"
    then have "channels (cpoller c) k = Some a" using chn by simp
    moreover have "poller_inv (cpoller c)" using idle by (simp add: idle_def)
    ultimately obtain x where "chans (cpoller c) a = Some x" using poller_invD by blast
    then show False using un by (simp add: unused_def)
  qed
  obtain ch1 where ch1: "chans w1 a = Some ch1" "fd ch1 = n"
    using w1(4) [of a] w0(3) c'(1) by (auto simp: registered_def)
  have "removeAndResetChannel c1 = Some (n, c1\<lparr>cpoller := w1, resets := resets c1 + 1\<rparr>)"
    using ic w0(1) w1(1) ch1 by (simp add: removeAndResetChannel_def in_connect_def disableAll_def)
  moreover have "chans w1 b = None \<longleftrightarrow> chans (cpoller c) b = None" if "b \<noteq> a" for b
    using w1(4) [of b] w0(7) [OF that] ic that unfolding in_connect_def
    by (metis option.map_disc_iff)
  ultimately show ?thesis
    using poller_inv_drop [OF w1(2) no] chn un by (auto simp: unused_def)
qed

definition same_poller :: "connector \<Rightarrow> connector \<Rightarrow> bool" where
  "same_poller c c' \<longleftrightarrow> poller_inv (cpoller c') \<and> channels (cpoller c') = channels (cpoller c)
     \<and> (\<forall>b. chans (cpoller c') b = None \<longleftrightarrow> chans (cpoller c) b = None)"

lemma unused_same: "same_poller c c' \<Longrightarrow> unused c' n a = unused c n a"
  by (auto simp: same_poller_def unused_def)

text \<open>A failed attempt closes its descriptor, starts one timer and doubles the delay.\<close>

definition failed_post :: "connector \<Rightarrow> int \<Rightarrow> connector \<Rightarrow> bool" where
  "failed_post c n c' \<longleftrightarrow> idle c' \<and> same_poller c c' \<and> timers c' = timers c @ [retryDelayMs c]
     \<and> retryDelayMs c' = min (retryDelayMs c * 2) kMaxRetryDelayMs \<and> closed_fds c' = closed_fds c @ [n]
     \<and> handed c' = handed c \<and> resets c' = resets c"

lemma in_progress_fails:
  assumes idle: "idle c" and un: "unused c n a"
    and event: "\<And>c1. cstate c1 = kConnecting \<Longrightarrow>
      event c1 = Option.bind (removeAndResetChannel c1) (\<lambda>(m, c2). Some (retry c2 m))"
  shows "\<exists>c'. in_progress c n a event = Some c' \<and> failed_post c n c'"
proof -
  obtain c1 where c1: "startInLoop c n EINPROGRESS a = Some c1" and ic: "in_connect c c1 n a"
    using start_in_progress [OF idle un] by blast
  obtain w1 where w1: "removeAndResetChannel c1 = Some (n, c1\<lparr>cpoller := w1, resets := resets c1 + 1\<rparr>)"
    "poller_inv (w1\<lparr>chans := (chans w1)(a := None)\<rparr>)" "channels w1 = channels (cpoller c)"
    "\<forall>b. ((chans w1)(a := None)) b = None \<longleftrightarrow> chans (cpoller c) b = None"
    using remove_and_reset [OF idle un ic] by blast
  obtain w where cw: "c1 = c\<lparr>cstate := kConnecting, cchannel := Some a, cpoller := w\<rparr>" using ic by (auto simp: in_connect_def)
  let ?c2 = "retry (c1\<lparr>cpoller := w1, resets := resets c1 + 1\<rparr>) n"
  have "in_progress c n a event = Some (resetChannel ?c2)"
    using c1 event [of c1] w1(1) ic by (simp add: in_progress_def in_connect_def)
  moreover have "failed_post c n (resetChannel ?c2)"
    using idle w1 by (simp add: failed_post_def cw retry_def csetState_def resetChannel_def idle_def same_poller_def Let_def)
  ultimately show ?thesis by blast
qed

lemma attempt_fails:
  assumes "idle c" "unused c n a"
  shows "\<exists>c'. attempt c n a x = Some c' \<and> failed_post c n c'"
proof (cases x)
  case Refused
  have "attempt c n a Refused = Some (retry c n)"
    using assms by (simp add: startInLoop_def idle_def Connector_connect_def cerrno_defs)
  moreover have "failed_post c n (retry c n)"
    using assms by (auto simp: failed_post_def retry_def csetState_def idle_def same_poller_def Let_def)
  ultimately show ?thesis using Refused by blast
next
  case (Failed e)
  then show ?thesis
    using in_progress_fails [OF assms, of "\<lambda>c. Connector_handleWrite c (if e = 0 then 1 else e) False"]
    by (simp add: Connector_handleWrite_def)
next
  case SelfConnect
  then show ?thesis
    using in_progress_fails [OF assms, of "\<lambda>c. Connector_handleWrite c 0 True"]
    by (simp add: Connector_handleWrite_def)
next
  case ErrorEvent
  then show ?thesis
    using in_progress_fails [OF assms, of Connector_handleError] by (simp add: Connector_handleError_def)
qed

text \<open>Failing attempts in a row: the timer of each fires and starts the next. The result are the delays.\<close>

fun attempts :: "connector \<Rightarrow> (int \<times> addr \<times> outcome) list \<Rightarrow> (int list \<times> connector) option" where
  "attempts c [] = Some ([], c)"
| "attempts c ((n, a, x) # xs) = do {
     c \<leftarrow> attempt c n a x;
     (d, c) \<leftarrow> (case timers c of [d] \<Rightarrow> Some (d, c\<lparr>timers := []\<rparr>) | _ \<Rightarrow> None);
     (ds, c) \<leftarrow> attempts c xs;
     Some (d # ds, c)
   }"

definition backoff :: "int \<Rightarrow> nat \<Rightarrow> int" where
  "backoff d k = min (d * 2 ^ k) kMaxRetryDelayMs"

lemma backoff_Suc: "backoff (min (d * 2) kMaxRetryDelayMs) k = backoff d (Suc k)"
proof (cases "d * 2 \<le> kMaxRetryDelayMs")
  case True
  then show ?thesis by (simp add: backoff_def algebra_simps)
next
  case False
  have one: "(1 :: int) \<le> 2 ^ k" by simp
  have "kMaxRetryDelayMs * 1 \<le> kMaxRetryDelayMs * 2 ^ k" using one by (intro mult_left_mono) (simp_all add: kMaxRetryDelayMs_def)
  moreover have "kMaxRetryDelayMs * 2 ^ k \<le> d * 2 * 2 ^ k" using False one by (intro mult_right_mono) simp_all
  ultimately have "kMaxRetryDelayMs \<le> kMaxRetryDelayMs * 2 ^ k" "kMaxRetryDelayMs \<le> d * 2 * 2 ^ k"
    by linarith+
  then have "kMaxRetryDelayMs \<le> kMaxRetryDelayMs * 2 ^ k" "kMaxRetryDelayMs \<le> d * 2 ^ Suc k"
    by (simp_all only: power_Suc mult.assoc)
  then show ?thesis using False by (simp add: backoff_def min_absorb2)
qed

lemma attempts_ok:
  assumes "idle c" "timers c = []" "0 \<le> retryDelayMs c" "retryDelayMs c \<le> kMaxRetryDelayMs"
    and "\<And>n a x. (n, a, x) \<in> set xs \<Longrightarrow> unused c n a"
  shows "\<exists>c'. attempts c xs = Some (map (backoff (retryDelayMs c)) [0..<length xs], c') \<and> idle c' \<and> same_poller c c'
    \<and> timers c' = [] \<and> closed_fds c' = closed_fds c @ map fst xs \<and> handed c' = handed c"
  using assms
proof (induction xs arbitrary: c)
  case Nil
  then show ?case by (simp add: same_poller_def idle_def)
next
  case (Cons y xs)
  obtain n a x where y: "y = (n, a, x)" by (cases y)
  obtain c1 where c1: "attempt c n a x = Some c1" "failed_post c n c1"
    using attempt_fails [OF Cons.prems(1) Cons.prems(5) [of n a x]] y by auto
  let ?c2 = "c1\<lparr>timers := []\<rparr>"
  have p: "idle ?c2" "same_poller c ?c2" "retryDelayMs ?c2 = min (retryDelayMs c * 2) kMaxRetryDelayMs"
    "closed_fds ?c2 = closed_fds c @ [n]" "handed ?c2 = handed c" "timers c1 = [retryDelayMs c]"
    using c1(2) Cons.prems(2) by (auto simp: failed_post_def idle_def same_poller_def)
  have "unused ?c2 m b" if "(m, b, z) \<in> set xs" for m b z
    using Cons.prems(5) that unused_same [OF p(2)] by (auto simp: y)
  then obtain c' where c': "attempts ?c2 xs = Some (map (backoff (retryDelayMs ?c2)) [0..<length xs], c')" "idle c'"
      "same_poller ?c2 c'" "timers c' = []" "closed_fds c' = closed_fds ?c2 @ map fst xs" "handed c' = handed ?c2"
    using Cons.IH [of ?c2] p Cons.prems(3,4) by (auto simp: kMaxRetryDelayMs_def)
  have "map (backoff (retryDelayMs c)) [0..<Suc (length xs)] = retryDelayMs c # map (backoff (retryDelayMs ?c2)) [0..<length xs]"
    unfolding map_upt_Suc p(3) backoff_Suc using Cons.prems(4) by (simp add: backoff_def)
  then have "map (backoff (retryDelayMs c)) [0..<length (y # xs)] = retryDelayMs c # map (backoff (retryDelayMs ?c2)) [0..<length xs]"
    by simp
  then show ?case
    using c1(1) c' p y by (auto simp: same_poller_def)
qed

text \<open>An attempt that succeeds.\<close>

definition succeed :: "connector \<Rightarrow> int \<Rightarrow> addr \<Rightarrow> connector option" where
  "succeed c n a = in_progress c n a (\<lambda>c. Connector_handleWrite c 0 False)"

lemma succeed_ok:
  assumes idle: "idle c" and un: "unused c n a"
  shows "\<exists>c'. succeed c n a = Some c' \<and> handed c' = handed c @ [n] \<and> cstate c' = kConnected \<and> cchannel c' = None
    \<and> closed_fds c' = closed_fds c \<and> timers c' = timers c"
proof -
  obtain c1 where c1: "startInLoop c n EINPROGRESS a = Some c1" and ic: "in_connect c c1 n a"
    using start_in_progress [OF idle un] by blast
  obtain w1 where w1: "removeAndResetChannel c1 = Some (n, c1\<lparr>cpoller := w1, resets := resets c1 + 1\<rparr>)"
    using remove_and_reset [OF idle un ic] by blast
  obtain w where "c1 = c\<lparr>cstate := kConnecting, cchannel := Some a, cpoller := w\<rparr>" using ic by (auto simp: in_connect_def)
  then show ?thesis
    using c1 w1 idle
    by (simp add: succeed_def in_progress_def Connector_handleWrite_def csetState_def resetChannel_def idle_def Let_def)
qed

section \<open>Properties of the connector\<close>

lemma started_idle:
  assumes "poller_inv w"
  shows "idle ((Connector_new w)\<lparr>connect_flag := True\<rparr>)"
  using assms by (simp add: idle_def Connector_new_def)


lemma demo_unused: "unused ((Connector_new Poller_new)\<lparr>connect_flag := True\<rparr>) n a = (0 \<le> n)"
  by (simp add: unused_def Connector_new_def Poller_new_def)


text \<open>
  C29: \<open>stop\<close> and \<open>start\<close> while a retry is pending: since the timer is not cancelled, it fires while the
  new attempt is in progress and the assertion in \<open>startInLoop\<close> fails.
\<close>

theorem connector_stop_start:
  assumes "idle c" "timers c = []" "unused c n a" "unused c m b"
  shows "\<exists>c1 c2. attempt c n a x = Some c1 \<and> Connector_start (Connector_stop c1) m EINPROGRESS b = Some c2
    \<and> fire_timer c2 k e d = None"
proof -
  obtain c1 where c1: "attempt c n a x = Some c1" "failed_post c n c1" using attempt_fails [OF assms(1,3)] by blast
  let ?c = "(Connector_stop c1)\<lparr>connect_flag := True\<rparr>"
  have "?c = c1" using c1(2) by (simp add: Connector_stop_def failed_post_def idle_def)
  moreover have "unused c1 m b" using c1(2) assms(4) by (auto simp: failed_post_def dest: unused_same)
  ultimately obtain c2 where c2: "Connector_start (Connector_stop c1) m EINPROGRESS b = Some c2" "in_connect c1 c2 m b"
    using start_in_progress [of c1 m b] c1(2) by (auto simp: Connector_start_def failed_post_def)
  have "timers c2 = timers c1" "cstate c2 = kConnecting" using c2(2) by (auto simp: in_connect_def)
  then have "fire_timer c2 k e d = None"
    using c1(2) assms(2) by (simp add: fire_timer_def failed_post_def startInLoop_def)
  with c1(1) c2(1) show ?thesis by blast
qed

theorem connector_stop_start_witness:
  "\<exists>c1 c2. attempt ((Connector_new Poller_new)\<lparr>connect_flag := True\<rparr>) 5 1 Refused = Some c1
     \<and> Connector_start (Connector_stop c1) 6 EINPROGRESS 2 = Some c2 \<and> fire_timer c2 7 0 3 = None"
  using connector_stop_start [OF started_idle [OF Poller_new_inv], of 5 1 6 2 Refused 7 0 3]
  by (simp add: demo_unused) (simp add: Connector_new_def)

section \<open>TcpClient\<close>

text \<open>
  The client keeps at most one connection, named after the peer and a counter. The calls it makes on
  connections are recorded: \<open>established\<close> those it called \<open>connectEstablished\<close> on, \<open>destroying\<close> those
  whose \<open>connectDestroyed\<close> is queued, \<open>shutdowns\<close> those it asked to shut down, \<open>detached\<close> those whose
  close callback no longer refers to the client, \<open>force_closes\<close> those it called \<open>forceClose\<close> on.
\<close>

record tcp_client =
  client_name :: string
  retry_flag :: bool
  client_connect :: bool
  nextConnId :: int
  connection_ptr :: "string option"
  client_connector :: connector
  shutdowns :: "string list"
  destroying :: "string list"
  established :: "string list"
  detached :: "string list"
  force_closes :: "string list"

definition TcpClient_new :: "poller \<Rightarrow> string \<Rightarrow> tcp_client" where
  "TcpClient_new w nameArg = \<lparr>client_name = nameArg, retry_flag = False, client_connect = True, nextConnId = 1,
     connection_ptr = None, client_connector = Connector_new w, shutdowns = [], destroying = [],
     established = [], detached = [], force_closes = []\<rparr>"

definition enableRetry :: "tcp_client \<Rightarrow> tcp_client" where
  "enableRetry t = t\<lparr>retry_flag := True\<rparr>"

definition TcpClient_connect :: "tcp_client \<Rightarrow> int \<Rightarrow> int \<Rightarrow> addr \<Rightarrow> tcp_client option" where
  "TcpClient_connect t n e a = do {
     let t = t\<lparr>client_connect := True\<rparr>;
     c \<leftarrow> Connector_start (client_connector t) n e a;
     Some (t\<lparr>client_connector := c\<rparr>)
   }"

definition disconnect :: "tcp_client \<Rightarrow> tcp_client" where
  "disconnect t =
     (let t = t\<lparr>client_connect := False\<rparr>
      in case connection_ptr t of Some n \<Rightarrow> t\<lparr>shutdowns := shutdowns t @ [n]\<rparr> | None \<Rightarrow> t)"

definition TcpClient_stop :: "tcp_client \<Rightarrow> tcp_client" where
  "TcpClient_stop t = t\<lparr>client_connect := False, client_connector := Connector_stop (client_connector t)\<rparr>"

text \<open>\<open>newConnection\<close>: the name ends with the peer's text and the counter, cut to a buffer of 32 bytes.\<close>

definition TcpClient_newConnection :: "tcp_client \<Rightarrow> string \<Rightarrow> tcp_client" where
  "TcpClient_newConnection t peer =
     (let buf = take 31 (CHR '':'' # peer @ CHR ''#'' # show_int (nextConnId t));
          connName = client_name t @ buf
      in t\<lparr>nextConnId := nextConnId t + 1, connection_ptr := Some connName, established := established t @ [connName]\<rparr>)"

definition TcpClient_removeConnection :: "tcp_client \<Rightarrow> string \<Rightarrow> int \<Rightarrow> int \<Rightarrow> addr \<Rightarrow> tcp_client option" where
  "TcpClient_removeConnection t conn n e a = do {
     ensure (connection_ptr t = Some conn);
     let t = t\<lparr>connection_ptr := None, destroying := destroying t @ [conn]\<rparr>;
     if retry_flag t \<and> client_connect t then do {
       c \<leftarrow> restart (client_connector t) n e a;
       Some (t\<lparr>client_connector := c\<rparr>)
     }
     else Some t
   }"

text \<open>
  The destructor: \<open>unique\<close> tells that no one else holds the connection. Without a connection the
  connector is stopped and kept alive by a timer that does nothing.
\<close>

definition TcpClient_dtor :: "tcp_client \<Rightarrow> bool \<Rightarrow> tcp_client" where
  "TcpClient_dtor t unique =
     (case connection_ptr t of
        Some conn \<Rightarrow>
          let t = t\<lparr>detached := detached t @ [conn]\<rparr>
          in if unique then t\<lparr>force_closes := force_closes t @ [conn]\<rparr> else t
      | None \<Rightarrow> t\<lparr>client_connector := Connector_stop (client_connector t)\<rparr>)"

text \<open>A client destroyed while it waits for a retry does not try again: the timer finds the flag cleared.\<close>

lemma client_dtor_silent:
  assumes "connection_ptr t = None" "cstate (client_connector t) = kDisconnected" "timers (client_connector t) = d # ds"
  shows "fire_timer (client_connector (TcpClient_dtor t u)) n e a = Some ((client_connector t)\<lparr>connect_flag := False, timers := ds\<rparr>)"
  using assms by (simp add: TcpClient_dtor_def Connector_stop_def fire_timer_def startInLoop_def)

text \<open>With \<open>enableRetry\<close> a lost connection is tried again from the shortest delay; \<open>disconnect\<close> ends that.\<close>

lemma client_reconnects:
  assumes "connection_ptr t = Some conn" "retry_flag t" "client_connect t"
    and "cchannel (client_connector t) = None" "poller_inv (cpoller (client_connector t))" "timers (client_connector t) = []"
  shows "\<exists>t'. TcpClient_removeConnection t conn n ECONNREFUSED a = Some t' \<and> connection_ptr t' = None
    \<and> destroying t' = destroying t @ [conn] \<and> idle (client_connector t') \<and> timers (client_connector t') = [500]"
  using assms
  by (simp add: TcpClient_removeConnection_def restart_def startInLoop_def csetState_def Connector_connect_def
      cerrno_defs retry_def Let_def idle_def kInitRetryDelayMs_def)

lemma client_disconnected:
  assumes "connection_ptr t = Some conn"
  shows "\<exists>t'. TcpClient_removeConnection (disconnect t) conn n e a = Some t' \<and> client_connector t' = client_connector t
    \<and> connection_ptr t' = None"
  using assms by (simp add: TcpClient_removeConnection_def disconnect_def Let_def)

text \<open>An address and port of 21 characters leaves room for a counter up to 99999999 in the buffer of 32 bytes.\<close>

lemma client_name_fits:
  assumes "length peer \<le> 21" "1 \<le> nextConnId t" "nextConnId t < 10 ^ 8"
  shows "connection_ptr (TcpClient_newConnection t peer) =
    Some (client_name t @ CHR '':'' # peer @ CHR ''#'' # show_int (nextConnId t))"
proof -
  have "length (show_int (nextConnId t)) \<le> 8"
    using assms(2,3) length_show_nat_le [of "nat (nextConnId t)" 7] by (simp add: show_int_def)
  then show ?thesis using assms(1) by (simp add: TcpClient_newConnection_def Let_def)
qed

end
