(* ===== verification/LogStream.thy ===== *)
theory LogStream
  imports Prelude
begin

text \<open>
  \<open>FixedBuffer\<close>, \<open>LogStream\<close> and \<open>Fmt\<close> (\<open>src/LogStream.h\<close>, \<open>src/LogStream.cc\<close>). A fixed buffer is its
  array and the offset of \<open>cur_\<close>; the conversions of integers write digit by digit into that array and
  reverse what they wrote, and a store outside the array is \<^term>\<open>None\<close>. The value of an integer of any
  of the C++ types is an \<open>int\<close>. What \<open>snprintf\<close> makes of \<open>%.12g\<close> and of the format of a \<open>Fmt\<close> is an
  argument, as those conversions are the C library's.
\<close>

section \<open>Conversion of integers\<close>

definition digits :: string where "digits = ''9876543210123456789''"
definition digitsHex :: string where "digitsHex = ''0123456789ABCDEF''"

text \<open>\<open>zero[lsd]\<close>, where \<open>zero\<close> points into the middle of \<open>digits\<close> and the index may be negative.\<close>

definition zero_index :: "int \<Rightarrow> char option" where
  "zero_index lsd = (if 0 \<le> 9 + lsd \<and> nat (9 + lsd) < length digits then Some (digits ! nat (9 + lsd)) else None)"

definition poke :: "bytes \<Rightarrow> nat \<Rightarrow> char \<Rightarrow> bytes option" where
  "poke mem p c = (if p < length mem then Some (mem[p := c]) else None)"

definition reverse_range :: "bytes \<Rightarrow> nat \<Rightarrow> nat \<Rightarrow> bytes" where
  "reverse_range mem a b = take a mem @ rev (take (b - a) (drop a mem)) @ drop b mem"

lemma abs_c_div: "\<bar>c_div i 10\<bar> = \<bar>i\<bar> div 10"
  by (cases "i = 0") (simp_all add: c_div_def abs_mult abs_sgn_eq)

lemma c_div_10_smaller:
  assumes "c_div i 10 \<noteq> 0"
  shows "i \<noteq> 0 \<and> \<bar>c_div i 10\<bar> < \<bar>i\<bar>"
proof -
  have "\<bar>i\<bar> div 10 \<noteq> 0" using assms abs_c_div [of i] by simp
  then have "i \<noteq> 0" by auto
  moreover have "\<bar>i\<bar> div 10 < \<bar>i\<bar>" using \<open>i \<noteq> 0\<close> by (intro int_div_less_self) auto
  ultimately show ?thesis using abs_c_div [of i] by simp
qed

text \<open>The \<open>do\<close> loop of \<open>convert\<close>.\<close>

function convert_loop :: "bytes \<Rightarrow> nat \<Rightarrow> int \<Rightarrow> (bytes \<times> nat) option" where
  "convert_loop mem p i = do {
     let lsd = c_mod i 10;
     c \<leftarrow> zero_index lsd;
     mem' \<leftarrow> poke mem p c;
     if c_div i 10 \<noteq> 0 then convert_loop mem' (p + 1) (c_div i 10) else Some (mem', p + 1)
   }"
  by pat_completeness auto
termination
  by (relation "measure (\<lambda>(mem, p, i). nat \<bar>i\<bar>)") (auto dest: c_div_10_smaller)

definition convert :: "bytes \<Rightarrow> nat \<Rightarrow> int \<Rightarrow> (nat \<times> bytes) option" where
  "convert mem buf value = do {
     (mem, p) \<leftarrow> convert_loop mem buf value;
     (mem, p) \<leftarrow> (if value < 0 then do { mem \<leftarrow> poke mem p (CHR ''-''); Some (mem, p + 1) } else Some (mem, p));
     mem \<leftarrow> poke mem p (CHR 0x00);
     Some (p - buf, reverse_range mem buf p)
   }"

fun convertHex_loop :: "bytes \<Rightarrow> nat \<Rightarrow> nat \<Rightarrow> (bytes \<times> nat) option" where
  "convertHex_loop mem p i = do {
     let lsd = i mod 16;
     mem' \<leftarrow> poke mem p (digitsHex ! lsd);
     if i div 16 \<noteq> 0 then convertHex_loop mem' (p + 1) (i div 16) else Some (mem', p + 1)
   }"

definition convertHex :: "bytes \<Rightarrow> nat \<Rightarrow> 64 word \<Rightarrow> (nat \<times> bytes) option" where
  "convertHex mem buf value = do {
     (mem, p) \<leftarrow> convertHex_loop mem buf (unat value);
     mem \<leftarrow> poke mem p (CHR 0x00);
     Some (p - buf, reverse_range mem buf p)
   }"

declare convert_loop.simps [simp del] convertHex_loop.simps [simp del]

section \<open>The fixed buffer and the stream\<close>

definition kSmallBuffer :: nat where "kSmallBuffer = 4000"
definition kLargeBuffer :: nat where "kLargeBuffer = 4000 * 1000"
definition kMaxNumericSize :: nat where "kMaxNumericSize = 32"

record fixed_buffer =
  fdata :: bytes
  cur :: nat

text \<open>The constructor leaves the array as it was: \<open>garbage\<close> is what its memory held.\<close>

definition FixedBuffer_new :: "bytes \<Rightarrow> fixed_buffer" where
  "FixedBuffer_new garbage = \<lparr>fdata = garbage, cur = 0\<rparr>"

definition avail :: "fixed_buffer \<Rightarrow> nat" where
  "avail b = length (fdata b) - cur b"

definition fb_append :: "fixed_buffer \<Rightarrow> bytes \<Rightarrow> fixed_buffer" where
  "fb_append b buf =
     (if avail b > length buf then b\<lparr>fdata := copy_to (fdata b) (cur b) buf, cur := cur b + length buf\<rparr> else b)"

definition fb_length :: "fixed_buffer \<Rightarrow> nat" where
  "fb_length b = cur b"

definition fb_add :: "fixed_buffer \<Rightarrow> nat \<Rightarrow> fixed_buffer" where
  "fb_add b len = b\<lparr>cur := cur b + len\<rparr>"

definition fb_reset :: "fixed_buffer \<Rightarrow> fixed_buffer" where
  "fb_reset b = b\<lparr>cur := 0\<rparr>"

definition fb_bzero :: "fixed_buffer \<Rightarrow> fixed_buffer" where
  "fb_bzero b = b\<lparr>fdata := replicate (length (fdata b)) (CHR 0x00)\<rparr>"

definition fb_toString :: "fixed_buffer \<Rightarrow> string" where
  "fb_toString b = take (fb_length b) (fdata b)"

text \<open>\<open>debugString\<close> terminates the text in place.\<close>

definition debugString :: "fixed_buffer \<Rightarrow> (string \<times> fixed_buffer) option" where
  "debugString b = do {
     mem \<leftarrow> poke (fdata b) (cur b) (CHR 0x00);
     Some (takeWhile (\<lambda>c. c \<noteq> CHR 0x00) mem, b\<lparr>fdata := mem\<rparr>)
   }"

definition formatInteger :: "fixed_buffer \<Rightarrow> int \<Rightarrow> fixed_buffer option" where
  "formatInteger b v =
     (if avail b \<ge> kMaxNumericSize then do {
        (len, mem) \<leftarrow> convert (fdata b) (cur b) v;
        Some (fb_add (b\<lparr>fdata := mem\<rparr>) len)
      }
      else Some b)"

definition put_pointer :: "fixed_buffer \<Rightarrow> 64 word \<Rightarrow> fixed_buffer option" where
  "put_pointer b v =
     (if avail b \<ge> kMaxNumericSize then do {
        let buf = cur b;
        mem \<leftarrow> poke (fdata b) buf (CHR ''0'');
        mem \<leftarrow> poke mem (buf + 1) (CHR ''x'');
        (len, mem) \<leftarrow> convertHex mem (buf + 2) v;
        Some (fb_add (b\<lparr>fdata := mem\<rparr>) (len + 2))
      }
      else Some b)"

text \<open>\<open>snprintf(buf, n, ..)\<close> stores at most \<open>n - 1\<close> characters of its text and a zero, and returns the length of the text.\<close>

definition snprintf_at :: "bytes \<Rightarrow> nat \<Rightarrow> nat \<Rightarrow> string \<Rightarrow> (nat \<times> bytes) option" where
  "snprintf_at mem p n txt =
     (let out = take (n - 1) txt @ [CHR 0x00]
      in if p + length out \<le> length mem then Some (length txt, copy_to mem p out) else None)"

definition put_double :: "fixed_buffer \<Rightarrow> string \<Rightarrow> fixed_buffer option" where
  "put_double b txt =
     (if avail b \<ge> kMaxNumericSize then do {
        (len, mem) \<leftarrow> snprintf_at (fdata b) (cur b) kMaxNumericSize txt;
        Some (fb_add (b\<lparr>fdata := mem\<rparr>) len)
      }
      else Some b)"

definition put_bool :: "fixed_buffer \<Rightarrow> bool \<Rightarrow> fixed_buffer" where
  "put_bool b v = fb_append b (if v then ''1'' else ''0'')"

definition put_char :: "fixed_buffer \<Rightarrow> char \<Rightarrow> fixed_buffer" where
  "put_char b v = fb_append b [v]"

definition put_cstr :: "fixed_buffer \<Rightarrow> string option \<Rightarrow> fixed_buffer" where
  "put_cstr b str =
     (case str of Some s \<Rightarrow> fb_append b (takeWhile (\<lambda>c. c \<noteq> CHR 0x00) s) | None \<Rightarrow> fb_append b ''(null)'')"

definition put_string :: "fixed_buffer \<Rightarrow> string \<Rightarrow> fixed_buffer" where
  "put_string b v = fb_append b v"

definition put_buffer :: "fixed_buffer \<Rightarrow> fixed_buffer \<Rightarrow> fixed_buffer" where
  "put_buffer b v = put_string b (fb_toString v)"

text \<open>\<open>Fmt\<close> formats into an array of 32 bytes and asserts that the text fits.\<close>

definition Fmt_new :: "string \<Rightarrow> string option" where
  "Fmt_new txt = do { ensure (length txt < 32); Some txt }"

definition put_fmt :: "fixed_buffer \<Rightarrow> string \<Rightarrow> fixed_buffer" where
  "put_fmt b fmt = fb_append b fmt"

datatype stream_item =
  S_bool bool | S_int int | S_pointer "64 word" | S_double string | S_char char | S_cstring "string option"
| S_string string | S_fixed fixed_buffer | S_formatted string

fun put_item :: "fixed_buffer \<Rightarrow> stream_item \<Rightarrow> fixed_buffer option" where
  "put_item b (S_bool v) = Some (put_bool b v)"
| "put_item b (S_int v) = formatInteger b v"
| "put_item b (S_pointer v) = put_pointer b v"
| "put_item b (S_double txt) = put_double b txt"
| "put_item b (S_char v) = Some (put_char b v)"
| "put_item b (S_cstring s) = Some (put_cstr b s)"
| "put_item b (S_string v) = Some (put_string b v)"
| "put_item b (S_fixed v) = Some (put_buffer b v)"
| "put_item b (S_formatted txt) = do { fmt \<leftarrow> Fmt_new txt; Some (put_fmt b fmt) }"

fun put_items :: "fixed_buffer \<Rightarrow> stream_item list \<Rightarrow> fixed_buffer option" where
  "put_items b [] = Some b"
| "put_items b (x # xs) = do { b \<leftarrow> put_item b x; put_items b xs }"

section \<open>Digits of any base\<close>

text \<open>
  Both conversions print a number in a base with a digit table. The contract of such a printer gives
  that its text is read back and how long the text can be.
\<close>

fun show_hex :: "nat \<Rightarrow> string" where
  "show_hex n = (if n < 16 then [digitsHex ! n] else show_hex (n div 16) @ [digitsHex ! (n mod 16)])"

definition hex_value :: "char \<Rightarrow> nat" where
  "hex_value c = (if is_digit c then of_char c - 48 else of_char c - 55)"

fun read_hex :: "nat \<Rightarrow> string \<Rightarrow> nat" where
  "read_hex acc [] = acc"
| "read_hex acc (c # cs) = read_hex (16 * acc + hex_value c) cs"

declare show_hex.simps [simp del]

locale radix =
  fixes base :: nat and digit :: "nat \<Rightarrow> char" and digit_value :: "char \<Rightarrow> nat"
    and print_num :: "nat \<Rightarrow> string" and read_num :: "nat \<Rightarrow> string \<Rightarrow> nat"
  assumes base: "2 \<le> base"
    and print_small: "n < base \<Longrightarrow> print_num n = [digit n]"
    and print_large: "base \<le> n \<Longrightarrow> print_num n = print_num (n div base) @ [digit (n mod base)]"
    and value_digit: "d < base \<Longrightarrow> digit_value (digit d) = d"
    and read_Nil: "read_num acc [] = acc"
    and read_Cons: "read_num acc (c # cs) = read_num (base * acc + digit_value c) cs"
begin

lemma read_append: "read_num acc (xs @ ys) = read_num (read_num acc xs) ys"
  by (induction xs arbitrary: acc) (simp_all add: read_Nil read_Cons)

lemma read_print: "read_num 0 (print_num n) = n"
proof (induction n rule: less_induct)
  case (less n)
  show ?case
  proof (cases "n < base")
    case True
    then show ?thesis by (simp add: print_small read_Cons read_Nil value_digit)
  next
    case False
    with base have "n div base < n" by simp
    with less have "read_num 0 (print_num (n div base)) = n div base" by blast
    moreover have "n mod base < base" using base by simp
    ultimately show ?thesis
      using False by (simp add: print_large read_append read_Cons read_Nil value_digit)
  qed
qed

lemma print_inject: "print_num m = print_num n \<longleftrightarrow> m = n"
  by (metis read_print)

lemma length_print: "n < base ^ Suc k \<Longrightarrow> length (print_num n) \<le> Suc k"
proof (induction k arbitrary: n)
  case 0
  then show ?case by (simp add: print_small)
next
  case (Suc k)
  show ?case
  proof (cases "n < base")
    case True
    then show ?thesis by (simp add: print_small)
  next
    case False
    have "n div base < base ^ Suc k"
      using Suc.prems by (simp add: less_mult_imp_div_less mult.commute)
    from Suc.IH [OF this] False show ?thesis by (simp add: print_large)
  qed
qed

lemma print_nonempty: "print_num n \<noteq> []"
  by (cases "n < base") (simp_all add: print_small print_large)

end

interpretation dec: radix 10 digit_char "\<lambda>c. of_char c - 48" show_nat read_nat
  by unfold_locales (simp_all add: show_nat.simps)

lemma hex_value_digits: "\<forall>d\<in>set [0..<16]. hex_value (digitsHex ! d) = d"
  by code_simp

interpretation hex: radix 16 "\<lambda>d. digitsHex ! d" hex_value show_hex read_hex
proof unfold_locales
  fix d :: nat assume "d < 16"
  then show "hex_value (digitsHex ! d) = d" using hex_value_digits by (metis atLeastLessThan_iff set_upt zero_le)
qed (simp_all add: show_hex.simps)

section \<open>Correctness of the conversions\<close>

lemma poke_copy: "p < length mem \<Longrightarrow> poke mem p c = Some (copy_to mem p [c])"
  by (simp add: poke_def copy_to_def upd_conv_take_nth_drop)

lemma copy_to_copy_to:
  "p + length xs + length ys \<le> length mem \<Longrightarrow> copy_to (copy_to mem p xs) (p + length xs) ys = copy_to mem p (xs @ ys)"
  by (simp add: copy_to_def add.assoc add.left_commute add.commute)

lemma reverse_copy:
  assumes "p + length xs + length ys \<le> length mem"
  shows "reverse_range (copy_to mem p (xs @ ys)) p (p + length xs) = copy_to mem p (rev xs @ ys)"
  using assms by (simp add: reverse_range_def copy_to_def)

lemma zero_index_all: "\<forall>l\<in>set [-9..9]. zero_index l = Some (digit_char (nat \<bar>l\<bar>))"
  by code_simp

lemma nat_c_mod_10: "nat \<bar>c_mod i 10\<bar> = nat \<bar>i\<bar> mod 10"
proof (cases "0 \<le> i")
  case True
  then show ?thesis by (simp add: nat_mod_distrib)
next
  case False
  then have "c_mod i 10 = - (- i mod 10)" "\<bar>i\<bar> = - i" by (auto intro: c_mod_neg)
  then show ?thesis using False nat_mod_distrib [of "- i" 10] by (simp only:) simp
qed

lemma zero_index_mod: "zero_index (c_mod i 10) = Some (digit_char (nat \<bar>i\<bar> mod 10))"
proof -
  have "- 9 \<le> c_mod i 10 \<and> c_mod i 10 \<le> 9" using c_mod_lower [of 10 i] c_mod_upper [of 10 i] by linarith
  then have "c_mod i 10 \<in> set [-9..9]" unfolding set_upto atLeastAtMost_iff .
  from zero_index_all [rule_format, OF this] show ?thesis unfolding nat_c_mod_10 .
qed

lemma nat_c_div_10: "nat \<bar>c_div i 10\<bar> = nat \<bar>i\<bar> div 10"
  unfolding abs_c_div by (simp add: nat_div_distrib)

lemma convert_loop_ok:
  "p + length (show_nat (nat \<bar>i\<bar>)) \<le> length mem \<Longrightarrow>
   convert_loop mem p i = Some (copy_to mem p (rev (show_nat (nat \<bar>i\<bar>))), p + length (show_nat (nat \<bar>i\<bar>)))"
proof (induction mem p i rule: convert_loop.induct)
  case (1 mem p i)
  let ?n = "nat \<bar>i\<bar>" let ?c = "digit_char (?n mod 10)"
  have z: "c_div i 10 = 0 \<longleftrightarrow> ?n < 10" using div_eq_0_iff [of ?n 10] unfolding nat_c_div_10 [symmetric] by simp
  have p: "p < length mem" using 1(2) dec.print_nonempty [of ?n] by (cases "show_nat ?n") auto
  note pk = poke_copy [OF p, of ?c]
  show ?case
  proof (cases "?n < 10")
    case True
    then show ?thesis using z pk by (simp add: convert_loop.simps [of mem p i] zero_index_mod dec.print_small)
  next
    case False
    then have s: "show_nat ?n = show_nat (?n div 10) @ [?c]" by (simp add: dec.print_large)
    let ?m = "copy_to mem p [?c]"
    have "convert_loop ?m (p + 1) (c_div i 10) =
        Some (copy_to ?m (p + 1) (rev (show_nat (?n div 10))), p + 1 + length (show_nat (?n div 10)))"
      using 1(1) [OF refl zero_index_mod pk] 1(2) s z False p by (simp add: nat_c_div_10)
    moreover have "copy_to ?m (p + 1) (rev (show_nat (?n div 10))) = copy_to mem p (rev (show_nat ?n))"
      using copy_to_copy_to [of p "[?c]" "rev (show_nat (?n div 10))" mem] 1(2) s by simp
    ultimately show ?thesis using z pk s False by (simp add: convert_loop.simps [of mem p i] zero_index_mod)
  qed
qed

lemma convert_ok:
  assumes "buf + length (show_int v) < length mem"
  shows "convert mem buf v = Some (length (show_int v), copy_to mem buf (show_int v @ [CHR 0x00]))"
proof -
  let ?s = "show_nat (nat \<bar>v\<bar>)"
  let ?r = "rev ?s @ (if v < 0 then ''-'' else [])"
  have r: "rev ?r = show_int v" by (simp add: show_int_def)
  then have lr: "length ?r = length (show_int v)" by (metis length_rev)
  have l: "buf + length ?s \<le> length mem" using assms by (simp add: show_int_def split: if_splits)
  have fin: "do { mem' \<leftarrow> poke (copy_to mem buf ?r) (buf + length ?r) (CHR 0x00);
      Some (buf + length ?r - buf, reverse_range mem' buf (buf + length ?r)) }
    = Some (length (show_int v), copy_to mem buf (show_int v @ [CHR 0x00]))"
    using assms lr r copy_to_copy_to [of buf ?r "[CHR 0x00]" mem] reverse_copy [of buf ?r "[CHR 0x00]" mem]
    by (simp add: poke_copy)
  show ?thesis
  proof (cases "v < 0")
    case True
    then have p: "buf + length ?s < length mem" using assms by (simp add: show_int_def)
    have "poke (copy_to mem buf (rev ?s)) (buf + length ?s) (CHR ''-'') = Some (copy_to mem buf ?r)"
      using p True copy_to_copy_to [of buf "rev ?s" "''-''" mem] by (simp add: poke_copy)
    then show ?thesis using fin True convert_loop_ok [OF l] by (simp add: convert_def)
  next
    case False
    then show ?thesis using fin convert_loop_ok [OF l] by (simp add: convert_def)
  qed
qed

lemma convertHex_loop_ok:
  "p + length (show_hex n) \<le> length mem \<Longrightarrow>
   convertHex_loop mem p n = Some (copy_to mem p (rev (show_hex n)), p + length (show_hex n))"
proof (induction mem p n rule: convertHex_loop.induct)
  case (1 mem p n)
  let ?c = "digitsHex ! (n mod 16)"
  have p: "p < length mem" using 1(2) hex.print_nonempty [of n] by (cases "show_hex n") auto
  note pk = poke_copy [OF p, of ?c]
  show ?case
  proof (cases "n < 16")
    case True
    then show ?thesis using pk by (simp add: convertHex_loop.simps [of mem p n] hex.print_small)
  next
    case False
    then have s: "show_hex n = show_hex (n div 16) @ [?c]" by (simp add: hex.print_large)
    let ?m = "copy_to mem p [?c]"
    have "convertHex_loop ?m (p + 1) (n div 16) = Some (copy_to ?m (p + 1) (rev (show_hex (n div 16))), p + 1 + length (show_hex (n div 16)))"
      using 1(1) [OF refl pk] 1(2) s False p by simp
    moreover have "copy_to ?m (p + 1) (rev (show_hex (n div 16))) = copy_to mem p (rev (show_hex n))"
      using copy_to_copy_to [of p "[?c]" "rev (show_hex (n div 16))" mem] 1(2) s by simp
    moreover have "n div 16 \<noteq> 0" using False by (simp add: div_eq_0_iff)
    ultimately show ?thesis using pk s by (simp add: convertHex_loop.simps [of mem p n])
  qed
qed

lemma convertHex_ok:
  assumes "buf + length (show_hex (unat v)) < length mem"
  shows "convertHex mem buf v = Some (length (show_hex (unat v)), copy_to mem buf (show_hex (unat v) @ [CHR 0x00]))"
proof -
  let ?r = "rev (show_hex (unat v))"
  show ?thesis
    using assms convertHex_loop_ok [of buf "unat v" mem] copy_to_copy_to [of buf ?r "[CHR 0x00]" mem]
      reverse_copy [of buf ?r "[CHR 0x00]" mem]
    by (simp add: convertHex_def poke_copy)
qed

section \<open>What a stream holds\<close>

definition fb_inv :: "fixed_buffer \<Rightarrow> bool" where
  "fb_inv b \<longleftrightarrow> length (fdata b) = kSmallBuffer \<and> cur b < length (fdata b)"

fun item_text :: "stream_item \<Rightarrow> string" where
  "item_text (S_bool v) = (if v then ''1'' else ''0'')"
| "item_text (S_int v) = show_int v"
| "item_text (S_pointer v) = ''0x'' @ show_hex (unat v)"
| "item_text (S_double txt) = txt"
| "item_text (S_char v) = [v]"
| "item_text (S_cstring s) = (case s of Some s \<Rightarrow> takeWhile (\<lambda>c. c \<noteq> CHR 0x00) s | None \<Rightarrow> ''(null)'')"
| "item_text (S_string v) = v"
| "item_text (S_fixed v) = fb_toString v"
| "item_text (S_formatted txt) = txt"

text \<open>The room an item asks for: 32 bytes for a number, one byte more than the text otherwise.\<close>

fun room :: "stream_item \<Rightarrow> nat" where
  "room (S_int v) = kMaxNumericSize"
| "room (S_pointer v) = kMaxNumericSize"
| "room (S_double txt) = kMaxNumericSize"
| "room x = Suc (length (item_text x))"

text \<open>Values the C++ types have, and texts that \<open>snprintf\<close> does not cut.\<close>

fun item_ok :: "stream_item \<Rightarrow> bool" where
  "item_ok (S_int v) \<longleftrightarrow> - (2 ^ 63) \<le> v \<and> v < 2 ^ 64"
| "item_ok (S_double txt) \<longleftrightarrow> length txt < 32"
| "item_ok (S_formatted txt) \<longleftrightarrow> length txt < 32"
| "item_ok x \<longleftrightarrow> True"

definition put_text :: "string \<Rightarrow> stream_item \<Rightarrow> string" where
  "put_text s x = (if length s + room x \<le> kSmallBuffer then s @ item_text x else s)"

lemma length_fb_toString [simp]: "fb_inv b \<Longrightarrow> length (fb_toString b) = cur b"
  by (simp add: fb_inv_def fb_toString_def fb_length_def)

lemma toString_write:
  assumes "cur b + length xs \<le> length (fdata b)"
  shows "fb_toString (b\<lparr>fdata := copy_to (fdata b) (cur b) (xs @ ys), cur := cur b + length xs\<rparr>) = fb_toString b @ xs"
  using assms by (simp add: fb_toString_def fb_length_def copy_to_def)

lemma fb_append_ok:
  assumes "fb_inv b"
  shows "fb_inv (fb_append b xs) \<and> fb_toString (fb_append b xs)
    = (if cur b + Suc (length xs) \<le> kSmallBuffer then fb_toString b @ xs else fb_toString b)"
  using assms toString_write [of b xs "[]"] by (auto simp: fb_append_def fb_inv_def avail_def)

lemma length_show_int_64:
  assumes "- (2 ^ 63) \<le> v" "v < 2 ^ 64"
  shows "length (show_int v) \<le> 20"
proof (cases "v < 0")
  case True
  have "nat (- v) < 10 ^ Suc 18" using assms(1) True by (simp add: nat_less_iff)
  from dec.length_print [OF this] True show ?thesis by (simp add: show_int_def)
next
  case False
  have "nat v < 10 ^ Suc 19" using assms(2) False by (simp add: nat_less_iff)
  from dec.length_print [OF this] False show ?thesis by (simp add: show_int_def)
qed

lemma length_show_hex_64: "length (show_hex (unat (v :: 64 word))) \<le> 16"
proof -
  have "unat v < 16 ^ Suc 15" using unsigned_less [of v, where ?'a = nat] by simp
  from hex.length_print [OF this] show ?thesis by simp
qed

text \<open>A number of less than 32 characters, stored with a zero after it where 32 bytes are free.\<close>

lemma numeric_ok:
  assumes "fb_inv b" "kMaxNumericSize \<le> avail b" "length xs < kMaxNumericSize"
  shows "fb_inv (fb_add (b\<lparr>fdata := copy_to (fdata b) (cur b) (xs @ [CHR 0x00])\<rparr>) (length xs))
    \<and> fb_toString (fb_add (b\<lparr>fdata := copy_to (fdata b) (cur b) (xs @ [CHR 0x00])\<rparr>) (length xs)) = fb_toString b @ xs"
proof -
  have "cur b + length xs < length (fdata b)" using assms by (simp add: avail_def kMaxNumericSize_def)
  then show ?thesis using assms(1) toString_write [of b xs "[CHR 0x00]"] by (simp add: fb_add_def fb_inv_def)
qed

lemma formatInteger_ok:
  assumes "fb_inv b" "- (2 ^ 63) \<le> v" "v < 2 ^ 64" "kMaxNumericSize \<le> avail b"
  shows "formatInteger b v = Some (fb_add (b\<lparr>fdata := copy_to (fdata b) (cur b) (show_int v @ [CHR 0x00])\<rparr>) (length (show_int v)))"
proof -
  have "cur b + length (show_int v) < length (fdata b)"
    using assms(4) length_show_int_64 [OF assms(2,3)] by (simp add: avail_def kMaxNumericSize_def)
  then show ?thesis using assms(4) by (simp add: formatInteger_def convert_ok)
qed

lemma put_pointer_ok:
  assumes "fb_inv b" "kMaxNumericSize \<le> avail b"
  shows "put_pointer b v = Some (fb_add (b\<lparr>fdata := copy_to (fdata b) (cur b) ((''0x'' @ show_hex (unat v)) @ [CHR 0x00])\<rparr>)
    (length (''0x'' @ show_hex (unat v))))"
proof -
  let ?h = "show_hex (unat v)" let ?m = "fdata b"
  have l: "cur b + 18 < length ?m" using assms(2) by (simp add: avail_def kMaxNumericSize_def)
  have h: "length ?h \<le> 16" by (rule length_show_hex_64)
  have "copy_to (copy_to ?m (cur b) ''0'') (cur b + 1) ''x'' = copy_to ?m (cur b) ''0x''"
    using copy_to_copy_to [of "cur b" "''0''" "''x''" ?m] l by simp
  moreover have "convertHex (copy_to ?m (cur b) ''0x'') (cur b + 2) v = Some (length ?h, copy_to (copy_to ?m (cur b) ''0x'') (cur b + 2) (?h @ [CHR 0x00]))"
    using l h by (intro convertHex_ok) simp
  moreover have "copy_to (copy_to ?m (cur b) ''0x'') (cur b + 2) (?h @ [CHR 0x00]) = copy_to ?m (cur b) (''0x'' @ ?h @ [CHR 0x00])"
    using copy_to_copy_to [of "cur b" "''0x''" "?h @ [CHR 0x00]" ?m] l h by simp
  ultimately show ?thesis using assms(2) l by (simp add: put_pointer_def poke_copy Let_def)
qed

lemma put_double_ok:
  assumes "fb_inv b" "kMaxNumericSize \<le> avail b" "length txt < 32"
  shows "put_double b txt = Some (fb_add (b\<lparr>fdata := copy_to (fdata b) (cur b) (txt @ [CHR 0x00])\<rparr>) (length txt))"
  using assms by (simp add: put_double_def snprintf_at_def kMaxNumericSize_def avail_def Let_def)

lemma put_item_ok:
  assumes "fb_inv b" "item_ok x"
  shows "\<exists>b'. put_item b x = Some b' \<and> fb_inv b' \<and> fb_toString b' = put_text (fb_toString b) x"
proof -
  have av: "kMaxNumericSize \<le> avail b \<longleftrightarrow> cur b + kMaxNumericSize \<le> kSmallBuffer"
    using assms(1) by (auto simp: avail_def fb_inv_def)
  have num: "\<exists>b'. op_result = Some b' \<and> fb_inv b' \<and> fb_toString b' = (if cur b + kMaxNumericSize \<le> kSmallBuffer then fb_toString b @ xs else fb_toString b)"
    if "length xs < 32"
      and "kMaxNumericSize \<le> avail b \<Longrightarrow> op_result = Some (fb_add (b\<lparr>fdata := copy_to (fdata b) (cur b) (xs @ [CHR 0x00])\<rparr>) (length xs))"
      and "\<not> kMaxNumericSize \<le> avail b \<Longrightarrow> op_result = Some b" for op_result xs
    using that numeric_ok [OF assms(1), of xs] assms(1) av
    by (cases "kMaxNumericSize \<le> avail b") (simp_all add: kMaxNumericSize_def)
  show ?thesis
  proof (cases x)
    case (S_int v)
    then have v: "- (2 ^ 63) \<le> v" "v < 2 ^ 64" using assms(2) by simp_all
    have "\<exists>b'. formatInteger b v = Some b' \<and> fb_inv b' \<and> fb_toString b' = (if cur b + kMaxNumericSize \<le> kSmallBuffer then fb_toString b @ show_int v else fb_toString b)"
      using length_show_int_64 [OF v] by (intro num formatInteger_ok [OF assms(1) v]) (simp_all add: formatInteger_def)
    then show ?thesis using S_int assms(1) by (auto simp: put_text_def)
  next
    case (S_pointer v)
    have "\<exists>b'. put_pointer b v = Some b' \<and> fb_inv b' \<and> fb_toString b' = (if cur b + kMaxNumericSize \<le> kSmallBuffer then fb_toString b @ ''0x'' @ show_hex (unat v) else fb_toString b)"
      using length_show_hex_64 [of v] by (intro num put_pointer_ok [OF assms(1)]) (simp_all add: put_pointer_def)
    then show ?thesis using S_pointer assms(1) by (auto simp: put_text_def)
  next
    case (S_double s)
    then have t: "length s < 32" using assms(2) by simp
    have "\<exists>b'. put_double b s = Some b' \<and> fb_inv b' \<and> fb_toString b' = (if cur b + kMaxNumericSize \<le> kSmallBuffer then fb_toString b @ s else fb_toString b)"
      by (rule num [OF t]) (use t put_double_ok [OF assms(1)] in blast, simp add: put_double_def)
    then show ?thesis using S_double assms(1) by (auto simp: put_text_def)
  qed (use assms in \<open>auto simp: put_text_def fb_append_ok put_bool_def put_char_def put_cstr_def put_string_def
      put_buffer_def Fmt_new_def put_fmt_def split: option.splits\<close>)
qed

lemma put_items_ok:
  "fb_inv b \<Longrightarrow> (\<And>x. x \<in> set xs \<Longrightarrow> item_ok x) \<Longrightarrow>
   \<exists>b'. put_items b xs = Some b' \<and> fb_inv b' \<and> fb_toString b' = foldl put_text (fb_toString b) xs"
proof (induction xs arbitrary: b)
  case (Cons x xs)
  obtain b1 where "put_item b x = Some b1" "fb_inv b1" "fb_toString b1 = put_text (fb_toString b) x"
    using put_item_ok [OF Cons.prems(1)] Cons.prems(2) by (metis list.set_intros(1))
  then show ?case using Cons.IH [of b1] Cons.prems(2) by auto
qed simp

lemma room_le: "room x \<le> length (item_text x) + kMaxNumericSize"
  by (cases x) (simp_all add: kMaxNumericSize_def)

lemma put_text_all:
  "length s + length (concat (map item_text xs)) + kMaxNumericSize \<le> kSmallBuffer \<Longrightarrow>
   foldl put_text s xs = s @ concat (map item_text xs)"
proof (induction xs arbitrary: s)
  case (Cons x xs)
  have "put_text s x = s @ item_text x" using Cons.prems room_le [of x] by (auto simp: put_text_def)
  then show ?case using Cons.IH [of "s @ item_text x"] Cons.prems by simp
qed simp

lemma FixedBuffer_new_inv: "length g = kSmallBuffer \<Longrightarrow> fb_inv (FixedBuffer_new g)"
  by (simp add: fb_inv_def FixedBuffer_new_def kSmallBuffer_def)

text \<open>
  C30: No sequence of insertions stores outside the array of a log stream, whatever their values. The
  stream then holds the texts of the items in order, an item being left out as a whole exactly when less
  than 32 bytes (for a number) or less than its text and one byte are free; when everything fits, with 32
  bytes to spare, nothing is left out. Room for the terminating zero of \<open>debugString\<close> remains.
\<close>

theorem logstream_bounds:
  assumes "length garbage = kSmallBuffer" "\<forall>x\<in>set xs. item_ok x"
  shows "\<exists>b. put_items (FixedBuffer_new garbage) xs = Some b \<and> length (fdata b) = kSmallBuffer
    \<and> fb_length b < kSmallBuffer \<and> fb_toString b = foldl put_text [] xs
    \<and> (length (concat (map item_text xs)) + kMaxNumericSize \<le> kSmallBuffer \<longrightarrow> fb_toString b = concat (map item_text xs))
    \<and> debugString b \<noteq> None"
proof -
  have "fb_toString (FixedBuffer_new garbage) = []" by (simp add: fb_toString_def FixedBuffer_new_def fb_length_def)
  then obtain b where "put_items (FixedBuffer_new garbage) xs = Some b" "fb_inv b" "fb_toString b = foldl put_text [] xs"
    using put_items_ok [OF FixedBuffer_new_inv [OF assms(1)], of xs] assms(2) by auto
  then show ?thesis
    using put_text_all [of "[]" xs] by (auto simp: fb_inv_def fb_length_def debugString_def poke_def)
qed

definition demo_items :: "stream_item list" where
  "demo_items = [S_int (- 42), S_char (CHR '' ''), S_pointer 0xBEEF, S_cstring None]"

lemma demo_items_text: "concat (map item_text demo_items) = ''-42 0xBEEF(null)''"
proof -
  have "digit_char 4 = CHR ''4''" "digit_char 2 = CHR ''2''" by code_simp+
  moreover have "show_hex 48879 = ''BEEF''" by (simp add: show_hex.simps digitsHex_def)
  ultimately show ?thesis by (simp add: demo_items_def show_int_def show_nat.simps)
qed

lemma demo_items_ok: "\<forall>x\<in>set demo_items. item_ok x"
  by (simp add: demo_items_def)

theorem logstream_bounds_witness:
  "\<exists>b. put_items (FixedBuffer_new (replicate kSmallBuffer (CHR ''z''))) demo_items = Some b \<and> fb_toString b = ''-42 0xBEEF(null)''"
proof -
  have "length (concat (map item_text demo_items)) + kMaxNumericSize \<le> kSmallBuffer"
    unfolding demo_items_text kSmallBuffer_def kMaxNumericSize_def by simp
  then show ?thesis
    using logstream_bounds [OF length_replicate demo_items_ok, of "CHR ''z''"] unfolding demo_items_text by blast
qed

end
