(* ===== verification/Logging.thy ===== *)
theory Logging
  imports LogStream TimeZone Threads
begin

text \<open>
  \<open>Logger\<close> (\<open>src/Logging.h\<close>, \<open>src/Logging.cc\<close>) and the thread identification it prints
  (\<open>src/CurrentThread.h\<close>, \<open>CurrentThread::cacheTid\<close> in \<open>src/Thread.cc\<close>). The thread-local variables are
  a record; the clock, \<open>gettid\<close>, \<open>errno\<close> with the text of \<open>strerror_r\<close> and the contents of
  uninitialised stack memory are arguments. A log statement yields the text given to \<open>g_output\<close> and
  whether the process is then aborted.
\<close>

section \<open>Levels, source files, thread-local state\<close>

datatype LogLevel = TRACE | DEBUG | INFO | WARN | ERROR | FATAL

fun level_num :: "LogLevel \<Rightarrow> nat" where
  "level_num TRACE = 0"
| "level_num DEBUG = 1"
| "level_num INFO = 2"
| "level_num WARN = 3"
| "level_num ERROR = 4"
| "level_num FATAL = 5"

fun LogLevelName :: "LogLevel \<Rightarrow> string" where
  "LogLevelName TRACE = ''TRACE ''"
| "LogLevelName DEBUG = ''DEBUG ''"
| "LogLevelName INFO = ''INFO  ''"
| "LogLevelName WARN = ''WARN  ''"
| "LogLevelName ERROR = ''ERROR ''"
| "LogLevelName FATAL = ''FATAL ''"

definition initLogLevel :: "bool \<Rightarrow> bool \<Rightarrow> LogLevel" where
  "initLogLevel env_trace env_debug = (if env_trace then TRACE else if env_debug then DEBUG else INFO)"

text \<open>\<open>SourceFile\<close>: what follows the last slash of the file name.\<close>

definition SourceFile :: "string \<Rightarrow> string" where
  "SourceFile filename = (case rfind_char (CHR ''/'') filename of Some slash \<Rightarrow> drop (slash + 1) filename | None \<Rightarrow> filename)"

record log_thread =
  t_cachedTid :: int
  t_tidString :: string
  t_tidStringLength :: nat
  t_time :: string
  t_lastSecond :: int

definition log_thread_new :: log_thread where
  "log_thread_new = \<lparr>t_cachedTid = 0, t_tidString = [], t_tidStringLength = 6, t_time = [], t_lastSecond = 0\<rparr>"

definition cacheTid :: "log_thread \<Rightarrow> int \<Rightarrow> log_thread" where
  "cacheTid th gettid =
     (if t_cachedTid th = 0
      then let txt = pad_left 5 (CHR '' '') (show_int gettid) @ '' ''
           in th\<lparr>t_cachedTid := gettid, t_tidString := snprintf 32 txt, t_tidStringLength := length txt\<rparr>
      else th)"

definition current_tid :: "log_thread \<Rightarrow> int \<Rightarrow> int \<times> log_thread" where
  "current_tid th gettid = (let th = (if t_cachedTid th = 0 then cacheTid th gettid else th) in (t_cachedTid th, th))"

section \<open>A log statement\<close>

text \<open>A string with its length known at compile time; the constructor asserts that length.\<close>

definition put_T :: "fixed_buffer \<Rightarrow> string \<Rightarrow> nat \<Rightarrow> fixed_buffer option" where
  "put_T b str len = do { ensure (length str = len); Some (fb_append b str) }"

definition put_SourceFile :: "fixed_buffer \<Rightarrow> string \<Rightarrow> fixed_buffer" where
  "put_SourceFile b v = fb_append b v"

record log_impl =
  impl_time :: Timestamp
  stream :: fixed_buffer
  impl_level :: LogLevel
  impl_line :: int
  impl_basename :: string

definition time_text :: "tm \<Rightarrow> string" where
  "time_text tm_time =
     pad_left 4 (CHR '' '') (show_int (tm_year tm_time + 1900)) @ show_int0 2 (tm_mon tm_time + 1)
       @ show_int0 2 (tm_mday tm_time) @ '' '' @ show_int0 2 (tm_hour tm_time) @ '':''
       @ show_int0 2 (tm_min tm_time) @ '':'' @ show_int0 2 (tm_sec tm_time)"

text \<open>The text of the second is made anew only when the second changes.\<close>

definition refresh_time :: "tz_data option \<Rightarrow> log_thread \<Rightarrow> int \<Rightarrow> log_thread option" where
  "refresh_time g_logTimeZone th seconds =
     (if seconds \<noteq> t_lastSecond th then do {
        tm_time \<leftarrow> (if TimeZone_valid g_logTimeZone then toLocalTime g_logTimeZone seconds else Some (gmtime_r seconds));
        ensure (length (time_text tm_time) = 17);
        Some (th\<lparr>t_lastSecond := seconds, t_time := snprintf 32 (time_text tm_time)\<rparr>)
      }
      else Some th)"

definition formatTime :: "tz_data option \<Rightarrow> log_thread \<Rightarrow> log_impl \<Rightarrow> (log_thread \<times> log_impl) option" where
  "formatTime g_logTimeZone th i = do {
     let us = microSecondsSinceEpoch (impl_time i);
     let seconds = c_div us kMicroSecondsPerSecond;
     let microseconds = c_mod us kMicroSecondsPerSecond;
     th \<leftarrow> refresh_time g_logTimeZone th seconds;
     if TimeZone_valid g_logTimeZone then do {
       us \<leftarrow> Fmt_new (''.'' @ show_int0 6 microseconds @ '' '');
       ensure (length us = 8);
       b \<leftarrow> put_T (stream i) (t_time th) 17;
       b \<leftarrow> put_T b us 8;
       Some (th, i\<lparr>stream := b\<rparr>)
     }
     else do {
       us \<leftarrow> Fmt_new (''.'' @ show_int0 6 microseconds @ ''Z '');
       ensure (length us = 9);
       b \<leftarrow> put_T (stream i) (t_time th) 17;
       b \<leftarrow> put_T b us 9;
       Some (th, i\<lparr>stream := b\<rparr>)
     }
   }"

text \<open>What a statement finds around it: time, thread, \<open>errno\<close> with its text, the stack memory of the stream.\<close>

record log_env =
  now :: Timestamp
  env_tid :: int
  env_errno :: int
  env_strerror :: string
  env_garbage :: bytes

definition Impl_new :: "tz_data option \<Rightarrow> log_thread \<Rightarrow> log_env \<Rightarrow> LogLevel \<Rightarrow> int \<Rightarrow> string \<Rightarrow> int \<Rightarrow> (log_thread \<times> log_impl) option" where
  "Impl_new g_logTimeZone th env level savedErrno filename line = do {
     let i = \<lparr>impl_time = now env, stream = FixedBuffer_new (env_garbage env), impl_level = level, impl_line = line,
              impl_basename = filename\<rparr>;
     (th, i) \<leftarrow> formatTime g_logTimeZone th i;
     let (tid, th) = current_tid th (env_tid env);
     b \<leftarrow> put_T (stream i) (t_tidString th) (t_tidStringLength th);
     b \<leftarrow> put_T b (LogLevelName level) 6;
     b \<leftarrow> (if savedErrno \<noteq> 0
          then put_items b [S_cstring (Some (env_strerror env)), S_cstring (Some '' (errno=''), S_int savedErrno, S_cstring (Some '') '')]
          else Some b);
     Some (th, i\<lparr>stream := b\<rparr>)
   }"

definition finish :: "log_impl \<Rightarrow> log_impl option" where
  "finish i = do {
     b \<leftarrow> put_items (stream i) [S_cstring (Some '' - '')];
     b \<leftarrow> put_items (put_SourceFile b (impl_basename i)) [S_char (CHR '':''), S_int (impl_line i), S_char (CHR 0x0A)];
     Some (i\<lparr>stream := b\<rparr>)
   }"

text \<open>The four constructors.\<close>

definition Logger_info :: "tz_data option \<Rightarrow> log_thread \<Rightarrow> log_env \<Rightarrow> string \<Rightarrow> int \<Rightarrow> (log_thread \<times> log_impl) option" where
  "Logger_info tz th env filename line = Impl_new tz th env INFO 0 filename line"

definition Logger_func :: "tz_data option \<Rightarrow> log_thread \<Rightarrow> log_env \<Rightarrow> string \<Rightarrow> int \<Rightarrow> LogLevel \<Rightarrow> string \<Rightarrow> (log_thread \<times> log_impl) option" where
  "Logger_func tz th env filename line level func = do {
     (th, i) \<leftarrow> Impl_new tz th env level 0 filename line;
     b \<leftarrow> put_items (stream i) [S_cstring (Some func), S_char (CHR '' '')];
     Some (th, i\<lparr>stream := b\<rparr>)
   }"

definition Logger_level :: "tz_data option \<Rightarrow> log_thread \<Rightarrow> log_env \<Rightarrow> string \<Rightarrow> int \<Rightarrow> LogLevel \<Rightarrow> (log_thread \<times> log_impl) option" where
  "Logger_level tz th env filename line level = Impl_new tz th env level 0 filename line"

definition Logger_errno :: "tz_data option \<Rightarrow> log_thread \<Rightarrow> log_env \<Rightarrow> string \<Rightarrow> int \<Rightarrow> bool \<Rightarrow> (log_thread \<times> log_impl) option" where
  "Logger_errno tz th env filename line toAbort =
     Impl_new tz th env (if toAbort then FATAL else ERROR) (env_errno env) filename line"

text \<open>The destructor: the text that is output, and whether the process is aborted.\<close>

definition Logger_dtor :: "log_impl \<Rightarrow> (string \<times> bool) option" where
  "Logger_dtor i = do {
     i \<leftarrow> finish i;
     Some (take (fb_length (stream i)) (fdata (stream i)), impl_level i = FATAL)
   }"

text \<open>The macros. The first three test the log level and pass the name of the function for the first two.\<close>

datatype log_macro = LOG_TRACE string | LOG_DEBUG string | LOG_INFO | LOG_WARN | LOG_ERROR | LOG_FATAL | LOG_SYSERR | LOG_SYSFATAL

fun log_enabled :: "LogLevel \<Rightarrow> log_macro \<Rightarrow> bool" where
  "log_enabled lvl (LOG_TRACE f) \<longleftrightarrow> level_num lvl \<le> level_num TRACE"
| "log_enabled lvl (LOG_DEBUG f) \<longleftrightarrow> level_num lvl \<le> level_num DEBUG"
| "log_enabled lvl LOG_INFO \<longleftrightarrow> level_num lvl \<le> level_num INFO"
| "log_enabled lvl m \<longleftrightarrow> True"

fun log_start :: "log_macro \<Rightarrow> tz_data option \<Rightarrow> log_thread \<Rightarrow> log_env \<Rightarrow> string \<Rightarrow> int \<Rightarrow> (log_thread \<times> log_impl) option" where
  "log_start (LOG_TRACE func) tz th env filename line = Logger_func tz th env filename line TRACE func"
| "log_start (LOG_DEBUG func) tz th env filename line = Logger_func tz th env filename line DEBUG func"
| "log_start LOG_INFO tz th env filename line = Logger_info tz th env filename line"
| "log_start LOG_WARN tz th env filename line = Logger_level tz th env filename line WARN"
| "log_start LOG_ERROR tz th env filename line = Logger_level tz th env filename line ERROR"
| "log_start LOG_FATAL tz th env filename line = Logger_level tz th env filename line FATAL"
| "log_start LOG_SYSERR tz th env filename line = Logger_errno tz th env filename line False"
| "log_start LOG_SYSFATAL tz th env filename line = Logger_errno tz th env filename line True"

record log_call =
  call_macro :: log_macro
  call_file :: string
  call_line :: int
  call_items :: "stream_item list"
  call_env :: log_env

text \<open>A statement \<open>MACRO << item << item ...\<close>, and a sequence of them in one thread up to an abort.\<close>

definition run_log :: "tz_data option \<Rightarrow> LogLevel \<Rightarrow> log_thread \<Rightarrow> log_call \<Rightarrow> (log_thread \<times> (string \<times> bool) option) option" where
  "run_log tz lvl th c =
     (if log_enabled lvl (call_macro c) then do {
        (th, i) \<leftarrow> log_start (call_macro c) tz th (call_env c) (SourceFile (call_file c)) (call_line c);
        b \<leftarrow> put_items (stream i) (call_items c);
        r \<leftarrow> Logger_dtor (i\<lparr>stream := b\<rparr>);
        Some (th, Some r)
      }
      else Some (th, None))"

fun run_logs :: "tz_data option \<Rightarrow> LogLevel \<Rightarrow> log_thread \<Rightarrow> log_call list \<Rightarrow> (string list \<times> bool) option" where
  "run_logs tz lvl th [] = Some ([], False)"
| "run_logs tz lvl th (c # cs) = do {
     (th, r) \<leftarrow> run_log tz lvl th c;
     case r of
       None \<Rightarrow> run_logs tz lvl th cs
     | Some (out, aborted) \<Rightarrow>
         if aborted then Some ([out], True)
         else do { (outs, a) \<leftarrow> run_logs tz lvl th cs; Some (out # outs, a) }
   }"

section \<open>The text of a statement\<close>

definition log_tm :: "tz_data option \<Rightarrow> int \<Rightarrow> tm option" where
  "log_tm tz s = (if TimeZone_valid tz then toLocalTime tz s else Some (gmtime_r s))"

definition env_seconds :: "log_env \<Rightarrow> int" where
  "env_seconds env = microSecondsSinceEpoch (now env) div kMicroSecondsPerSecond"

definition micro_text :: "tz_data option \<Rightarrow> log_env \<Rightarrow> string" where
  "micro_text tz env = ''.'' @ show_int0 6 (microSecondsSinceEpoch (now env) mod kMicroSecondsPerSecond)
     @ (if TimeZone_valid tz then '' '' else ''Z '')"

definition tid_text :: "int \<Rightarrow> string" where
  "tid_text tid = pad_left 5 (CHR '' '') (show_int tid) @ '' ''"

fun macro_level :: "log_macro \<Rightarrow> LogLevel" where
  "macro_level (LOG_TRACE f) = TRACE"
| "macro_level (LOG_DEBUG f) = DEBUG"
| "macro_level LOG_INFO = INFO"
| "macro_level LOG_WARN = WARN"
| "macro_level LOG_ERROR = ERROR"
| "macro_level LOG_FATAL = FATAL"
| "macro_level LOG_SYSERR = ERROR"
| "macro_level LOG_SYSFATAL = FATAL"

definition macro_errno :: "log_macro \<Rightarrow> log_env \<Rightarrow> int" where
  "macro_errno m env = (if m = LOG_SYSERR \<or> m = LOG_SYSFATAL then env_errno env else 0)"

fun macro_items :: "log_macro \<Rightarrow> stream_item list" where
  "macro_items (LOG_TRACE f) = [S_cstring (Some f), S_char (CHR '' '')]"
| "macro_items (LOG_DEBUG f) = [S_cstring (Some f), S_char (CHR '' '')]"
| "macro_items m = []"

definition errno_items :: "log_env \<Rightarrow> int \<Rightarrow> stream_item list" where
  "errno_items env e =
     (if e \<noteq> 0 then [S_cstring (Some (env_strerror env)), S_cstring (Some '' (errno=''), S_int e, S_cstring (Some '') '')] else [])"

definition head_items :: "tz_data option \<Rightarrow> tm \<Rightarrow> log_env \<Rightarrow> LogLevel \<Rightarrow> int \<Rightarrow> stream_item list" where
  "head_items tz tm env level e =
     [S_string (time_text tm), S_string (micro_text tz env), S_string (tid_text (env_tid env)), S_string (LogLevelName level)]
     @ errno_items env e"

definition tail_items :: "string \<Rightarrow> int \<Rightarrow> stream_item list" where
  "tail_items base line = [S_cstring (Some '' - ''), S_string base, S_char (CHR '':''), S_int line, S_char (CHR 0x0A)]"

definition line_items :: "tz_data option \<Rightarrow> log_call \<Rightarrow> stream_item list" where
  "line_items tz c =
     head_items tz (the (log_tm tz (env_seconds (call_env c)))) (call_env c) (macro_level (call_macro c)) (macro_errno (call_macro c) (call_env c))
     @ macro_items (call_macro c) @ call_items c @ tail_items (SourceFile (call_file c)) (call_line c)"

definition log_line :: "tz_data option \<Rightarrow> log_call \<Rightarrow> string" where
  "log_line tz c = foldl put_text [] (line_items tz c)"

text \<open>The statements that are printed, each formatted on its own, up to the first fatal one.\<close>

fun log_lines :: "tz_data option \<Rightarrow> LogLevel \<Rightarrow> log_call list \<Rightarrow> string list \<times> bool" where
  "log_lines tz lvl [] = ([], False)"
| "log_lines tz lvl (c # cs) =
     (if \<not> log_enabled lvl (call_macro c) then log_lines tz lvl cs
      else if macro_level (call_macro c) = FATAL then ([log_line tz c], True)
      else let (outs, a) = log_lines tz lvl cs in (log_line tz c # outs, a))"

section \<open>Lengths the assertions rely on\<close>

definition printable :: "tm \<Rightarrow> bool" where
  "printable t \<longleftrightarrow> 0 \<le> tm_year t + 1900 \<and> tm_year t + 1900 \<le> 9999 \<and> 0 \<le> tm_mon t \<and> tm_mon t \<le> 11
     \<and> 1 \<le> tm_mday t \<and> tm_mday t \<le> 31 \<and> 0 \<le> tm_hour t \<and> tm_hour t \<le> 23
     \<and> 0 \<le> tm_min t \<and> tm_min t \<le> 59 \<and> 0 \<le> tm_sec t \<and> tm_sec t \<le> 60"

lemma length_show_int_nonneg: "0 \<le> i \<Longrightarrow> i < 10 ^ Suc k \<Longrightarrow> length (show_int i) \<le> Suc k"
  using dec.length_print [of "nat i" k] by (simp add: show_int_def nat_less_iff)

lemma length_show_int0: "0 \<le> i \<Longrightarrow> i < 10 ^ Suc k \<Longrightarrow> length (show_int0 (Suc k) i) = Suc k"
  using dec.length_print [of "nat i" k] by (simp add: show_int0_def nat_less_iff)

lemma length_show_int0_2: "0 \<le> i \<Longrightarrow> i < 100 \<Longrightarrow> length (show_int0 2 i) = 2"
  using length_show_int0 [of i 1] by (simp add: numeral_2_eq_2)

lemma printable_length: "printable t \<Longrightarrow> length (time_text t) = 17"
  using length_show_int_nonneg [of "tm_year t + 1900" 3]
  by (simp add: time_text_def printable_def length_show_int0_2)

lemma length_micro_text:
  "length (''.'' @ show_int0 6 (us mod kMicroSecondsPerSecond) @ rest) = 7 + length rest"
proof -
  have "us mod kMicroSecondsPerSecond < 10 ^ Suc 5" "0 \<le> us mod kMicroSecondsPerSecond"
    using pos_mod_bound [of 1000000 us] by (simp_all add: kMicroSecondsPerSecond_def)
  from length_show_int0 [OF this(2,1)] show ?thesis by simp
qed

lemma length_tid_text: "0 < tid \<Longrightarrow> tid < 2 ^ 31 \<Longrightarrow> length (tid_text tid) \<le> 11"
  using length_show_int_nonneg [of tid 9] by (simp add: tid_text_def)

text \<open>Every time of a zone from 1970 to 9999 prints with 17 characters.\<close>

lemma year_9999:
  assumes "valid_date y m d" "getJulianDayNumber y m d < 5373485"
  shows "y \<le> 9999"
proof (rule ccontr)
  assume "\<not> y \<le> 9999"
  define M Y e where "M = (if m \<le> 2 then m + 9 else m - 3)" and "Y = (if m \<le> 2 then y + 4799 else y + 4800)"
    and "e = (153 * M + 2) div 5 + (d - 1)"
  have m: "1 \<le> m" "m \<le> 12" "1 \<le> d" using assms(1) by (simp_all add: valid_date_def)
  have "march_day Y e < 5405529"
    using julian_march [of m y d] m assms(2) \<open>\<not> y \<le> 9999\<close> by (simp add: M_def Y_def e_def)
  then have lt: "e + 365 * Y + Y div 4 - Y div 100 + Y div 400 < 5405529" by (simp add: march_day_def)
  show False
  proof (cases "Y = 14799")
    case True
    then have "m \<le> 2" using \<open>\<not> y \<le> 9999\<close> by (auto simp: Y_def split: if_splits)
    then have "10 \<le> M" using m by (simp add: M_def)
    then have "306 \<le> (153 * M + 2) div 5" by linarith
    then have "306 \<le> e" using m(3) by (simp add: e_def)
    then show False using lt True by simp
  next
    case False
    then have Y: "14800 \<le> Y" using \<open>\<not> y \<le> 9999\<close> by (auto simp: Y_def split: if_splits)
    have "0 \<le> M" using m by (simp add: M_def)
    then have "0 \<le> (153 * M + 2) div 5" by linarith
    then have "0 \<le> e" using m(3) by (simp add: e_def)
    moreover have "0 \<le> Y div 4 - Y div 100" using Y by linarith
    moreover have "37 \<le> Y div 400" using Y by linarith
    moreover have "3700 - Y div 100 + Y - 14800 \<le> Y div 4 - Y div 100 + Y - 14800" using Y by linarith
    ultimately show False using lt Y by linarith
  qed
qed

lemma year_nonneg:
  assumes "valid_date y m d" "-4800 \<le> y" "2440588 \<le> getJulianDayNumber y m d"
  shows "0 \<le> y"
proof (rule ccontr)
  assume "\<not> 0 \<le> y"
  have m: "1 \<le> m" "m \<le> 12" "1 \<le> d" using assms(1) by (simp_all add: valid_date_def)
  have d: "d \<le> 31" using assms(1) by (auto simp: valid_date_def month_length_def split: if_splits)
  show False
  proof (cases "y = -4800 \<and> m \<le> 2")
    case True
    then have "m = 1 \<or> m = 2" using m by auto
    then show False using True d assms(3) by (auto simp: getJulianDayNumber_def c_div_def)
  next
    case False
    define M Y where "M = (if m \<le> 2 then m + 9 else m - 3)" and "Y = (if m \<le> 2 then y + 4799 else y + 4800)"
    have "2472632 \<le> march_day Y ((153 * M + 2) div 5 + (d - 1))"
      using julian_march [of m y d] m assms(2,3) False by (auto simp: M_def Y_def)
    moreover have "M \<le> 11" "Y \<le> 4799" "0 \<le> Y" using m \<open>\<not> 0 \<le> y\<close> assms(2) False by (auto simp: M_def Y_def split: if_splits)
    ultimately show False using d unfolding march_day_def by linarith
  qed
qed

lemma printable_gmtime:
  assumes "0 \<le> s" "s < 253402300800"
  shows "printable (gmtime_r s)"
proof -
  define j where "j = s div 86400 + 2440588"
  let ?y = "getYearMonthDay j"
  have j: "2440588 \<le> j" "j < 5373485" using assms unfolding j_def by linarith+
  note v = julian_getYearMonthDay [of j]
  have y: "0 \<le> year ?y" "year ?y \<le> 9999"
    using year_nonneg [OF v(1,3)] year_9999 [OF v(1)] v(2) j by simp_all
  have "valid_date (year ?y) (month ?y) (day ?y)" using v(1) j(1) by simp
  then have md: "1 \<le> month ?y" "month ?y \<le> 12" "1 \<le> day ?y" "day ?y \<le> 31"
    unfolding valid_date_def month_length_def by (simp_all split: if_splits)
  define x where "x = s mod 86400"
  have x: "0 \<le> x" "x < 86400" by (simp_all add: x_def)
  have t: "0 \<le> x mod 60" "x mod 60 < 60" "0 \<le> x div 60 mod 60" "x div 60 mod 60 < 60"
    by (rule pos_mod_sign pos_mod_bound, simp)+
  have h: "0 \<le> x div 3600" "x div 3600 \<le> 23" using x by linarith+
  show ?thesis
    unfolding gmtime_r_def printable_def Let_def julian_1970 j_def [symmetric] x_def [symmetric] tm.simps
    using y md t h by (intro conjI) simp_all
qed

section \<open>The cache of the formatted second\<close>

definition cache_ok :: "tz_data option \<Rightarrow> int \<Rightarrow> log_thread \<Rightarrow> bool" where
  "cache_ok tz tid th \<longleftrightarrow>
     (t_lastSecond th \<noteq> 0 \<longrightarrow> (\<exists>tm. log_tm tz (t_lastSecond th) = Some tm \<and> t_time th = time_text tm))
     \<and> (t_cachedTid th \<noteq> 0 \<longrightarrow> t_cachedTid th = tid \<and> t_tidString th = tid_text tid \<and> t_tidStringLength th = length (tid_text tid))"

definition env_ok :: "tz_data option \<Rightarrow> int \<Rightarrow> log_env \<Rightarrow> bool" where
  "env_ok tz tid env \<longleftrightarrow> env_tid env = tid \<and> 0 < tid \<and> tid < 2 ^ 31 \<and> kMicroSecondsPerSecond \<le> microSecondsSinceEpoch (now env)
     \<and> length (env_garbage env) = kSmallBuffer \<and> - (2 ^ 31) \<le> env_errno env \<and> env_errno env < 2 ^ 31
     \<and> (case log_tm tz (env_seconds env) of Some tm \<Rightarrow> printable tm | None \<Rightarrow> False)"

lemma cache_ok_new: "cache_ok tz tid log_thread_new"
  by (simp add: cache_ok_def log_thread_new_def)

lemma put_items_append: "put_items b (xs @ ys) = put_items b xs \<bind> (\<lambda>b. put_items b ys)"
  by (induction xs arbitrary: b) (auto split: bind_split)

lemma put_items_strings: "put_items b (S_string s # xs) = put_items (fb_append b s) xs"
  by (simp add: put_string_def)

lemma formatTime_ok:
  assumes "cache_ok tz tid th" "env_ok tz tid env" "impl_time i = now env" "log_tm tz (env_seconds env) = Some tm"
  shows "\<exists>th'. formatTime tz th i = Some (th', i\<lparr>stream := fb_append (fb_append (stream i) (time_text tm)) (micro_text tz env)\<rparr>)
    \<and> cache_ok tz tid th'"
proof -
  let ?us = "microSecondsSinceEpoch (now env)"
  have us: "c_div ?us kMicroSecondsPerSecond = env_seconds env" "c_mod ?us kMicroSecondsPerSecond = ?us mod kMicroSecondsPerSecond"
    using assms(2) by (simp_all add: env_ok_def env_seconds_def kMicroSecondsPerSecond_def)
  have "1000000 \<le> ?us" using assms(2) by (simp add: env_ok_def kMicroSecondsPerSecond_def)
  then have "1 \<le> ?us div 1000000" by linarith
  then have nz: "env_seconds env \<noteq> 0" by (simp add: env_seconds_def kMicroSecondsPerSecond_def)
  have len: "length (time_text tm) = 17" using assms(2,4) printable_length by (simp add: env_ok_def)
  note lm = length_micro_text [of ?us]
  define th' where "th' = (if env_seconds env \<noteq> t_lastSecond th then th\<lparr>t_lastSecond := env_seconds env, t_time := time_text tm\<rparr> else th)"
  have t: "t_time th' = time_text tm" "cache_ok tz tid th'"
    using assms(1,4) nz by (auto simp: th'_def cache_ok_def)
  have "refresh_time tz th (env_seconds env) = Some th'"
    unfolding refresh_time_def log_tm_def [symmetric] assms(4) th'_def using len by (simp add: snprintf_def)
  then show ?thesis
    using t len lm [of "'' ''"] lm [of "''Z ''"]
    by (auto simp: formatTime_def assms(3) us Let_def Fmt_new_def put_T_def micro_text_def bind_ensure_True)
qed

lemma Impl_new_ok:
  assumes "cache_ok tz tid th" "env_ok tz tid env" "log_tm tz (env_seconds env) = Some tm"
  shows "\<exists>th'. cache_ok tz tid th' \<and> Impl_new tz th env level e filename line =
    put_items (FixedBuffer_new (env_garbage env)) (head_items tz tm env level e)
      \<bind> (\<lambda>b. Some (th', \<lparr>impl_time = now env, stream = b, impl_level = level, impl_line = line, impl_basename = filename\<rparr>))"
proof -
  let ?i = "\<lparr>impl_time = now env, stream = FixedBuffer_new (env_garbage env), impl_level = level, impl_line = line, impl_basename = filename\<rparr>"
  obtain th1 where f: "formatTime tz th ?i = Some (th1, ?i\<lparr>stream := fb_append (fb_append (FixedBuffer_new (env_garbage env)) (time_text tm)) (micro_text tz env)\<rparr>)"
    and c: "cache_ok tz tid th1"
    using formatTime_ok [OF assms(1,2) _ assms(3), of ?i] by auto
  have tid: "env_tid env = tid" "0 < tid" "length (tid_text tid) \<le> 11" "tid \<noteq> 0"
    using assms(2) length_tid_text [of tid] by (auto simp: env_ok_def)
  define th2 where "th2 = snd (current_tid th1 tid)"
  have th2: "cache_ok tz tid th2" "t_tidString th2 = tid_text tid" "t_tidStringLength th2 = length (tid_text tid)"
    using c tid by (auto simp: th2_def current_tid_def cacheTid_def cache_ok_def Let_def snprintf_def tid_text_def)
  have cur: "current_tid th1 tid = (t_cachedTid th2, th2)" by (simp add: th2_def current_tid_def Let_def)
  have len: "length (LogLevelName level) = 6" by (cases level) simp_all
  show ?thesis
    by (rule exI [of _ th2])
      (simp add: Impl_new_def Let_def f cur tid(1) th2 put_T_def len head_items_def errno_items_def put_string_def del: put_items.simps(2),
       simp add: put_string_def split: bind_split)
qed

section \<open>Whole statements\<close>

definition call_ok :: "tz_data option \<Rightarrow> int \<Rightarrow> log_call \<Rightarrow> bool" where
  "call_ok tz tid c \<longleftrightarrow> env_ok tz tid (call_env c) \<and> list_all item_ok (call_items c)
     \<and> - (2 ^ 31) \<le> call_line c \<and> call_line c < 2 ^ 31"

lemma finish_eq: "finish i = put_items (stream i) (tail_items (impl_basename i) (impl_line i)) \<bind> (\<lambda>b. Some (i\<lparr>stream := b\<rparr>))"
  by (simp add: finish_def tail_items_def put_SourceFile_def put_string_def split: bind_split)

lemma log_start_ok:
  assumes "cache_ok tz tid th" "env_ok tz tid env" "log_tm tz (env_seconds env) = Some tm"
  shows "\<exists>th'. cache_ok tz tid th' \<and> log_start m tz th env filename line =
    put_items (FixedBuffer_new (env_garbage env)) (head_items tz tm env (macro_level m) (macro_errno m env) @ macro_items m)
      \<bind> (\<lambda>b. Some (th', \<lparr>impl_time = now env, stream = b, impl_level = macro_level m, impl_line = line, impl_basename = filename\<rparr>))"
proof -
  obtain th' where c: "cache_ok tz tid th'" and e: "Impl_new tz th env (macro_level m) (macro_errno m env) filename line =
    put_items (FixedBuffer_new (env_garbage env)) (head_items tz tm env (macro_level m) (macro_errno m env))
      \<bind> (\<lambda>b. Some (th', \<lparr>impl_time = now env, stream = b, impl_level = macro_level m, impl_line = line, impl_basename = filename\<rparr>))"
    using Impl_new_ok [OF assms, of "macro_level m" "macro_errno m env" filename line] by blast
  show ?thesis
    using c e by (intro exI [of _ th'], cases m)
      (simp_all add: Logger_func_def Logger_info_def Logger_level_def Logger_errno_def macro_errno_def put_items_append del: put_items.simps(2))
qed

lemma line_items_ok:
  assumes "call_ok tz tid c" "x \<in> set (line_items tz c)"
  shows "item_ok x"
proof -
  have "item_ok x" if "x \<in> set (errno_items (call_env c) (macro_errno (call_macro c) (call_env c)))"
    using that assms(1) by (auto simp: call_ok_def env_ok_def errno_items_def macro_errno_def split: if_splits)
  moreover have "item_ok x" if "x \<in> set (macro_items (call_macro c))" using that by (cases "call_macro c") auto
  moreover have "item_ok x" if "x \<in> set (call_items c)" using that assms(1) by (simp add: call_ok_def list_all_iff)
  moreover have "item_ok x" if "x \<in> set (tail_items (SourceFile (call_file c)) (call_line c))"
    using that assms(1) by (auto simp: call_ok_def tail_items_def)
  ultimately show ?thesis using assms(2) by (auto simp: line_items_def head_items_def)
qed

lemma run_log_ok:
  assumes "cache_ok tz tid th" "call_ok tz tid c" "log_enabled lvl (call_macro c)"
  shows "\<exists>th'. cache_ok tz tid th' \<and> run_log tz lvl th c = Some (th', Some (log_line tz c, macro_level (call_macro c) = FATAL))"
proof -
  let ?e = "call_env c" let ?m = "call_macro c" let ?g = "FixedBuffer_new (env_garbage ?e)"
  have env: "env_ok tz tid ?e" using assms(2) by (simp add: call_ok_def)
  then obtain tm where tm: "log_tm tz (env_seconds ?e) = Some tm" by (auto simp: env_ok_def split: option.splits)
  obtain th' where c: "cache_ok tz tid th'" and e: "log_start ?m tz th ?e (SourceFile (call_file c)) (call_line c) =
    put_items ?g (head_items tz tm ?e (macro_level ?m) (macro_errno ?m ?e) @ macro_items ?m)
      \<bind> (\<lambda>b. Some (th', \<lparr>impl_time = now ?e, stream = b, impl_level = macro_level ?m, impl_line = call_line c, impl_basename = SourceFile (call_file c)\<rparr>))"
    using log_start_ok [OF assms(1) env tm] by blast
  have "fb_inv ?g" using env by (intro FixedBuffer_new_inv) (simp add: env_ok_def)
  then obtain b where b: "put_items ?g (line_items tz c) = Some b" "fb_toString b = log_line tz c"
    using put_items_ok [of ?g "line_items tz c"] line_items_ok [OF assms(2)]
    by (auto simp: log_line_def fb_toString_def FixedBuffer_new_def fb_length_def)
  then obtain b1 b2 where "put_items ?g (head_items tz tm ?e (macro_level ?m) (macro_errno ?m ?e) @ macro_items ?m) = Some b1"
    "put_items b1 (call_items c) = Some b2" "put_items b2 (tail_items (SourceFile (call_file c)) (call_line c)) = Some b"
    by (auto simp: line_items_def tm put_items_append bind_eq_Some_conv)
  then show ?thesis
    using c e b(2) assms(3) by (intro exI [of _ th']) (simp add: run_log_def Logger_dtor_def finish_eq fb_toString_def)
qed

lemma run_logs_ok:
  "cache_ok tz tid th \<Longrightarrow> (\<And>c. c \<in> set cs \<Longrightarrow> call_ok tz tid c) \<Longrightarrow> run_logs tz lvl th cs = Some (log_lines tz lvl cs)"
proof (induction cs arbitrary: th)
  case (Cons c cs)
  show ?case
  proof (cases "log_enabled lvl (call_macro c)")
    case True
    obtain th' where t: "cache_ok tz tid th'" and r: "run_log tz lvl th c = Some (th', Some (log_line tz c, macro_level (call_macro c) = FATAL))"
      using run_log_ok [OF Cons.prems(1) Cons.prems(2) True] by auto
    have "run_logs tz lvl th' cs = Some (log_lines tz lvl cs)" using Cons.IH [OF t] Cons.prems(2) by simp
    then show ?thesis using r True by (simp split: prod.splits)
  next
    case False
    moreover have "run_log tz lvl th c = Some (th, None)" using False by (simp add: run_log_def)
    ultimately show ?thesis using Cons by simp
  qed
qed simp


definition demo_call :: "int \<Rightarrow> log_macro \<Rightarrow> log_call" where
  "demo_call t m = \<lparr>call_macro = m, call_file = ''src/a.cc'', call_line = 7, call_items = [S_string ''hi''],
     call_env = \<lparr>now = Timestamp (t * 1000000), env_tid = 42, env_errno = 0, env_strerror = ''Success'',
       env_garbage = replicate kSmallBuffer (CHR ''z'')\<rparr>\<rparr>"

lemma demo_call_ok: "1 \<le> t \<Longrightarrow> t < 253402300800 \<Longrightarrow> call_ok None 42 (demo_call t m)"
  using printable_gmtime [of t]
  by (simp add: call_ok_def env_ok_def demo_call_def env_seconds_def kMicroSecondsPerSecond_def log_tm_def TimeZone_valid_def)


text \<open>
  The cache does not depend on the zone: after \<open>setTimeZone\<close> a statement in the same second still prints
  the time of the old zone.
\<close>

lemma stale_after_setTimeZone:
  assumes "t_lastSecond th = env_seconds env" "impl_time i = now env" "kMicroSecondsPerSecond \<le> microSecondsSinceEpoch (now env)"
    and "formatTime tz th i = Some (th', i')"
  shows "th' = th \<and> stream i' = fb_append (fb_append (stream i) (t_time th)) (micro_text tz env)"
  using assms
  by (auto simp: formatTime_def refresh_time_def Let_def env_seconds_def kMicroSecondsPerSecond_def Fmt_new_def put_T_def micro_text_def
      split: if_splits)

end
