(* ===== verification/Chat.thy ===== *)
theory Chat
  imports LengthHeaderCodec Threads Timestamp
begin

text \<open>
  The chat servers of \<open>src/excercises/chat\<close> in their four versions (\<open>server.cc\<close>, \<open>server_threaded.cc\<close>,
  \<open>server_threaded_efficient.cc\<close>, \<open>server_threaded_highperformance.cc\<close>), the client and the load test.

  A \<open>TcpConnectionPtr\<close> is the address of its connection, a \<open>std::set\<close> of them an ascending list. A server
  operation returns what it sends, as connections with the bytes given to \<open>TcpConnection::send\<close>.
  \<open>chat_room\<close> is the contract the versions share; inside the locale it is shown what every member hears.
\<close>

section \<open>Sending to a set of connections\<close>

text \<open>The loop over the connections: the codec sends the message to each.\<close>

fun send_each :: "nat list \<Rightarrow> bytes \<Rightarrow> (nat \<times> bytes) list option" where
  "send_each [] message = Some []"
| "send_each (c # cs) message = do {
     b \<leftarrow> LH_send message;
     out \<leftarrow> send_each cs message;
     Some ((c, content b) # out)
   }"

lemma send_each_ok: "send_each cs m = Some (map (\<lambda>c. (c, LH_encode m)) cs)"
proof (induction cs)
  case (Cons c cs)
  obtain b where "LH_send m = Some b" "content b = LH_encode m" using LH_send_content .
  with Cons show ?case by simp
qed simp

section \<open>One thread: \<open>server.cc\<close>\<close>

record chat_server =
  connections :: "nat list"

definition ChatServer_new :: chat_server where
  "ChatServer_new = \<lparr>connections = []\<rparr>"

definition onConnection :: "chat_server \<Rightarrow> nat \<Rightarrow> bool \<Rightarrow> chat_server option" where
  "onConnection s conn is_connected =
     Some (if is_connected then s\<lparr>connections := set_insert conn (connections s)\<rparr>
           else s\<lparr>connections := set_erase conn (connections s)\<rparr>)"

definition onStringMessage :: "chat_server \<Rightarrow> bytes \<Rightarrow> ((nat \<times> bytes) list \<times> chat_server) option" where
  "onStringMessage s message = do { out \<leftarrow> send_each (connections s) message; Some (out, s) }"

section \<open>A mutex around the set: \<open>server_threaded.cc\<close>\<close>

record threaded_server = chat_server +
  conn_mutex :: mutex

definition Threaded_new :: threaded_server where
  "Threaded_new = \<lparr>connections = [], conn_mutex = MutexLock_new\<rparr>"

text \<open>\<open>tid\<close> is the thread that runs the callback; \<^term>\<open>None\<close> is a thread that cannot take the lock.\<close>

definition threaded_onConnection :: "int \<Rightarrow> threaded_server \<Rightarrow> nat \<Rightarrow> bool \<Rightarrow> threaded_server option" where
  "threaded_onConnection tid s conn is_connected = do {
     mu \<leftarrow> lock (conn_mutex s) tid;
     let s = s\<lparr>conn_mutex := mu\<rparr>;
     let s = (if is_connected then s\<lparr>connections := set_insert conn (connections s)\<rparr>
              else s\<lparr>connections := set_erase conn (connections s)\<rparr>);
     Some (s\<lparr>conn_mutex := unlock (conn_mutex s)\<rparr>)
   }"

definition threaded_onStringMessage :: "int \<Rightarrow> threaded_server \<Rightarrow> bytes \<Rightarrow> ((nat \<times> bytes) list \<times> threaded_server) option" where
  "threaded_onStringMessage tid s message = do {
     mu \<leftarrow> lock (conn_mutex s) tid;
     out \<leftarrow> send_each (connections s) message;
     Some (out, s\<lparr>conn_mutex := unlock mu\<rparr>)
   }"

section \<open>Copy on write: \<open>server_threaded_efficient.cc\<close>\<close>

text \<open>
  \<open>lists\<close> are the connection lists on the heap with the number of \<open>shared_ptr\<close>s to each; \<open>current\<close> is what
  \<open>connections_\<close> points to. A message handler holds a copy of the pointer while it sends.
\<close>

record cow_server =
  lists :: "nat \<rightharpoonup> nat list \<times> nat"
  current :: nat

definition Cow_new :: "nat \<Rightarrow> cow_server" where
  "Cow_new p = \<lparr>lists = [p \<mapsto> ([], 1)], current = p\<rparr>"

definition cow_unique :: "cow_server \<Rightarrow> bool" where
  "cow_unique s \<longleftrightarrow> (case lists s (current s) of Some (xs, n) \<Rightarrow> n = 1 | None \<Rightarrow> False)"

definition getConnectionList :: "cow_server \<Rightarrow> (nat \<times> cow_server) option" where
  "getConnectionList s = do {
     (xs, n) \<leftarrow> lists s (current s);
     Some (current s, s\<lparr>lists := (lists s)(current s \<mapsto> (xs, n + 1))\<rparr>)
   }"

text \<open>The destructor of a \<open>shared_ptr\<close>.\<close>

definition release_list :: "cow_server \<Rightarrow> nat \<Rightarrow> cow_server option" where
  "release_list s p = do {
     (xs, n) \<leftarrow> lists s p;
     Some (s\<lparr>lists := (lists s)(p := if n = 1 then None else Some (xs, n - 1))\<rparr>)
   }"

text \<open>\<open>fresh\<close> is the address of the new list. The condition is the one of the source.\<close>

definition cow_onConnection :: "nat \<Rightarrow> cow_server \<Rightarrow> nat \<Rightarrow> bool \<Rightarrow> cow_server option" where
  "cow_onConnection fresh s conn is_connected = do {
     s \<leftarrow> (if cow_unique s then do {
             (xs, n) \<leftarrow> lists s (current s);
             let old = current s;
             release_list (s\<lparr>lists := (lists s)(fresh \<mapsto> (xs, 1)), current := fresh\<rparr>) old
           } else Some s);
     ensure (cow_unique s);
     (xs, n) \<leftarrow> lists s (current s);
     let xs' = (if is_connected then set_insert conn xs else set_erase conn xs);
     Some (s\<lparr>lists := (lists s)(current s \<mapsto> (xs', n))\<rparr>)
   }"

definition cow_onStringMessage :: "cow_server \<Rightarrow> bytes \<Rightarrow> ((nat \<times> bytes) list \<times> cow_server) option" where
  "cow_onStringMessage s message = do {
     (p, s) \<leftarrow> getConnectionList s;
     (xs, n) \<leftarrow> lists s p;
     out \<leftarrow> send_each xs message;
     s \<leftarrow> release_list s p;
     Some (out, s)
   }"

section \<open>One list per loop: \<open>server_threaded_highperformance.cc\<close>\<close>

text \<open>
  \<open>hloops\<close> is the set \<open>loops_\<close>, \<open>instances\<close> the thread-local lists (\<open>ThreadLocalSingleton\<close>) by loop, \<open>queued\<close>
  the functors \<open>distributeMessage\<close> pending in each loop.
\<close>

record hp_server =
  hloops :: "nat list"
  instances :: "nat \<rightharpoonup> nat list"
  queued :: "nat \<Rightarrow> bytes list"

definition Hp_new :: hp_server where
  "Hp_new = \<lparr>hloops = [], instances = Map.empty, queued = (\<lambda>l. [])\<rparr>"

text \<open>\<open>instance()\<close> creates the list of the thread on first use.\<close>

definition tls_instance :: "hp_server \<Rightarrow> nat \<Rightarrow> nat list \<times> hp_server" where
  "tls_instance s l =
     (case instances s l of Some xs \<Rightarrow> (xs, s) | None \<Rightarrow> ([], s\<lparr>instances := (instances s)(l \<mapsto> [])\<rparr>))"

definition hp_threadInit :: "hp_server \<Rightarrow> nat \<Rightarrow> hp_server option" where
  "hp_threadInit s loop = do {
     ensure (instances s loop = None);
     let s = snd (tls_instance s loop);
     ensure (instances s loop \<noteq> None);
     Some (s\<lparr>hloops := set_insert loop (hloops s)\<rparr>)
   }"

definition hp_onConnection :: "hp_server \<Rightarrow> nat \<Rightarrow> nat \<Rightarrow> bool \<Rightarrow> hp_server" where
  "hp_onConnection s loop conn is_connected =
     (let (xs, s) = tls_instance s loop
      in s\<lparr>instances := (instances s)(loop \<mapsto> if is_connected then set_insert conn xs else set_erase conn xs)\<rparr>)"

definition hp_onStringMessage :: "hp_server \<Rightarrow> bytes \<Rightarrow> hp_server" where
  "hp_onStringMessage s message =
     foldl (\<lambda>s l. s\<lparr>queued := (queued s)(l := queued s l @ [message])\<rparr>) s (hloops s)"

definition distributeMessage :: "hp_server \<Rightarrow> nat \<Rightarrow> bytes \<Rightarrow> ((nat \<times> bytes) list \<times> hp_server) option" where
  "distributeMessage s loop message = do {
     let (xs, s) = tls_instance s loop;
     out \<leftarrow> send_each xs message;
     Some (out, s)
   }"

section \<open>Client and load test\<close>

record chat_client =
  client_conn :: "nat option"

definition client_onConnection :: "chat_client \<Rightarrow> nat \<Rightarrow> bool \<Rightarrow> chat_client" where
  "client_onConnection t conn is_connected = (if is_connected then t\<lparr>client_conn := Some conn\<rparr> else t\<lparr>client_conn := None\<rparr>)"

definition client_write :: "chat_client \<Rightarrow> bytes \<Rightarrow> (nat \<times> bytes) list option" where
  "client_write t message = (case client_conn t of Some c \<Rightarrow> send_each [c] message | None \<Rightarrow> Some [])"

definition client_onStringMessage :: "bytes \<Rightarrow> string" where
  "client_onStringMessage message = ''<<< '' @ takeWhile (\<lambda>c. c \<noteq> CHR 0x00) message @ [CHR 0x0A]"

text \<open>
  The load test counts with atomic integers. \<open>alive\<close> and \<open>received\<close> are the counters; the operations also tell
  whether the callback schedules \<open>send\<close> respectively queues the statistic.
\<close>

record loadtest =
  g_connections :: int
  g_aliveConnections :: "32 atomic"
  g_messagesReceived :: "32 atomic"
  lt_connections :: "nat \<rightharpoonup> nat"

definition lt_onConnection :: "loadtest \<Rightarrow> nat \<Rightarrow> nat \<Rightarrow> bool \<Rightarrow> bool \<times> loadtest" where
  "lt_onConnection g client conn is_connected =
     (if is_connected then
        let g = g\<lparr>lt_connections := (lt_connections g)(client \<mapsto> conn)\<rparr>;
            (n, a) = incrementAndGet (g_aliveConnections g)
        in (sint n = g_connections g, g\<lparr>g_aliveConnections := a\<rparr>)
      else (False, g\<lparr>lt_connections := (lt_connections g)(client := None)\<rparr>))"

definition lt_onStringMessage :: "loadtest \<Rightarrow> bool \<times> loadtest" where
  "lt_onStringMessage g =
     (let (received, a) = incrementAndGet (g_messagesReceived g)
      in (sint received = g_connections g, g\<lparr>g_messagesReceived := a\<rparr>))"

text \<open>\<open>send\<close> dereferences the connection.\<close>

definition lt_send :: "loadtest \<Rightarrow> nat \<Rightarrow> (nat \<times> bytes) list option" where
  "lt_send g client = do { c \<leftarrow> lt_connections g client; send_each [c] ''hello'' }"

text \<open>The rows \<open>statistic\<close> prints: percentage and seconds. Without clients \<open>seconds.back()\<close> is undefined.\<close>

function stat_rows :: "rat list \<Rightarrow> nat \<Rightarrow> (nat \<times> rat) list" where
  "stat_rows seconds i =
     (if i < length seconds
      then (i * 100 div length seconds, seconds ! i) # stat_rows seconds (i + max 1 (length seconds div 20))
      else [])"
  by pat_completeness auto
termination
  by (relation "measure (\<lambda>(seconds, i). length seconds - i)") auto

declare stat_rows.simps [simp del]

definition statistic :: "Timestamp list \<Rightarrow> Timestamp \<Rightarrow> (nat \<times> rat) list option" where
  "statistic receiveTimes g_startTime = do {
     let seconds = sort (map (\<lambda>t. timeDifference t g_startTime) receiveTimes);
     let n = length receiveTimes;
     ensure (seconds \<noteq> []);
     Some (stat_rows seconds 0 @ (if n \<ge> 100 then [(99, seconds ! (n - n div 100))] else []) @ [(100, last seconds)])
   }"

section \<open>What the members of a chat room hear\<close>

datatype chat_event = Up nat | Down nat | Data nat bytes

fun say_all :: "('s \<Rightarrow> bytes \<Rightarrow> ((nat \<times> bytes) list \<times> 's) option) \<Rightarrow> 's \<Rightarrow> bytes list \<Rightarrow> ((nat \<times> bytes) list \<times> 's) option" where
  "say_all say s [] = Some ([], s)"
| "say_all say s (m # ms) = do { (o1, s) \<leftarrow> say s m; (o2, s) \<leftarrow> say_all say s ms; Some (o1 @ o2, s) }"

text \<open>
  The server as its callbacks compose it: a new connection has an empty input buffer, bytes that arrive go
  through the codec, and every message it recognises is given to \<open>onStringMessage\<close>.
\<close>

fun serve :: "('s \<Rightarrow> nat \<Rightarrow> bool \<Rightarrow> 's option) \<Rightarrow> ('s \<Rightarrow> bytes \<Rightarrow> ((nat \<times> bytes) list \<times> 's) option)
    \<Rightarrow> 's \<Rightarrow> (nat \<Rightarrow> buffer) \<Rightarrow> chat_event list \<Rightarrow> ((nat \<times> bytes) list \<times> 's) option" where
  "serve on_conn say s bufs [] = Some ([], s)"
| "serve on_conn say s bufs (Up c # es) = do { s \<leftarrow> on_conn s c True; serve on_conn say s (bufs(c := Buffer_new)) es }"
| "serve on_conn say s bufs (Down c # es) = do { s \<leftarrow> on_conn s c False; serve on_conn say s bufs es }"
| "serve on_conn say s bufs (Data c piece # es) = do {
     (n, err, b1) \<leftarrow> readFd (bufs c) (Inr piece);
     (ms, e, b2) \<leftarrow> LH_onMessage b1;
     (o1, s) \<leftarrow> say_all say s ms;
     (o2, s) \<leftarrow> serve on_conn say s (bufs(c := b2)) es;
     Some (o1 @ o2, s)
   }"

definition out_to :: "nat \<Rightarrow> (nat \<times> bytes) list \<Rightarrow> bytes list" where
  "out_to d out = map snd (filter (\<lambda>x. fst x = d) out)"

text \<open>What a connection should be sent: the messages completed by each arrival while it is a member.\<close>

fun heard :: "nat set \<Rightarrow> (nat \<Rightarrow> bytes) \<Rightarrow> chat_event list \<Rightarrow> nat \<Rightarrow> bytes list" where
  "heard C rest [] d = []"
| "heard C rest (Up c # es) d = heard (insert c C) (rest(c := [])) es d"
| "heard C rest (Down c # es) d = heard (C - {c}) rest es d"
| "heard C rest (Data c piece # es) d =
     (case decode LH_frame (rest c @ piece) of
        (ms, r, e) \<Rightarrow> (if d \<in> C then ms else []) @ heard C (rest(c := r)) es d)"

lemma out_to_simps [simp]: "out_to d [] = []" "out_to d (xs @ ys) = out_to d xs @ out_to d ys"
  by (simp_all add: out_to_def)

lemma out_to_all: "distinct cs \<Longrightarrow> out_to d (map (\<lambda>c. (c, x)) cs) = (if d \<in> set cs then [x] else [])"
  by (induction cs) (auto simp: out_to_def)

lemma LH_decode_short: "decode LH_frame xs = (ms, r, e) \<Longrightarrow> m \<in> set ms \<Longrightarrow> length m \<le> 65536"
proof (induction "length xs" arbitrary: xs ms rule: less_induct)
  case less
  show ?case
  proof (cases xs rule: lhf.decode_cases)
    case (Frame m' n)
    obtain ms1 where d: "decode LH_frame (drop n xs) = (ms1, r, e)" "ms = m' # ms1"
      using less.prems(1) unfolding lhf.decode_Frame [OF Frame(1)] by (auto split: prod.splits)
    have "length m' \<le> 65536" using Frame(1) by (auto simp: LH_frame_def Let_def split: if_splits)
    then show ?thesis using less.hyps [OF _ d(1)] less.prems(2) d(2) Frame by auto
  qed (use less.prems in auto)
qed

lemma heard_short: "m \<in> set (heard C rest es d) \<Longrightarrow> length m \<le> 65536"
proof (induction es arbitrary: C rest)
  case (Cons ev es)
  show ?case
  proof (cases ev)
    case (Data c piece)
    obtain ms r e where d: "decode LH_frame (rest c @ piece) = (ms, r, e)" by (metis prod_cases3)
    then have "m \<in> set ms \<or> m \<in> set (heard C (rest(c := r)) es d)" using Cons.prems Data by (auto split: if_splits)
    then show ?thesis using Cons.IH LH_decode_short [OF d] by blast
  qed (use Cons in auto)
qed simp

locale chat_room =
  fixes okay :: "'s \<Rightarrow> bool" and members :: "'s \<Rightarrow> nat list"
    and on_conn :: "'s \<Rightarrow> nat \<Rightarrow> bool \<Rightarrow> 's option" and say :: "'s \<Rightarrow> bytes \<Rightarrow> ((nat \<times> bytes) list \<times> 's) option"
  assumes room_distinct: "okay s \<Longrightarrow> distinct (members s)"
    and room_conn: "okay s \<Longrightarrow> \<exists>s'. on_conn s c up = Some s' \<and> okay s'
      \<and> set (members s') = (if up then insert c (set (members s)) else set (members s) - {c})"
    and room_say: "okay s \<Longrightarrow> \<exists>s'. say s m = Some (map (\<lambda>c. (c, LH_encode m)) (members s), s') \<and> okay s' \<and> members s' = members s"
begin

lemma say_all_ok:
  "okay s \<Longrightarrow> \<exists>out s'. say_all say s ms = Some (out, s') \<and> okay s' \<and> members s' = members s
    \<and> (\<forall>d. out_to d out = (if d \<in> set (members s) then map LH_encode ms else []))"
proof (induction ms arbitrary: s)
  case (Cons m ms)
  obtain s1 where s1: "say s m = Some (map (\<lambda>c. (c, LH_encode m)) (members s), s1)" "okay s1" "members s1 = members s"
    using room_say [OF Cons.prems] by blast
  obtain out s2 where "say_all say s1 ms = Some (out, s2)" "okay s2" "members s2 = members s1"
    "\<forall>d. out_to d out = (if d \<in> set (members s1) then map LH_encode ms else [])"
    using Cons.IH [OF s1(2)] by blast
  then show ?case using s1 out_to_all [OF room_distinct [OF Cons.prems]] by simp
qed simp

lemma serve_heard:
  assumes "okay s" "set (members s) = C" "\<And>c. buf_inv (bufs c)" "\<And>c. content (bufs c) = rest c"
  shows "\<exists>out s'. serve on_conn say s bufs es = Some (out, s') \<and> okay s' \<and> (\<forall>d. out_to d out = map LH_encode (heard C rest es d))"
  using assms
proof (induction C rest es "0 :: nat" arbitrary: s bufs rule: heard.induct)
  case (2 C rest c es)
  obtain s1 where s1: "on_conn s c True = Some s1" "okay s1" "set (members s1) = insert c (set (members s))"
    using room_conn [OF 2(2), of c True] by auto
  have "\<exists>out s'. serve on_conn say s1 (bufs(c := Buffer_new)) es = Some (out, s') \<and> okay s'
      \<and> (\<forall>d. out_to d out = map LH_encode (heard (insert c C) (rest(c := [])) es d))"
    by (rule 2(1)) (use s1 2(3-5) in auto)
  then show ?case using s1(1) by simp
next
  case (3 C rest c es)
  obtain s1 where s1: "on_conn s c False = Some s1" "okay s1" "set (members s1) = set (members s) - {c}"
    using room_conn [OF 3(2), of c False] by auto
  have "\<exists>out s'. serve on_conn say s1 bufs es = Some (out, s') \<and> okay s' \<and> (\<forall>d. out_to d out = map LH_encode (heard (C - {c}) rest es d))"
    by (rule 3(1)) (use s1 3(3-5) in auto)
  then show ?case using s1(1) by simp
next
  case (4 C rest c piece es)
  obtain ms r e where d: "decode LH_frame (rest c @ piece) = (ms, r, e)" by (metis prod_cases3)
  obtain b1 where b1: "readFd (bufs c) (Inr piece) = Some (int (length piece), None, b1)" "buf_inv b1" "content b1 = content (bufs c) @ piece"
    using readFd_ok [OF 4(4)] .
  obtain b2 where b2: "LH_onMessage b1 = Some (ms, e, b2)" "buf_inv b2" "content b2 = r"
    using LH_onMessage_refines [OF b1(2)] d b1(3) 4(5) by fastforce
  obtain o1 s1 where s1: "say_all say s ms = Some (o1, s1)" "okay s1" "members s1 = members s"
    "\<forall>d. out_to d o1 = (if d \<in> set (members s) then map LH_encode ms else [])"
    using say_all_ok [OF 4(2)] by blast
  have "\<exists>out s'. serve on_conn say s1 (bufs(c := b2)) es = Some (out, s') \<and> okay s'
      \<and> (\<forall>d. out_to d out = map LH_encode (heard C (rest(c := r)) es d))"
    by (rule 4(1) [OF d [symmetric] refl]) (use s1 b2 4(3-5) in auto)
  then show ?case using b1(1) b2(1) s1 d 4(3) by auto
qed (simp add: assms)

text \<open>Whoever reads what a connection was sent, in whatever pieces, gets exactly the messages it should hear.\<close>

lemma members_hear:
  assumes "okay s" "members s = []"
  shows "\<exists>out s'. serve on_conn say s (\<lambda>c. Buffer_new) es = Some (out, s') \<and> okay s' \<and>
    (\<forall>d pieces. concat pieces = concat (out_to d out) \<longrightarrow>
       (\<exists>b. session LH_onMessage Buffer_new pieces = Some (heard {} (\<lambda>c. []) es d, b) \<and> content b = []))"
proof -
  obtain out s' where o: "serve on_conn say s (\<lambda>c. Buffer_new) es = Some (out, s')" "okay s'"
    "\<forall>d. out_to d out = map LH_encode (heard {} (\<lambda>c. []) es d)"
    using serve_heard [OF assms(1), of "{}" "\<lambda>c. Buffer_new" "\<lambda>c. []" es] assms(2) by auto
  have "\<exists>b. session LH_onMessage Buffer_new pieces = Some (heard {} (\<lambda>c. []) es d, b) \<and> content b = []"
    if "concat pieces = concat (out_to d out)" for d pieces
  proof -
    have "concat pieces = concat (map LH_encode (heard {} (\<lambda>c. []) es d))" using o(3) that by simp
    then have "\<exists>b. session LH_onMessage Buffer_new pieces = Some (heard {} (\<lambda>c. []) es d, b) \<and> buf_inv b \<and> content b = []"
      by (intro lh.session_roundtrip) (simp_all add: LH_frame_encode heard_short LH_frame_def [of "[]"])
    then show ?thesis by blast
  qed
  with o(1,2) show ?thesis by blast
qed

end

interpretation single: chat_room "\<lambda>s. std_set (connections s)" connections onConnection onStringMessage
proof unfold_locales
  fix s :: chat_server and c up
  assume "std_set (connections s)"
  then show "\<exists>s'. onConnection s c up = Some s' \<and> std_set (connections s')
      \<and> set (connections s') = (if up then insert c (set (connections s)) else set (connections s) - {c})"
    by (simp add: onConnection_def set_insert_ok set_erase_ok)
qed (auto simp: onStringMessage_def send_each_ok std_set_def)

definition threaded_ok :: "threaded_server \<Rightarrow> bool" where
  "threaded_ok s \<longleftrightarrow> std_set (connections s) \<and> owner (conn_mutex s) = None"

interpretation threaded: chat_room threaded_ok connections "threaded_onConnection tid" "threaded_onStringMessage tid" for tid
proof unfold_locales
  fix s :: threaded_server and c up
  assume "threaded_ok s"
  then show "\<exists>s'. threaded_onConnection tid s c up = Some s' \<and> threaded_ok s'
      \<and> set (connections s') = (if up then insert c (set (connections s)) else set (connections s) - {c})"
    by (simp add: threaded_ok_def threaded_onConnection_def Let_def mutex_defs set_insert_ok set_erase_ok)
qed (auto simp: threaded_onStringMessage_def send_each_ok threaded_ok_def std_set_def mutex_defs)

text \<open>The copy-on-write version keeps the contract as long as nothing else runs during a handler.\<close>

definition cow_quiet :: "cow_server \<Rightarrow> bool" where
  "cow_quiet s \<longleftrightarrow> (\<exists>xs. lists s = [current s \<mapsto> (xs, 1)] \<and> std_set xs)"

definition cow_members :: "cow_server \<Rightarrow> nat list" where
  "cow_members s = (case lists s (current s) of Some (xs, n) \<Rightarrow> xs | None \<Rightarrow> [])"

lemma cow_onConnection_unique:
  assumes "lists s = [current s \<mapsto> (xs, 1)]" "fresh \<noteq> current s"
  shows "cow_onConnection fresh s c up =
    Some (s\<lparr>lists := [fresh \<mapsto> (if up then set_insert c xs else set_erase c xs, 1)], current := fresh\<rparr>)"
  using assms by (auto simp: cow_onConnection_def cow_unique_def release_list_def Let_def fun_eq_iff)

lemma cow_quietI: "lists s = [current s \<mapsto> (xs, 1)] \<Longrightarrow> std_set xs \<Longrightarrow> cow_quiet s"
  by (auto simp: cow_quiet_def)

interpretation cow: chat_room cow_quiet cow_members "\<lambda>s. cow_onConnection (current s + 1) s" cow_onStringMessage
proof unfold_locales
  fix s c up
  assume "cow_quiet s"
  then obtain xs where s: "lists s = [current s \<mapsto> (xs, 1)]" "std_set xs" by (auto simp: cow_quiet_def)
  let ?ys = "if up then set_insert c xs else set_erase c xs"
  let ?s = "s\<lparr>lists := [current s + 1 \<mapsto> (?ys, 1)], current := current s + 1\<rparr>"
  have "std_set ?ys" "set ?ys = (if up then insert c (set xs) else set xs - {c})"
    using s(2) by (simp_all add: set_insert_ok set_erase_ok)
  moreover have "cow_quiet ?s" by (rule cow_quietI [of _ ?ys]) (use calculation(1) in simp_all)
  ultimately show "\<exists>s'. cow_onConnection (current s + 1) s c up = Some s' \<and> cow_quiet s'
      \<and> set (cow_members s') = (if up then insert c (set (cow_members s)) else set (cow_members s) - {c})"
    using cow_onConnection_unique [OF s(1), of "current s + 1" c up] s(1) by (auto simp: cow_members_def)
next
  fix s m
  assume "cow_quiet s"
  then obtain xs where s: "lists s = [current s \<mapsto> (xs, 1)]" "std_set xs" by (auto simp: cow_quiet_def)
  have "cow_quiet (s\<lparr>lists := [current s \<mapsto> (xs, 1)]\<rparr>)" by (rule cow_quietI [OF _ s(2)]) simp
  then show "\<exists>s'. cow_onStringMessage s m = Some (map (\<lambda>c. (c, LH_encode m)) (cow_members s), s') \<and> cow_quiet s' \<and> cow_members s' = cow_members s"
    using s(1) by (simp add: cow_onStringMessage_def getConnectionList_def release_list_def send_each_ok cow_members_def)
qed (auto simp: cow_quiet_def cow_members_def std_set_def)

text \<open>
  With several threads the message handlers overlap with changes of the membership. A handler that is sending
  is recorded with the pointer it holds and the list as it was when it took the pointer.
\<close>

type_synonym cow_state = "cow_server \<times> (nat \<times> nat list) list"

inductive cow_step :: "cow_state \<Rightarrow> cow_state \<Rightarrow> bool" where
  begin_send: "getConnectionList s = Some (p, s') \<Longrightarrow> lists s p = Some (xs, n) \<Longrightarrow> cow_step (s, rs) (s', (p, xs) # rs)"
| end_send: "(p, xs) \<in> set rs \<Longrightarrow> release_list s p = Some s' \<Longrightarrow> cow_step (s, rs) (s', remove1 (p, xs) rs)"
| change: "fresh \<notin> dom (lists s) \<Longrightarrow> cow_onConnection fresh s c up = Some s' \<Longrightarrow> cow_step (s, rs) (s', rs)"

inductive cow_reach :: "cow_state \<Rightarrow> bool" where
  "cow_reach (Cow_new p, [])"
| "cow_reach x \<Longrightarrow> cow_step x y \<Longrightarrow> cow_reach y"

definition cow_inv :: "cow_state \<Rightarrow> bool" where
  "cow_inv x \<longleftrightarrow> (case x of (s, rs) \<Rightarrow>
     \<exists>xs. lists s = [current s \<mapsto> (xs, 1 + length rs)] \<and> std_set xs \<and> (\<forall>r\<in>set rs. r = (current s, xs)))"

lemma cow_onConnection_shared:
  assumes "lists s = [current s \<mapsto> (xs, 1 + length rs)]" "rs \<noteq> []"
  shows "cow_onConnection fresh s c up = None"
  using assms by (simp add: cow_onConnection_def cow_unique_def)

lemma cow_step_inv: "cow_step x y \<Longrightarrow> cow_inv x \<Longrightarrow> cow_inv y"
proof (induction rule: cow_step.induct)
  case (begin_send s p s' xs n rs)
  then obtain ys where s: "lists s = [current s \<mapsto> (ys, 1 + length rs)]" "std_set ys" "\<forall>r\<in>set rs. r = (current s, ys)"
    by (auto simp: cow_inv_def)
  have "p = current s" "xs = ys" "s' = s\<lparr>lists := [current s \<mapsto> (ys, 1 + length ((p, xs) # rs))]\<rparr>"
    using begin_send s(1) by (auto simp: getConnectionList_def)
  then show ?case using s(2,3) by (simp add: cow_inv_def)
next
  case (end_send p xs rs s s')
  then obtain ys where s: "lists s = [current s \<mapsto> (ys, 1 + length rs)]" "std_set ys" "\<forall>r\<in>set rs. r = (current s, ys)"
    by (auto simp: cow_inv_def)
  then have p: "p = current s" "xs = ys" using end_send(1) by auto
  have "length rs = Suc (length (remove1 (p, xs) rs))" using end_send(1) length_pos_if_in_set [OF end_send(1)] by (simp add: length_remove1)
  then have "lists s' = [current s' \<mapsto> (ys, 1 + length (remove1 (p, xs) rs))]" "current s' = current s"
    using end_send(2) s(1) p by (auto simp: release_list_def)
  then show ?case using s p set_remove1_subset [of "(p, xs)" rs] by (auto simp: cow_inv_def)
next
  case (change fresh s c up s' rs)
  then obtain ys where s: "lists s = [current s \<mapsto> (ys, 1 + length rs)]" "std_set ys" "\<forall>r\<in>set rs. r = (current s, ys)"
    by (auto simp: cow_inv_def)
  have "rs = []" using cow_onConnection_shared [OF s(1), of fresh c up] change(2) by auto
  moreover have "fresh \<noteq> current s" using change(1) s(1) by auto
  ultimately show ?case
    using s(1,2) change(2) cow_onConnection_unique [of s ys fresh c up] by (auto simp: cow_inv_def set_insert_ok set_erase_ok)
qed

lemma cow_reach_inv: "cow_reach x \<Longrightarrow> cow_inv x"
proof (induction rule: cow_reach.induct)
  case (1 p)
  then show ?case by (auto simp: cow_inv_def Cow_new_def std_set_def)
next
  case (2 x y)
  then show ?case using cow_step_inv by blast
qed

section \<open>Properties\<close>


definition demo_events :: "chat_event list" where
  "demo_events = [Up 1, Up 2, Data 1 (take 3 (LH_encode ''hi'')), Up 3, Data 1 (drop 3 (LH_encode ''hi'')), Down 2, Data 3 (LH_encode ''yo'')]"

lemma demo_heard: "heard {} (\<lambda>c. []) demo_events 2 = [''hi''] \<and> heard {} (\<lambda>c. []) demo_events 3 = [''hi'', ''yo'']"
proof -
  have p: "decode LH_frame (take 3 (LH_encode ''hi'')) = ([], take 3 (LH_encode ''hi''), None)"
    by (simp add: LH_frame_def LH_encode_def)
  have f: "decode LH_frame (LH_encode m) = ([m], [], None)" if "length m \<le> 65536" for m
    using lhf.decode_frames [of "[m]" LH_encode "[]"] that by (simp add: LH_frame_encode LH_frame_def [of "[]"])
  show ?thesis by (simp add: demo_events_def p f)
qed


text \<open>
  C33: In the copy-on-write server, under every interleaving of message handlers and changes of the
  membership, a handler sends to the membership as it was when it began. But a connection that comes or goes
  while any handler is sending fails the assertion of \<open>onConnection\<close>; without one it never does.
\<close>

theorem cow_snapshot_or_abort:
  assumes "cow_reach (s, rs)" "fresh \<notin> dom (lists s)"
  shows "(\<forall>(p, xs)\<in>set rs. lists s p = Some (xs, 1 + length rs)) \<and> (cow_onConnection fresh s c up = None \<longleftrightarrow> rs \<noteq> [])"
proof -
  obtain ys where s: "lists s = [current s \<mapsto> (ys, 1 + length rs)]" "\<forall>r\<in>set rs. r = (current s, ys)"
    using cow_reach_inv [OF assms(1)] by (auto simp: cow_inv_def)
  have "fresh \<noteq> current s" using assms(2) s(1) by auto
  then show ?thesis
    using s cow_onConnection_shared [OF s(1)] cow_onConnection_unique [of s ys fresh c up] by auto
qed

lemma demo_cow_reach: "\<exists>s. cow_reach (s, [(0, [])]) \<and> lists s = [0 \<mapsto> ([], 2)]"
proof -
  have "cow_step (Cow_new 0, []) (\<lparr>lists = [0 \<mapsto> ([], 2)], current = 0\<rparr>, [(0, [])])"
    by (rule begin_send [of _ 0 _ "[]" 1]) (simp_all add: getConnectionList_def Cow_new_def eval_nat_numeral)
  then show ?thesis using cow_reach.intros by fastforce
qed

theorem cow_snapshot_or_abort_witness: "\<exists>s rs. cow_reach (s, rs) \<and> rs \<noteq> [] \<and> cow_onConnection 1 s 7 True = None"
proof -
  obtain s where s: "cow_reach (s, [(0, [])])" "lists s = [0 \<mapsto> ([], 2)]" using demo_cow_reach by blast
  then have "cow_onConnection 1 s 7 True = None" using cow_snapshot_or_abort [OF s(1), of 1 7 True] by simp
  with s(1) show ?thesis by blast
qed

text \<open>
  The version with one list per loop never fills \<open>loops_\<close>: \<open>TcpServer::start\<close> does not call the callback set by
  \<open>setThreadInitCallback\<close>, so \<open>threadInit\<close> is not run. \<open>H_run\<close> is a loop that runs its pending functors.
\<close>

datatype hp_event = H_conn nat nat bool | H_msg bytes | H_run nat

fun hp_drain :: "hp_server \<Rightarrow> nat \<Rightarrow> bytes list \<Rightarrow> ((nat \<times> bytes) list \<times> hp_server) option" where
  "hp_drain s l [] = Some ([], s)"
| "hp_drain s l (m # ms) = do { (o1, s) \<leftarrow> distributeMessage s l m; (o2, s) \<leftarrow> hp_drain s l ms; Some (o1 @ o2, s) }"

fun hp_run :: "hp_server \<Rightarrow> hp_event list \<Rightarrow> ((nat \<times> bytes) list \<times> hp_server) option" where
  "hp_run s [] = Some ([], s)"
| "hp_run s (H_conn l c up # es) = hp_run (hp_onConnection s l c up) es"
| "hp_run s (H_msg m # es) = hp_run (hp_onStringMessage s m) es"
| "hp_run s (H_run l # es) = do {
     (o1, s) \<leftarrow> hp_drain (s\<lparr>queued := (queued s)(l := [])\<rparr>) l (queued s l);
     (o2, s) \<leftarrow> hp_run s es;
     Some (o1 @ o2, s)
   }"

lemma hp_never_delivers:
  assumes "hloops s = []" "queued s = (\<lambda>l. [])"
  shows "\<exists>s'. hp_run s es = Some ([], s')"
  using assms
proof (induction s es rule: hp_run.induct)
  case (2 s l c up es)
  then show ?case by (simp add: hp_onConnection_def tls_instance_def Let_def split: option.split)
next
  case (4 s l es)
  then show ?case by (simp add: fun_upd_idem)
qed (simp_all add: hp_onStringMessage_def)

text \<open>With \<open>threadInit\<close> run in its loop, a connection would get every message.\<close>

lemma hp_queue:
  assumes "distinct (hloops s)"
  shows "queued (hp_onStringMessage s m) l = (if l \<in> set (hloops s) then queued s l @ [m] else queued s l)"
proof -
  have "queued (foldl (\<lambda>s l. s\<lparr>queued := (queued s)(l := queued s l @ [m])\<rparr>) s ls) l
      = (if l \<in> set ls then queued s l @ [m] else queued s l)" if "distinct ls" for ls
    using that by (induction ls arbitrary: s) auto
  then show ?thesis using assms by (simp add: hp_onStringMessage_def)
qed

lemma statistic_total: "receiveTimes \<noteq> [] \<Longrightarrow> \<exists>rows. statistic receiveTimes t = Some rows \<and> fst (last rows) = 100"
proof -
  assume "receiveTimes \<noteq> []"
  then have "sort (map (\<lambda>x. timeDifference x t) receiveTimes) \<noteq> []" by (metis length_0_conv length_map length_sort)
  then show ?thesis by (simp add: statistic_def Let_def bind_ensure_True)
qed

end
