(* ===== verification/Hub.thy ===== *)
theory Hub
  imports Chat "HOL-Library.List_Lexorder" "HOL-Library.Char_ord"
begin

text \<open>
  The publish-subscribe hub (\<open>src/excercises/hub\<close>): the parser of its text protocol (\<open>codec.cc\<close>), the server
  (\<open>hub.cc\<close>) and the client (\<open>pubsub.cc\<close>, \<open>pub.cc\<close>, \<open>sub.cc\<close>).

  \<open>parseMessage\<close> calls \<open>Buffer::findCRLF(start)\<close>, an overload that \<open>src/Buffer.h\<close> does not have. It is the
  parameter \<open>findFrom\<close> here, and \<open>crlf_search\<close> states what a search from \<open>start\<close> for the end of a line
  returns. The subscriptions in the context of a connection are \<open>contexts\<close>.
\<close>

section \<open>The protocol: \<open>codec.cc\<close>\<close>

datatype ParseResult = kError | kSuccess | kContinue

definition parseMessage :: "(buffer \<Rightarrow> nat \<Rightarrow> nat option) \<Rightarrow> buffer \<Rightarrow> (ParseResult \<times> string \<times> string \<times> string \<times> buffer) option" where
  "parseMessage findFrom buf =
     (case findCRLF buf of
        Some crlf \<Rightarrow>
          (case find_char (CHR '' '') (slice buf (peek buf) crlf) of
             Some i \<Rightarrow>
               let space = peek buf + i;
                   cmd = slice buf (peek buf) space;
                   topic = slice buf (space + 1) crlf
               in if cmd = ''pub'' then
                    let start = crlf + 2 in
                    (case findFrom buf start of
                       Some crlf \<Rightarrow> do {
                         let body = slice buf start crlf;
                         buf \<leftarrow> retrieveUntil buf (crlf + 2);
                         Some (kSuccess, cmd, topic, body, buf)
                       }
                     | None \<Rightarrow> Some (kContinue, cmd, topic, [], buf))
                  else do {
                    buf \<leftarrow> retrieveUntil buf (crlf + 2);
                    Some (kSuccess, cmd, topic, [], buf)
                  }
           | None \<Rightarrow> Some (kError, [], [], [], buf))
      | None \<Rightarrow> Some (kContinue, [], [], [], buf))"

definition crlf_search :: "(buffer \<Rightarrow> nat \<Rightarrow> nat option) \<Rightarrow> bool" where
  "crlf_search findFrom \<longleftrightarrow>
     (\<forall>b i. buf_inv b \<longrightarrow> i \<le> readableBytes b \<longrightarrow>
        findFrom b (peek b + i) = map_option (\<lambda>k. peek b + i + k) (search_first kCRLF (drop i (content b))))"

section \<open>The server: \<open>hub.cc\<close>\<close>

record topic =
  topic_name :: string
  topic_content :: string
  lastPubTime :: Timestamp
  audiences :: "nat list"

definition Topic_new :: "string \<Rightarrow> topic" where
  "Topic_new t = \<lparr>topic_name = t, topic_content = [], lastPubTime = Timestamp_invalid, audiences = []\<rparr>"

definition makeMessage :: "topic \<Rightarrow> string" where
  "makeMessage T = ''pub '' @ topic_name T @ kCRLF @ topic_content T @ kCRLF"

definition Topic_add :: "topic \<Rightarrow> nat \<Rightarrow> (nat \<times> string) list \<times> topic" where
  "Topic_add T conn =
     (let T = T\<lparr>audiences := set_insert conn (audiences T)\<rparr>
      in (if Timestamp_valid (lastPubTime T) then [(conn, makeMessage T)] else [], T))"

definition Topic_remove :: "topic \<Rightarrow> nat \<Rightarrow> topic" where
  "Topic_remove T conn = T\<lparr>audiences := set_erase conn (audiences T)\<rparr>"

definition Topic_publish :: "topic \<Rightarrow> string \<Rightarrow> Timestamp \<Rightarrow> (nat \<times> string) list \<times> topic" where
  "Topic_publish T body time =
     (let T = T\<lparr>topic_content := body, lastPubTime := time\<rparr>;
          message = makeMessage T
      in (map (\<lambda>conn. (conn, message)) (audiences T), T))"

record hub =
  topics :: "string \<rightharpoonup> topic"
  contexts :: "nat \<rightharpoonup> string list"

definition Hub_new :: hub where
  "Hub_new = \<lparr>topics = Map.empty, contexts = Map.empty\<rparr>"

definition getTopic :: "hub \<Rightarrow> string \<Rightarrow> topic \<times> hub" where
  "getTopic s t =
     (case topics s t of
        Some T \<Rightarrow> (T, s)
      | None \<Rightarrow> (Topic_new t, s\<lparr>topics := (topics s)(t \<mapsto> Topic_new t)\<rparr>))"

definition doSubscribe :: "hub \<Rightarrow> nat \<Rightarrow> string \<Rightarrow> ((nat \<times> string) list \<times> hub) option" where
  "doSubscribe s conn t = do {
     connSub \<leftarrow> contexts s conn;
     let s = s\<lparr>contexts := (contexts s)(conn \<mapsto> set_insert t connSub)\<rparr>;
     let (T, s) = getTopic s t;
     let (out, T) = Topic_add T conn;
     Some (out, s\<lparr>topics := (topics s)(t \<mapsto> T)\<rparr>)
   }"

definition doUnsubscribe :: "hub \<Rightarrow> nat \<Rightarrow> string \<Rightarrow> hub option" where
  "doUnsubscribe s conn t = do {
     let (T, s) = getTopic s t;
     let s = s\<lparr>topics := (topics s)(t \<mapsto> Topic_remove T conn)\<rparr>;
     connSub \<leftarrow> contexts s conn;
     Some (s\<lparr>contexts := (contexts s)(conn \<mapsto> set_erase t connSub)\<rparr>)
   }"

definition doPublish :: "hub \<Rightarrow> string \<Rightarrow> string \<Rightarrow> Timestamp \<Rightarrow> (nat \<times> string) list \<times> hub" where
  "doPublish s t body time =
     (let (T, s) = getTopic s t;
          (out, T) = Topic_publish T body time
      in (out, s\<lparr>topics := (topics s)(t \<mapsto> T)\<rparr>))"

text \<open>The loop over the subscriptions of a connection that goes down: the iterator moves on before each call.\<close>

fun unsubscribe_each :: "hub \<Rightarrow> nat \<Rightarrow> string list \<Rightarrow> hub option" where
  "unsubscribe_each s conn [] = Some s"
| "unsubscribe_each s conn (t # ts) = do { s \<leftarrow> doUnsubscribe s conn t; unsubscribe_each s conn ts }"

definition hub_onConnection :: "hub \<Rightarrow> nat \<Rightarrow> bool \<Rightarrow> hub option" where
  "hub_onConnection s conn is_connected =
     (if is_connected then Some (s\<lparr>contexts := (contexts s)(conn \<mapsto> [])\<rparr>)
      else do {
        connSub \<leftarrow> contexts s conn;
        unsubscribe_each s conn connSub
      })"

text \<open>One command; the last component tells whether the command was known.\<close>

definition hub_command :: "hub \<Rightarrow> nat \<Rightarrow> Timestamp \<Rightarrow> string \<Rightarrow> string \<Rightarrow> string \<Rightarrow> ((nat \<times> string) list \<times> hub \<times> bool) option" where
  "hub_command s conn receiveTime cmd t body =
     (if cmd = ''pub'' then (case doPublish s t body receiveTime of (out, s) \<Rightarrow> Some (out, s, True))
      else if cmd = ''sub'' then do { (out, s) \<leftarrow> doSubscribe s conn t; Some (out, s, True) }
      else if cmd = ''unsub'' then do { s \<leftarrow> doUnsubscribe s conn t; Some ([], s, True) }
      else Some ([], s, False))"

text \<open>The loop of \<open>onMessage\<close>; the boolean is the call of \<open>shutdown\<close>.\<close>

partial_function (option) hub_onMessage :: "(buffer \<Rightarrow> nat \<Rightarrow> nat option) \<Rightarrow> hub \<Rightarrow> nat \<Rightarrow> Timestamp \<Rightarrow> buffer
    \<Rightarrow> ((nat \<times> string) list \<times> hub \<times> bool \<times> buffer) option" where
  "hub_onMessage findFrom s conn receiveTime buf = do {
     (result, cmd, t, body, buf) \<leftarrow> parseMessage findFrom buf;
     if result = kSuccess then do {
       (o1, s, known) \<leftarrow> hub_command s conn receiveTime cmd t body;
       if known then do {
         (o2, s, stop, buf) \<leftarrow> hub_onMessage findFrom s conn receiveTime buf;
         Some (o1 @ o2, s, stop, buf)
       }
       else Some (o1, s, True, buf)
     }
     else Some ([], s, result = kError, buf)
   }"

definition timePublish :: "hub \<Rightarrow> Timestamp \<Rightarrow> (nat \<times> string) list \<times> hub" where
  "timePublish s time = doPublish s ''utc_time'' (toFormattedString time True) time"

section \<open>The client: \<open>pubsub.cc\<close>, \<open>pub.cc\<close>, \<open>sub.cc\<close>\<close>

record pubsub_client =
  ps_conn :: "nat option"
  ps_connected :: bool
  ps_subscribed :: bool

definition ps_is_connected :: "pubsub_client \<Rightarrow> bool" where
  "ps_is_connected p \<longleftrightarrow> ps_conn p \<noteq> None \<and> ps_connected p"

text \<open>\<open>send\<close> starts with \<open>bool succeed = "false"\<close>, which is true: the pointer is not null.\<close>

definition ps_send :: "pubsub_client \<Rightarrow> string \<Rightarrow> bool \<times> string list" where
  "ps_send p message =
     (let succeed = True
      in if ps_is_connected p then (True, [message]) else (succeed, []))"

definition ps_subscribe :: "pubsub_client \<Rightarrow> string \<Rightarrow> pubsub_client \<times> bool \<times> string list" where
  "ps_subscribe p t = (let p = p\<lparr>ps_subscribed := True\<rparr> in (p, ps_send p (''sub '' @ t @ kCRLF)))"

definition ps_unsubscribe :: "pubsub_client \<Rightarrow> string \<Rightarrow> bool \<times> string list" where
  "ps_unsubscribe p t = ps_send p (''unsub '' @ t @ kCRLF)"

definition ps_publish :: "pubsub_client \<Rightarrow> string \<Rightarrow> string \<Rightarrow> bool \<times> string list" where
  "ps_publish p t body = ps_send p (''pub '' @ t @ kCRLF @ body @ kCRLF)"

definition ps_onConnection :: "pubsub_client \<Rightarrow> nat \<Rightarrow> bool \<Rightarrow> pubsub_client" where
  "ps_onConnection p conn is_connected =
     (if is_connected then p\<lparr>ps_conn := Some conn, ps_connected := True\<rparr> else p\<lparr>ps_conn := None, ps_connected := False\<rparr>)"

text \<open>The loop of \<open>onMessage\<close>: the messages parsed, and whether an error shut the connection down.\<close>

partial_function (option) ps_parse :: "(buffer \<Rightarrow> nat \<Rightarrow> nat option) \<Rightarrow> buffer
    \<Rightarrow> ((string \<times> string \<times> string) list \<times> unit option \<times> buffer) option" where
  "ps_parse findFrom buf = do {
     (result, cmd, t, body, buf) \<leftarrow> parseMessage findFrom buf;
     if result = kSuccess then do {
       (ms, e, buf) \<leftarrow> ps_parse findFrom buf;
       Some ((cmd, t, body) # ms, e, buf)
     }
     else Some ([], if result = kError then Some () else None, buf)
   }"

text \<open>What reaches \<open>subscribeCallback_\<close>.\<close>

definition ps_delivered :: "pubsub_client \<Rightarrow> (string \<times> string \<times> string) list \<Rightarrow> (string \<times> string) list" where
  "ps_delivered p ms = (if ps_subscribed p then map snd (filter (\<lambda>m. fst m = ''pub'') ms) else [])"

definition pub_connection :: "pubsub_client \<Rightarrow> string \<Rightarrow> string \<Rightarrow> string list \<times> bool" where
  "pub_connection p g_topic g_content =
     (if ps_is_connected p then (snd (ps_publish p g_topic g_content), False) else ([], True))"

fun sub_connection :: "pubsub_client \<Rightarrow> string list \<Rightarrow> pubsub_client \<times> string list" where
  "sub_connection p [] = (p, [])"
| "sub_connection p (t # ts) =
     (let (p, r, out) = ps_subscribe p t; (p, out') = sub_connection p ts in (p, out @ out'))"

definition subscription :: "string \<Rightarrow> string \<Rightarrow> string" where
  "subscription t body = t @ '': '' @ body @ [CHR 0x0A]"

section \<open>The recogniser the parser implements\<close>

definition hub_frame :: "bytes \<Rightarrow> (string \<times> string \<times> string, unit) frame" where
  "hub_frame xs =
     (case search_first kCRLF xs of
        None \<Rightarrow> More
      | Some i \<Rightarrow>
          (case find_char (CHR '' '') (take i xs) of
             None \<Rightarrow> Bad ()
           | Some j \<Rightarrow>
               let cmd = take j xs; t = take (i - (j + 1)) (drop (j + 1) xs)
               in if cmd = ''pub'' then
                    (case search_first kCRLF (drop (i + 2) xs) of
                       None \<Rightarrow> More
                     | Some k \<Rightarrow> Frame (cmd, t, take k (drop (i + 2) xs)) (i + 2 + (k + 2)))
                  else Frame (cmd, t, []) (i + 2)))"

lemma hub_lines:
  assumes "search_first kCRLF xs = Some i"
  shows "i + 2 \<le> length xs" "search_first kCRLF (xs @ ys) = Some i" "take n (take i (xs @ ys)) = take n (take i xs)"
  using search_first_Some [OF assms] search_first_append [OF assms] by simp_all

lemma find_char_less: "find_char c (take i xs) = Some j \<Longrightarrow> j < i \<and> j < length xs"
  using find_char_Some [of c "take i xs" j] by simp

interpretation hubf: framing hub_frame
proof unfold_locales
  fix xs m n
  assume f: "hub_frame xs = Frame m n"
  then obtain i j where i: "search_first kCRLF xs = Some i" and j: "find_char (CHR '' '') (take i xs) = Some j"
    by (auto simp: hub_frame_def split: option.splits)
  note len = hub_lines(1) [OF i]
  show "0 < n \<and> n \<le> length xs"
  proof (cases "take j xs = ''pub''")
    case True
    then obtain k where k: "search_first kCRLF (drop (i + 2) xs) = Some k" "n = i + 2 + (k + 2)"
      using f i j by (auto simp: hub_frame_def Let_def split: option.splits)
    then show ?thesis using hub_lines(1) [OF k(1)] len by simp
  next
    case False
    then show ?thesis using f i j len by (auto simp: hub_frame_def Let_def split: option.splits)
  qed
  fix ys
  note app = hub_lines(2) [OF i, of ys]
  have t: "take i (xs @ ys) = take i xs" "take j (xs @ ys) = take j xs"
    "take (i - Suc j) (drop (Suc j) (xs @ ys)) = take (i - Suc j) (drop (Suc j) xs)"
    "drop (Suc (Suc i)) (xs @ ys) = drop (Suc (Suc i)) xs @ ys"
    using len find_char_less [OF j] by simp_all
  show "hub_frame (xs @ ys) = Frame m n"
  proof (cases "take j xs = ''pub''")
    case True
    then obtain k where k: "search_first kCRLF (drop (Suc (Suc i)) xs) = Some k"
        "m = (take j xs, take (i - Suc j) (drop (Suc j) xs), take k (drop (Suc (Suc i)) xs))" "n = i + 2 + (k + 2)"
      using f i j by (auto simp: hub_frame_def Let_def split: option.splits)
    have "k + 2 \<le> length xs - (i + 2)" using hub_lines(1) [OF k(1)] by simp
    then have "take k (drop (Suc (Suc i)) xs @ ys) = take k (drop (Suc (Suc i)) xs)" by simp
    then show ?thesis
      using k True j app t search_first_append [OF k(1), of ys] by (simp add: hub_frame_def Let_def del: take_append drop_append)
  next
    case False
    then show ?thesis using f i j app t by (simp add: hub_frame_def Let_def del: take_append drop_append)
  qed
next
  fix xs e ys
  assume f: "hub_frame xs = Bad e"
  then obtain i where i: "search_first kCRLF xs = Some i" and j: "find_char (CHR '' '') (take i xs) = None"
    by (auto simp: hub_frame_def Let_def split: option.splits if_splits)
  have "take i (xs @ ys) = take i xs" using hub_lines(1) [OF i] by simp
  then show "hub_frame (xs @ ys) = Bad e" using j hub_lines(2) [OF i, of ys] unfolding hub_frame_def by (simp del: take_append find_char_None)
qed

text \<open>The three outcomes of the parser, on the readable bytes.\<close>

lemma parse_incomplete: "search_first kCRLF (content b) = None \<Longrightarrow> parseMessage findFrom b = Some (kContinue, [], [], [], b)"
  by (simp add: parseMessage_def findCRLF_def)

lemma parse_no_space:
  assumes "buf_inv b" "search_first kCRLF (content b) = Some i" "find_char (CHR '' '') (take i (content b)) = None"
  shows "parseMessage findFrom b = Some (kError, [], [], [], b)"
  using assms line_slice [OF assms(1,2)] by (simp add: parseMessage_def findCRLF_def del: find_char_None)

lemma parse_words:
  assumes b: "buf_inv b" and i: "search_first kCRLF (content b) = Some i" and j: "find_char (CHR '' '') (take i (content b)) = Some j"
  shows "slice b (peek b) (peek b + j) = take j (content b)"
    "slice b (peek b + j + 1) (peek b + i) = take (i - Suc j) (drop (Suc j) (content b))"
  using content_split [OF b, of j] slice_content [OF b, of "j + 1" i] line_slice [OF b i] find_char_less [OF j]
  by (simp_all add: add.assoc)

lemma parse_pub:
  assumes b: "buf_inv b" and find: "crlf_search findFrom" and i: "search_first kCRLF (content b) = Some i"
    and j: "find_char (CHR '' '') (take i (content b)) = Some j" and pub: "take j (content b) = ''pub''"
  shows "parseMessage findFrom b =
    (case search_first kCRLF (drop (i + 2) (content b)) of
       None \<Rightarrow> Some (kContinue, ''pub'', take (i - Suc j) (drop (Suc j) (content b)), [], b)
     | Some k \<Rightarrow> do {
         b' \<leftarrow> retrieveUntil b (peek b + (i + 2 + (k + 2)));
         Some (kSuccess, ''pub'', take (i - Suc j) (drop (Suc j) (content b)), take k (drop (i + 2) (content b)), b')
       })"
proof -
  note line = line_slice [OF b i] and words = parse_words [OF b i j]
  have f: "findFrom b (peek b + i + 2) = map_option (\<lambda>k. peek b + i + 2 + k) (search_first kCRLF (drop (i + 2) (content b)))"
    using find [unfolded crlf_search_def, rule_format, OF b line(1)]
    by (cases "search_first kCRLF (drop (i + 2) (content b))") (simp_all add: add.assoc)
  show ?thesis
  proof (cases "search_first kCRLF (drop (i + 2) (content b))")
    case None
    then show ?thesis using f i j line words pub by (simp add: parseMessage_def findCRLF_def Let_def)
  next
    case (Some k)
    then have "i + 2 + (k + 2) \<le> readableBytes b" using hub_lines(1) [OF Some] b by simp
    then have "slice b (peek b + i + 2) (peek b + i + 2 + k) = take k (drop (i + 2) (content b))"
      using slice_content [OF b, of "i + 2" "i + 2 + k"] by (simp add: add.assoc)
    then show ?thesis using Some f i j line words pub by (simp add: parseMessage_def findCRLF_def Let_def add.assoc)
  qed
qed

lemma parse_other:
  assumes b: "buf_inv b" and i: "search_first kCRLF (content b) = Some i"
    and j: "find_char (CHR '' '') (take i (content b)) = Some j" and pub: "take j (content b) \<noteq> ''pub''"
  shows "parseMessage findFrom b = do {
    b' \<leftarrow> retrieveUntil b (peek b + (i + 2));
    Some (kSuccess, take j (content b), take (i - Suc j) (drop (Suc j) (content b)), [], b')
  }"
  using i j pub line_slice [OF b i] parse_words [OF b i j] by (simp add: parseMessage_def findCRLF_def Let_def add.assoc)

lemmas parse_eval = parse_incomplete parse_no_space parse_pub parse_other

lemma parseMessage_frame:
  assumes b: "buf_inv b" and find: "crlf_search findFrom"
  shows "case hub_frame (content b) of
      More \<Rightarrow> \<exists>cmd t. parseMessage findFrom b = Some (kContinue, cmd, t, [], b)
    | Bad e \<Rightarrow> parseMessage findFrom b = Some (kError, [], [], [], b)
    | Frame (cmd, t, x) n \<Rightarrow> \<exists>b'. parseMessage findFrom b = Some (kSuccess, cmd, t, x, b') \<and> buf_inv b'
        \<and> content b' = drop n (content b) \<and> readableBytes b' = readableBytes b - n"
proof -
  have step: "\<exists>b'. (retrieveUntil b (peek b + n) \<bind> (\<lambda>b'. Some (kSuccess, cmd, t, x, b'))) = Some (kSuccess, cmd, t, x, b') \<and> buf_inv b'
      \<and> content b' = drop n (content b) \<and> readableBytes b' = readableBytes b - n" if le: "n \<le> readableBytes b" for n cmd t x
  proof -
    obtain b' where "retrieveUntil b (peek b + n) = Some b'" "buf_inv b'" "content b' = drop n (content b)" "readableBytes b' = readableBytes b - n"
      using retrieveUntil_ok [OF b le] .
    then show ?thesis by (intro exI [of _ b']) simp
  qed
  show ?thesis
  proof (cases "search_first kCRLF (content b)")
    case None
    then show ?thesis by (simp add: parse_incomplete hub_frame_def)
  next
    case (Some i)
    note i = Some and len = line_slice(1) [OF b Some]
    show ?thesis
    proof (cases "find_char (CHR '' '') (take i (content b))")
      case None
      then show ?thesis using i parse_no_space [OF b i None] by (simp add: hub_frame_def del: find_char_None)
    next
      case (Some j)
      note j = Some
      show ?thesis
      proof (cases "take j (content b) = ''pub''")
        case True
        show ?thesis
        proof (cases "search_first kCRLF (drop (i + 2) (content b))")
          case None
          then show ?thesis using i j True parse_pub [OF b find i j True] by (simp add: hub_frame_def Let_def)
        next
          case (Some k)
          have "i + 2 + (k + 2) \<le> readableBytes b" using hub_lines(1) [OF Some] len b by simp
          from step [OF this] show ?thesis using Some i j True parse_pub [OF b find i j True] by (simp add: hub_frame_def Let_def)
        qed
      next
        case False
        then show ?thesis using step [OF len] i j parse_other [OF b i j False] by (simp add: hub_frame_def Let_def)
      qed
    qed
  qed
qed

section \<open>The client reads frames\<close>

locale hub_search =
  fixes findFrom :: "buffer \<Rightarrow> nat \<Rightarrow> nat option"
  assumes find: "crlf_search findFrom"
begin

lemma ps_parse_refines:
  "buf_inv b \<Longrightarrow> decode hub_frame (content b) = (ms, rest, e) \<Longrightarrow>
   \<exists>b'. ps_parse findFrom b = Some (ms, e, b') \<and> buf_inv b' \<and> content b' = rest"
proof (induction "readableBytes b" arbitrary: b ms rule: less_induct)
  case less
  note fr = parseMessage_frame [OF less.prems(1) find]
  show ?case
  proof (cases "content b" rule: hubf.decode_cases)
    case More
    then show ?thesis using fr less.prems by (subst ps_parse.simps) auto
  next
    case (Bad e')
    then show ?thesis using fr less.prems by (subst ps_parse.simps) auto
  next
    case (Frame m n)
    obtain cmd t x where m: "m = (cmd, t, x)" by (metis prod_cases3)
    obtain b1 where b1: "parseMessage findFrom b = Some (kSuccess, cmd, t, x, b1)" "buf_inv b1" "content b1 = drop n (content b)"
      "readableBytes b1 = readableBytes b - n"
      using fr Frame(1) m by auto
    obtain ms1 where d: "decode hub_frame (content b1) = (ms1, rest, e)" "ms = m # ms1"
      using less.prems(2) unfolding hubf.decode_Frame [OF Frame(1)] b1(3) by (auto split: prod.splits)
    have "readableBytes b1 < readableBytes b" using b1(4) Frame less.prems(1) by simp
    then obtain b2 where "ps_parse findFrom b1 = Some (ms1, e, b2)" "buf_inv b2" "content b2 = rest"
      using less.hyps [OF _ b1(2) d(1)] by blast
    then show ?thesis using b1(1) d(2) m by (subst ps_parse.simps) simp
  qed
qed

end

sublocale hub_search \<subseteq> psr: framed_reader hub_frame "ps_parse findFrom"
  by unfold_locales (rule ps_parse_refines)

text \<open>A search that has the contract.\<close>

definition crlf_from :: "buffer \<Rightarrow> nat \<Rightarrow> nat option" where
  "crlf_from b p = map_option (\<lambda>k. p + k) (search_first kCRLF (slice b p (beginWrite b)))"

lemma crlf_from_ok: "crlf_search crlf_from"
proof -
  have "slice b (peek b + i) (beginWrite b) = drop i (content b)" if "buf_inv b" "i \<le> readableBytes b" for b i
    using that by (auto simp: buf_defs drop_take add.commute)
  then show ?thesis by (simp add: crlf_search_def crlf_from_def)
qed

interpretation crlf: hub_search crlf_from
  by unfold_locales (rule crlf_from_ok)

text \<open>What a message with no line break inside looks like on the wire.\<close>

definition pub_text :: "string \<times> string \<Rightarrow> string" where
  "pub_text m = (case m of (t, x) \<Rightarrow> ''pub '' @ t @ kCRLF @ x @ kCRLF)"

lemma no_crlf_pub: "no_crlf t \<Longrightarrow> no_crlf (''pub '' @ t)"
  by (simp add: no_crlf_def kCRLF_def)

lemma hub_frame_pub:
  assumes "no_crlf t" "no_crlf x"
  shows "hub_frame (pub_text (t, x) @ ys) = Frame (''pub'', t, x) (length (pub_text (t, x)))"
proof -
  let ?xs = "''pub '' @ t @ kCRLF @ x @ kCRLF @ ys"
  have i: "search_first kCRLF ?xs = Some (length t + 4)"
    using search_first_crlf [OF no_crlf_pub [OF assms(1)], of "x @ kCRLF @ ys"] by (simp add: add.commute)
  have j: "find_char (CHR '' '') (take (length t + 4) ?xs) = Some 3"
    by (simp add: eval_nat_numeral)
  have d: "drop (length t + 4 + 2) ?xs = x @ kCRLF @ ys" by (simp add: kCRLF_def eval_nat_numeral)
  have t: "take (length t + 4 - (3 + 1)) (drop (3 + 1) ?xs) = t" "take 3 ?xs = ''pub''" by (simp_all add: eval_nat_numeral)
  have "hub_frame ?xs = Frame (''pub'', t, x) (length t + 4 + 2 + (length x + 2))"
    unfolding hub_frame_def i option.case j t d search_first_crlf [OF assms(2)] Let_def by simp
  then show ?thesis by (simp add: pub_text_def add.commute)
qed

section \<open>The server executes commands\<close>

definition known_cmd :: "string \<Rightarrow> bool" where
  "known_cmd cmd \<longleftrightarrow> cmd = ''pub'' \<or> cmd = ''sub'' \<or> cmd = ''unsub''"

text \<open>The commands the server executes of the bytes it has, and the bytes that stay. An unknown command is taken off and stops it.\<close>

function hub_take :: "bytes \<Rightarrow> (string \<times> string \<times> string) list \<times> bytes" where
  "hub_take xs =
     (case hub_frame xs of
        Frame m n \<Rightarrow>
          if 0 < n \<and> n \<le> length xs
          then if known_cmd (fst m) then (case hub_take (drop n xs) of (cs, r) \<Rightarrow> (m # cs, r)) else ([], drop n xs)
          else ([], xs)
      | _ \<Rightarrow> ([], xs))"
  by pat_completeness auto
termination
  by (relation "measure length") auto

declare hub_take.simps [simp del]

fun run_commands :: "hub \<Rightarrow> nat \<Rightarrow> Timestamp \<Rightarrow> (string \<times> string \<times> string) list \<Rightarrow> ((nat \<times> string) list \<times> hub) option" where
  "run_commands s conn time [] = Some ([], s)"
| "run_commands s conn time ((cmd, t, x) # cs) = do {
     (o1, s, k) \<leftarrow> hub_command s conn time cmd t x;
     (o2, s) \<leftarrow> run_commands s conn time cs;
     Some (o1 @ o2, s)
   }"

lemma hub_command_known: "hub_command s conn time cmd t x = Some (out, s', k) \<Longrightarrow> k = known_cmd cmd"
  by (auto simp: hub_command_def known_cmd_def bind_eq_Some_conv split: if_splits prod.splits)

lemma hub_command_unknown: "\<not> known_cmd cmd \<Longrightarrow> hub_command s conn time cmd t x = Some ([], s, False)"
  by (simp add: hub_command_def known_cmd_def)

lemma hub_onMessage_take:
  assumes find: "crlf_search findFrom"
  shows "buf_inv b \<Longrightarrow> hub_take (content b) = (cs, r) \<Longrightarrow> run_commands s conn time cs = Some (out, s') \<Longrightarrow>
    \<exists>stop b'. hub_onMessage findFrom s conn time b = Some (out, s', stop, b') \<and> buf_inv b' \<and> content b' = r"
proof (induction "readableBytes b" arbitrary: b cs s out rule: less_induct)
  case less
  note fr = parseMessage_frame [OF less.prems(1) find]
  show ?case
  proof (cases "content b" rule: hubf.decode_cases)
    case More
    then have "cs = []" "r = content b" using less.prems(2) by (simp_all add: hub_take.simps [of "content b"])
    then show ?thesis using fr less.prems More by (subst hub_onMessage.simps) auto
  next
    case (Bad e')
    then have "cs = []" "r = content b" using less.prems(2) by (simp_all add: hub_take.simps [of "content b"])
    then show ?thesis using fr less.prems Bad by (subst hub_onMessage.simps) auto
  next
    case (Frame m n)
    obtain cmd t x where m: "m = (cmd, t, x)" by (metis prod_cases3)
    obtain b1 where b1: "parseMessage findFrom b = Some (kSuccess, cmd, t, x, b1)" "buf_inv b1" "content b1 = drop n (content b)"
      "readableBytes b1 = readableBytes b - n"
      using fr Frame(1) m by auto
    have lt: "readableBytes b1 < readableBytes b" using b1(4) Frame less.prems(1) by simp
    show ?thesis
    proof (cases "known_cmd cmd")
      case False
      then have "cs = []" "r = content b1" using less.prems(2) Frame m b1(3) by (simp_all add: hub_take.simps [of "content b"])
      then show ?thesis using less.prems(3) b1 hub_command_unknown [OF False] by (subst hub_onMessage.simps) auto
    next
      case True
      obtain cs1 where cs1: "hub_take (content b1) = (cs1, r)" "cs = m # cs1"
        using less.prems(2) Frame True m b1(3) by (auto simp: hub_take.simps [of "content b"] split: prod.splits)
      obtain o1 s1 o2 where c: "hub_command s conn time cmd t x = Some (o1, s1, True)" "run_commands s1 conn time cs1 = Some (o2, s')" "out = o1 @ o2"
        using less.prems(3) cs1(2) m True hub_command_known by (fastforce simp: bind_eq_Some_conv)
      obtain stop b2 where "hub_onMessage findFrom s1 conn time b1 = Some (o2, s', stop, b2)" "buf_inv b2" "content b2 = r"
        using less.hyps [OF lt b1(2) cs1(1) c(2)] by blast
      then show ?thesis using b1(1) c by (subst hub_onMessage.simps) simp
    qed
  qed
qed

section \<open>What a connection hears\<close>

definition subscribed :: "hub \<Rightarrow> nat \<Rightarrow> string \<Rightarrow> bool" where
  "subscribed s d t \<longleftrightarrow> (case topics s t of Some T \<Rightarrow> d \<in> set (audiences T) | None \<Rightarrow> False)"

definition last_pub :: "hub \<Rightarrow> string \<Rightarrow> string option" where
  "last_pub s t = (case topics s t of Some T \<Rightarrow> if Timestamp_valid (lastPubTime T) then Some (topic_content T) else None | None \<Rightarrow> None)"

definition hub_inv :: "hub \<Rightarrow> bool" where
  "hub_inv s \<longleftrightarrow> (\<forall>t T. topics s t = Some T \<longrightarrow> topic_name T = t \<and> std_set (audiences T))
     \<and> (\<forall>c ts. contexts s c = Some ts \<longrightarrow> std_set ts)
     \<and> (\<forall>c t. subscribed s c t \<longleftrightarrow> (\<exists>ts. contexts s c = Some ts \<and> t \<in> set ts))"

text \<open>The effect of a command of \<open>conn\<close> on what \<open>d\<close> has subscribed to, on the last publications, and what \<open>d\<close> is sent.\<close>

definition heard_cmd :: "nat \<Rightarrow> nat \<Rightarrow> string set \<Rightarrow> (string \<rightharpoonup> string) \<Rightarrow> string \<times> string \<times> string
    \<Rightarrow> (string \<times> string) list \<times> string set \<times> (string \<rightharpoonup> string)" where
  "heard_cmd d conn S L m =
     (case m of (cmd, t, x) \<Rightarrow>
        if cmd = ''pub'' then (if t \<in> S then [(t, x)] else [], S, L(t \<mapsto> x))
        else if cmd = ''sub'' \<and> conn = d then (case L t of Some x \<Rightarrow> [(t, x)] | None \<Rightarrow> [], insert t S, L)
        else if cmd = ''unsub'' \<and> conn = d then ([], S - {t}, L)
        else ([], S, L))"

fun heard_cmds :: "nat \<Rightarrow> nat \<Rightarrow> string set \<Rightarrow> (string \<rightharpoonup> string) \<Rightarrow> (string \<times> string \<times> string) list
    \<Rightarrow> (string \<times> string) list \<times> string set \<times> (string \<rightharpoonup> string)" where
  "heard_cmds d conn S L [] = ([], S, L)"
| "heard_cmds d conn S L (m # ms) =
     (case heard_cmd d conn S L m of (o1, S, L) \<Rightarrow> case heard_cmds d conn S L ms of (o2, S, L) \<Rightarrow> (o1 @ o2, S, L))"

text \<open>Facts about \<open>getTopic\<close>: a topic is created unpublished and without audience.\<close>

lemma getTopic_ok:
  assumes "hub_inv s" "getTopic s t = (T, s1)"
  shows "topic_name T = t" "std_set (audiences T)" "contexts s1 = contexts s" "topics s1 = (topics s)(t \<mapsto> T)"
    "d \<in> set (audiences T) \<longleftrightarrow> subscribed s d t"
    "(if Timestamp_valid (lastPubTime T) then Some (topic_content T) else None) = last_pub s t"
proof -
  have n: "\<And>T. topics s t = Some T \<Longrightarrow> topic_name T = t \<and> std_set (audiences T)" using assms(1) by (simp add: hub_inv_def)
  show "topic_name T = t" "std_set (audiences T)" "contexts s1 = contexts s" "topics s1 = (topics s)(t \<mapsto> T)"
    "d \<in> set (audiences T) \<longleftrightarrow> subscribed s d t"
    "(if Timestamp_valid (lastPubTime T) then Some (topic_content T) else None) = last_pub s t"
    using assms(2) n
    by (auto simp: getTopic_def Topic_new_def subscribed_def last_pub_def Timestamp_invalid_def Timestamp_valid_def std_set_def
        split: option.splits)
qed

lemma makeMessage_text: "makeMessage T = pub_text (topic_name T, topic_content T)"
  by (simp add: makeMessage_def pub_text_def)

lemma doPublish_ok:
  assumes inv: "hub_inv s" and time: "Timestamp_valid time"
  shows "\<exists>out s'. doPublish s t x time = (out, s') \<and> hub_inv s' \<and> contexts s' = contexts s
    \<and> (\<forall>d. out_to d out = (if subscribed s d t then [pub_text (t, x)] else []))
    \<and> (\<forall>d u. subscribed s' d u = subscribed s d u) \<and> last_pub s' = (last_pub s)(t \<mapsto> x)"
proof -
  obtain T s1 where g: "getTopic s t = (T, s1)" by fastforce
  note T = getTopic_ok [OF inv g]
  let ?T = "T\<lparr>topic_content := x, lastPubTime := time\<rparr>"
  let ?s = "s1\<lparr>topics := (topics s1)(t \<mapsto> ?T)\<rparr>"
  have d: "doPublish s t x time = (map (\<lambda>c. (c, pub_text (t, x))) (audiences T), ?s)"
    using g T(1) by (simp add: doPublish_def Topic_publish_def makeMessage_text)
  have sub: "subscribed ?s d u = subscribed s d u" for d u
    using T(4) T(5) [of d] by (auto simp: subscribed_def)
  have "last_pub ?s = (last_pub s)(t \<mapsto> x)" using T(4) time by (auto simp: last_pub_def fun_eq_iff)
  moreover have "hub_inv ?s" using inv T(1-4) sub by (auto simp: hub_inv_def)
  moreover have "out_to d (map (\<lambda>c. (c, pub_text (t, x))) (audiences T)) = (if subscribed s d t then [pub_text (t, x)] else [])" for d
    using out_to_all [of "audiences T" d] T(2) T(5) [of d] by (simp add: std_set_def)
  ultimately show ?thesis using d sub T(3) by simp
qed

lemma doSubscribe_ok:
  assumes inv: "hub_inv s" and ctx: "contexts s conn = Some ts"
  shows "\<exists>out s'. doSubscribe s conn t = Some (out, s') \<and> hub_inv s' \<and> contexts s' = (contexts s)(conn \<mapsto> set_insert t ts)
    \<and> (\<forall>d. out_to d out = (if d = conn then (case last_pub s t of Some x \<Rightarrow> [pub_text (t, x)] | None \<Rightarrow> []) else []))
    \<and> (\<forall>d u. subscribed s' d u = (subscribed s d u \<or> d = conn \<and> u = t)) \<and> last_pub s' = last_pub s"
proof -
  let ?s0 = "s\<lparr>contexts := (contexts s)(conn \<mapsto> set_insert t ts)\<rparr>"
  obtain T s1 where g: "getTopic s t = (T, s1)" by fastforce
  note T = getTopic_ok [OF inv g]
  have g0: "getTopic ?s0 t = (T, s1\<lparr>contexts := (contexts s)(conn \<mapsto> set_insert t ts)\<rparr>)"
    using g by (auto simp: getTopic_def split: option.splits)
  let ?T = "T\<lparr>audiences := set_insert conn (audiences T)\<rparr>"
  let ?s = "s1\<lparr>contexts := (contexts s)(conn \<mapsto> set_insert t ts), topics := (topics s1)(t \<mapsto> ?T)\<rparr>"
  let ?out = "if Timestamp_valid (lastPubTime T) then [(conn, pub_text (t, topic_content T))] else []"
  have d: "doSubscribe s conn t = Some (?out, ?s)"
    using ctx g0 T(1) by (simp add: doSubscribe_def Topic_add_def Let_def makeMessage_text)
  have aud: "std_set (set_insert conn (audiences T))" "set (set_insert conn (audiences T)) = insert conn (set (audiences T))"
    using set_insert_ok [OF T(2), of conn] by auto
  have sub: "subscribed ?s d u = (subscribed s d u \<or> d = conn \<and> u = t)" for d u
    using T(4) T(5) [of d] aud(2) by (auto simp: subscribed_def)
  have lp: "last_pub ?s = last_pub s" using T(4,6) by (auto simp: last_pub_def fun_eq_iff)
  have ts: "std_set ts" using inv ctx by (simp add: hub_inv_def)
  have "hub_inv ?s"
    unfolding hub_inv_def sub using inv T(1,4) aud(1) set_insert_ok [OF ts, of t] ctx by (auto simp: hub_inv_def)
  moreover have "out_to d ?out = (if d = conn then (case last_pub s t of Some x \<Rightarrow> [pub_text (t, x)] | None \<Rightarrow> []) else [])" for d
    unfolding T(6) [symmetric] by (auto simp: out_to_def)
  ultimately show ?thesis using d sub lp by simp
qed

lemma doUnsubscribe_ok:
  assumes inv: "hub_inv s" and ctx: "contexts s conn = Some ts"
  shows "\<exists>s'. doUnsubscribe s conn t = Some s' \<and> hub_inv s' \<and> contexts s' = (contexts s)(conn \<mapsto> set_erase t ts)
    \<and> (\<forall>d u. subscribed s' d u = (subscribed s d u \<and> \<not> (d = conn \<and> u = t))) \<and> last_pub s' = last_pub s"
proof -
  obtain T s1 where g: "getTopic s t = (T, s1)" by fastforce
  note T = getTopic_ok [OF inv g]
  let ?T = "T\<lparr>audiences := set_erase conn (audiences T)\<rparr>"
  let ?s = "s1\<lparr>topics := (topics s1)(t \<mapsto> ?T), contexts := (contexts s)(conn \<mapsto> set_erase t ts)\<rparr>"
  have d: "doUnsubscribe s conn t = Some ?s"
    using g T(3) ctx by (simp add: doUnsubscribe_def Topic_remove_def Let_def)
  have aud: "std_set (set_erase conn (audiences T))" "set (set_erase conn (audiences T)) = set (audiences T) - {conn}"
    using set_erase_ok [OF T(2), of conn] by auto
  have sub: "subscribed ?s d u = (subscribed s d u \<and> \<not> (d = conn \<and> u = t))" for d u
    using T(4) T(5) [of d] aud(2) by (auto simp: subscribed_def)
  have lp: "last_pub ?s = last_pub s" using T(4,6) by (auto simp: last_pub_def fun_eq_iff)
  have ts: "std_set ts" using inv ctx by (simp add: hub_inv_def)
  have "hub_inv ?s"
    unfolding hub_inv_def sub using inv T(1,4) aud(1) set_erase_ok [OF ts, of t] ctx by (auto simp: hub_inv_def)
  then show ?thesis using d sub lp by simp
qed

text \<open>The view \<open>d\<close> has of the hub.\<close>

definition view :: "hub \<Rightarrow> nat \<Rightarrow> string set \<times> (string \<rightharpoonup> string)" where
  "view s d = ({u. subscribed s d u}, last_pub s)"

lemma hub_command_ok:
  assumes inv: "hub_inv s" and ctx: "contexts s conn = Some ts" and time: "Timestamp_valid time"
  shows "\<exists>out s' k. hub_command s conn time cmd t x = Some (out, s', k) \<and> hub_inv s' \<and> dom (contexts s') = dom (contexts s)
    \<and> (\<forall>c. c \<noteq> conn \<longrightarrow> contexts s' c = contexts s c)
    \<and> (\<forall>d. \<exists>ms. heard_cmd d conn (fst (view s d)) (snd (view s d)) (cmd, t, x) = (ms, view s' d) \<and> out_to d out = map pub_text ms)"
proof -
  consider "cmd = ''pub''" | "cmd = ''sub''" | "cmd = ''unsub''" | "\<not> known_cmd cmd" by (auto simp: known_cmd_def)
  then show ?thesis
  proof cases
    case 1
    then show ?thesis using doPublish_ok [OF inv time, of t x] by (auto simp: hub_command_def heard_cmd_def view_def)
  next
    case 2
    obtain out s' where s': "doSubscribe s conn t = Some (out, s')" "hub_inv s'" "contexts s' = (contexts s)(conn \<mapsto> set_insert t ts)"
      "\<And>d. out_to d out = (if d = conn then (case last_pub s t of Some x \<Rightarrow> [pub_text (t, x)] | None \<Rightarrow> []) else [])"
      "\<And>d u. subscribed s' d u = (subscribed s d u \<or> d = conn \<and> u = t)" "last_pub s' = last_pub s"
      using doSubscribe_ok [OF inv ctx, of t] by blast
    then show ?thesis using 2 ctx by (auto simp: hub_command_def heard_cmd_def view_def split: option.splits)
  next
    case 3
    obtain s' where s': "doUnsubscribe s conn t = Some s'" "hub_inv s'" "contexts s' = (contexts s)(conn \<mapsto> set_erase t ts)"
      "\<And>d u. subscribed s' d u = (subscribed s d u \<and> \<not> (d = conn \<and> u = t))" "last_pub s' = last_pub s"
      using doUnsubscribe_ok [OF inv ctx, of t] by blast
    then show ?thesis using 3 ctx by (auto simp: hub_command_def heard_cmd_def view_def out_to_def)
  next
    case 4
    then show ?thesis using inv hub_command_unknown [OF 4] by (auto simp: heard_cmd_def known_cmd_def view_def out_to_def)
  qed
qed

lemma run_commands_ok:
  "hub_inv s \<Longrightarrow> contexts s conn \<noteq> None \<Longrightarrow> Timestamp_valid time \<Longrightarrow>
   \<exists>out s'. run_commands s conn time cs = Some (out, s') \<and> hub_inv s' \<and> dom (contexts s') = dom (contexts s)
     \<and> (\<forall>c. c \<noteq> conn \<longrightarrow> contexts s' c = contexts s c)
     \<and> (\<forall>d. \<exists>ms. heard_cmds d conn (fst (view s d)) (snd (view s d)) cs = (ms, view s' d) \<and> out_to d out = map pub_text ms)"
proof (induction cs arbitrary: s)
  case (Cons m cs)
  obtain cmd t x where m: "m = (cmd, t, x)" by (metis prod_cases3)
  obtain ts where ts: "contexts s conn = Some ts" using Cons.prems(2) by blast
  obtain o1 s1 k where c: "hub_command s conn time cmd t x = Some (o1, s1, k)" "hub_inv s1" "dom (contexts s1) = dom (contexts s)"
    "\<forall>c. c \<noteq> conn \<longrightarrow> contexts s1 c = contexts s c"
    "\<And>d. \<exists>ms. heard_cmd d conn (fst (view s d)) (snd (view s d)) m = (ms, view s1 d) \<and> out_to d o1 = map pub_text ms"
    using hub_command_ok [OF Cons.prems(1) ts Cons.prems(3), of cmd t x] unfolding m by blast
  have "contexts s1 conn \<noteq> None" using c(3) Cons.prems(2) by (metis domIff)
  then obtain o2 s2 where r: "run_commands s1 conn time cs = Some (o2, s2)" "hub_inv s2" "dom (contexts s2) = dom (contexts s1)"
    "\<forall>c. c \<noteq> conn \<longrightarrow> contexts s2 c = contexts s1 c"
    "\<And>d. \<exists>ms. heard_cmds d conn (fst (view s1 d)) (snd (view s1 d)) cs = (ms, view s2 d) \<and> out_to d o2 = map pub_text ms"
    using Cons.IH [OF c(2) _ Cons.prems(3)] by blast
  have "\<exists>ms. heard_cmds d conn (fst (view s d)) (snd (view s d)) (m # cs) = (ms, view s2 d) \<and> out_to d (o1 @ o2) = map pub_text ms" for d
  proof -
    obtain ms1 ms2 where "heard_cmd d conn (fst (view s d)) (snd (view s d)) m = (ms1, view s1 d)" "out_to d o1 = map pub_text ms1"
      "heard_cmds d conn (fst (view s1 d)) (snd (view s1 d)) cs = (ms2, view s2 d)" "out_to d o2 = map pub_text ms2"
      using c(5) [of d] r(5) [of d] by blast
    then show ?thesis by (intro exI [of _ "ms1 @ ms2"]) (auto split: prod.splits)
  qed
  then show ?case using c(1,3,4) r(1-4) m by simp
qed (auto simp: view_def out_to_def)

lemma unsubscribe_each_ok:
  "hub_inv s \<Longrightarrow> contexts s conn \<noteq> None \<Longrightarrow>
   \<exists>s'. unsubscribe_each s conn us = Some s' \<and> hub_inv s' \<and> dom (contexts s') = dom (contexts s)
     \<and> (\<forall>c. c \<noteq> conn \<longrightarrow> contexts s' c = contexts s c)
     \<and> (\<forall>d u. subscribed s' d u = (subscribed s d u \<and> \<not> (d = conn \<and> u \<in> set us))) \<and> last_pub s' = last_pub s"
proof (induction us arbitrary: s)
  case (Cons u us)
  obtain ts where ts: "contexts s conn = Some ts" using Cons.prems(2) by blast
  obtain s1 where s1: "doUnsubscribe s conn u = Some s1" "hub_inv s1" "contexts s1 = (contexts s)(conn \<mapsto> set_erase u ts)"
    "\<And>d v. subscribed s1 d v = (subscribed s d v \<and> \<not> (d = conn \<and> v = u))" "last_pub s1 = last_pub s"
    using doUnsubscribe_ok [OF Cons.prems(1) ts] by blast
  have ctx1: "contexts s1 conn \<noteq> None" using s1(3) by simp
  obtain s2 where "unsubscribe_each s1 conn us = Some s2" "hub_inv s2" "dom (contexts s2) = dom (contexts s1)"
    "\<forall>c. c \<noteq> conn \<longrightarrow> contexts s2 c = contexts s1 c"
    "\<And>d v. subscribed s2 d v = (subscribed s1 d v \<and> \<not> (d = conn \<and> v \<in> set us))" "last_pub s2 = last_pub s1"
    using Cons.IH [OF s1(2) ctx1] by blast
  moreover have "dom (contexts s1) = dom (contexts s)" using s1(3) ts by auto
  ultimately show ?case using s1 by auto
qed simp

lemma hub_down_ok:
  assumes "hub_inv s" "contexts s conn \<noteq> None"
  shows "\<exists>s'. hub_onConnection s conn False = Some s' \<and> hub_inv s' \<and> contexts s' conn = Some []
    \<and> dom (contexts s') = dom (contexts s) \<and> (\<forall>c. c \<noteq> conn \<longrightarrow> contexts s' c = contexts s c)
    \<and> (\<forall>d. view s' d = (if d = conn then {} else fst (view s d), snd (view s d)))"
proof -
  obtain ts where ts: "contexts s conn = Some ts" using assms(2) by blast
  obtain s' where s': "unsubscribe_each s conn ts = Some s'" "hub_inv s'" "dom (contexts s') = dom (contexts s)"
    "\<forall>c. c \<noteq> conn \<longrightarrow> contexts s' c = contexts s c"
    "\<And>d u. subscribed s' d u = (subscribed s d u \<and> \<not> (d = conn \<and> u \<in> set ts))" "last_pub s' = last_pub s"
    using unsubscribe_each_ok [OF assms, of ts] by blast
  have none: "\<not> subscribed s' conn u" for u
    using s'(5) assms(1) ts by (auto simp: hub_inv_def)
  obtain ts' where ts': "contexts s' conn = Some ts'" using s'(3) ts by blast
  have "ts' = []" using none s'(2) ts' by (cases ts') (auto simp: hub_inv_def)
  then show ?thesis
    using ts ts' s' none by (auto simp: hub_onConnection_def view_def)
qed

section \<open>Whole runs\<close>

datatype hub_event = Hub_up nat | Hub_down nat | Hub_data nat bytes Timestamp

fun serve_hub :: "(buffer \<Rightarrow> nat \<Rightarrow> nat option) \<Rightarrow> hub \<Rightarrow> (nat \<Rightarrow> buffer) \<Rightarrow> hub_event list \<Rightarrow> ((nat \<times> string) list \<times> hub) option" where
  "serve_hub findFrom s bufs [] = Some ([], s)"
| "serve_hub findFrom s bufs (Hub_up c # es) = do { s \<leftarrow> hub_onConnection s c True; serve_hub findFrom s (bufs(c := Buffer_new)) es }"
| "serve_hub findFrom s bufs (Hub_down c # es) = do { s \<leftarrow> hub_onConnection s c False; serve_hub findFrom s bufs es }"
| "serve_hub findFrom s bufs (Hub_data c piece time # es) = do {
     (n, err, b1) \<leftarrow> readFd (bufs c) (Inr piece);
     (o1, s, stop, b2) \<leftarrow> hub_onMessage findFrom s c time b1;
     (o2, s) \<leftarrow> serve_hub findFrom s (bufs(c := b2)) es;
     Some (o1 @ o2, s)
   }"

text \<open>Connections come up when they are not up, and only what is up sends or goes down.\<close>

fun hub_events_ok :: "nat set \<Rightarrow> hub_event list \<Rightarrow> bool" where
  "hub_events_ok C [] \<longleftrightarrow> True"
| "hub_events_ok C (Hub_up c # es) \<longleftrightarrow> c \<notin> C \<and> hub_events_ok (insert c C) es"
| "hub_events_ok C (Hub_down c # es) \<longleftrightarrow> c \<in> C \<and> hub_events_ok (C - {c}) es"
| "hub_events_ok C (Hub_data c piece time # es) \<longleftrightarrow> c \<in> C \<and> Timestamp_valid time \<and> hub_events_ok C es"

text \<open>What \<open>d\<close> should hear: its subscriptions \<open>S\<close> and the last publications \<open>L\<close> change with the commands completed by each arrival.\<close>

fun hub_hears :: "nat \<Rightarrow> (nat \<Rightarrow> bytes) \<Rightarrow> string set \<Rightarrow> (string \<rightharpoonup> string) \<Rightarrow> hub_event list \<Rightarrow> (string \<times> string) list" where
  "hub_hears d rest S L [] = []"
| "hub_hears d rest S L (Hub_up c # es) = hub_hears d (rest(c := [])) S L es"
| "hub_hears d rest S L (Hub_down c # es) = hub_hears d rest (if d = c then {} else S) L es"
| "hub_hears d rest S L (Hub_data c piece time # es) =
     (case hub_take (rest c @ piece) of (cs, r) \<Rightarrow>
        case heard_cmds d c S L cs of (ms, S, L) \<Rightarrow> ms @ hub_hears d (rest(c := r)) S L es)"

definition hub_up_ok :: "nat set \<Rightarrow> hub \<Rightarrow> bool" where
  "hub_up_ok C s \<longleftrightarrow> hub_inv s \<and> (\<forall>c\<in>C. contexts s c \<noteq> None) \<and> (\<forall>c. c \<notin> C \<longrightarrow> contexts s c = None \<or> contexts s c = Some [])"

lemma serve_hub_ok:
  assumes find: "crlf_search findFrom"
  shows "hub_up_ok C s \<Longrightarrow> hub_events_ok C es \<Longrightarrow> (\<And>c. buf_inv (bufs c)) \<Longrightarrow> (\<And>c. content (bufs c) = rest c) \<Longrightarrow>
    \<exists>out s'. serve_hub findFrom s bufs es = Some (out, s') \<and> hub_inv s'
      \<and> (\<forall>d. out_to d out = map pub_text (hub_hears d rest (fst (view s d)) (snd (view s d)) es))"
proof (induction es arbitrary: C s bufs rest)
  case (Cons ev es)
  have inv: "hub_inv s" using Cons.prems(1) by (simp add: hub_up_ok_def)
  show ?case
  proof (cases ev)
    case (Hub_up c)
    let ?s = "s\<lparr>contexts := (contexts s)(c \<mapsto> [])\<rparr>"
    have c: "c \<notin> C" "hub_events_ok (insert c C) es" using Cons.prems(2) Hub_up by auto
    have ctx: "contexts s c = None \<or> contexts s c = Some []" using Cons.prems(1) c(1) by (auto simp: hub_up_ok_def split: if_splits)
    have sub: "subscribed ?s d u = subscribed s d u" "last_pub ?s = last_pub s" for d u
      by (simp_all add: subscribed_def last_pub_def fun_eq_iff)
    have "hub_inv ?s" using inv ctx sub by (auto simp: hub_inv_def std_set_def)
    then have ok: "hub_up_ok (insert c C) ?s" using Cons.prems(1) by (auto simp: hub_up_ok_def)
    have "\<exists>out s'. serve_hub findFrom ?s (bufs(c := Buffer_new)) es = Some (out, s') \<and> hub_inv s'
        \<and> (\<forall>d. out_to d out = map pub_text (hub_hears d (rest(c := [])) (fst (view ?s d)) (snd (view ?s d)) es))"
      by (rule Cons.IH [OF ok c(2)]) (use Cons.prems(3,4) in auto)
    then show ?thesis using Hub_up sub by (simp add: hub_onConnection_def view_def)
  next
    case (Hub_down c)
    have c: "c \<in> C" "hub_events_ok (C - {c}) es" using Cons.prems(2) Hub_down by auto
    then have "contexts s c \<noteq> None" using Cons.prems(1) by (auto simp: hub_up_ok_def)
    then obtain s1 where s1: "hub_onConnection s c False = Some s1" "hub_inv s1" "contexts s1 c = Some []"
      "\<forall>x. x \<noteq> c \<longrightarrow> contexts s1 x = contexts s x" "\<And>d. view s1 d = (if d = c then {} else fst (view s d), snd (view s d))"
      using hub_down_ok [OF inv] by blast
    have "contexts s1 x = None \<or> contexts s1 x = Some []" if "x \<notin> C - {c}" for x
      using that s1(3,4) Cons.prems(1) by (cases "x = c") (auto simp: hub_up_ok_def)
    moreover have "contexts s1 x \<noteq> None" if "x \<in> C - {c}" for x
      using that s1(4) Cons.prems(1) by (auto simp: hub_up_ok_def)
    ultimately have ok: "hub_up_ok (C - {c}) s1" using s1(2) by (simp add: hub_up_ok_def)
    obtain out s' where "serve_hub findFrom s1 bufs es = Some (out, s')" "hub_inv s'"
        "\<forall>d. out_to d out = map pub_text (hub_hears d rest (fst (view s1 d)) (snd (view s1 d)) es)"
      using Cons.IH [of "C - {c}" s1 bufs rest] ok c(2) Cons.prems(3,4) by blast
    then show ?thesis using Hub_down s1(1,5) by simp
  next
    case (Hub_data c piece time)
    have c: "c \<in> C" "Timestamp_valid time" "hub_events_ok C es" using Cons.prems(2) Hub_data by auto
    then have ctx: "contexts s c \<noteq> None" using Cons.prems(1) by (auto simp: hub_up_ok_def)
    obtain cs r where t: "hub_take (rest c @ piece) = (cs, r)" by fastforce
    obtain b1 where b1: "readFd (bufs c) (Inr piece) = Some (int (length piece), None, b1)" "buf_inv b1" "content b1 = content (bufs c) @ piece"
      using readFd_ok [OF Cons.prems(3)] .
    obtain o1 s1 where s1: "run_commands s c time cs = Some (o1, s1)" "hub_inv s1" "dom (contexts s1) = dom (contexts s)"
      "\<forall>x. x \<noteq> c \<longrightarrow> contexts s1 x = contexts s x"
      "\<And>d. \<exists>ms. heard_cmds d c (fst (view s d)) (snd (view s d)) cs = (ms, view s1 d) \<and> out_to d o1 = map pub_text ms"
      using run_commands_ok [OF inv ctx c(2), of cs] by blast
    obtain stop b2 where b2: "hub_onMessage findFrom s c time b1 = Some (o1, s1, stop, b2)" "buf_inv b2" "content b2 = r"
      using hub_onMessage_take [OF find b1(2) _ s1(1)] t b1(3) Cons.prems(4) by auto
    have "contexts s1 c \<noteq> None" using s1(3) ctx by blast
    then have ok: "hub_up_ok C s1" using Cons.prems(1) s1(2,4) c(1) unfolding hub_up_ok_def by metis
    have "\<exists>out s'. serve_hub findFrom s1 (bufs(c := b2)) es = Some (out, s') \<and> hub_inv s'
        \<and> (\<forall>d. out_to d out = map pub_text (hub_hears d (rest(c := r)) (fst (view s1 d)) (snd (view s1 d)) es))"
      by (rule Cons.IH [OF ok c(3)]) (use Cons.prems(3,4) b2(2,3) in auto)
    then obtain o2 s2 where o2: "serve_hub findFrom s1 (bufs(c := b2)) es = Some (o2, s2)" "hub_inv s2"
        "\<And>d. out_to d o2 = map pub_text (hub_hears d (rest(c := r)) (fst (view s1 d)) (snd (view s1 d)) es)" by blast
    have "out_to d (o1 @ o2) = map pub_text (hub_hears d rest (fst (view s d)) (snd (view s d)) (ev # es))" for d
    proof -
      obtain ms where ms: "heard_cmds d c (fst (view s d)) (snd (view s d)) cs = (ms, view s1 d)" "out_to d o1 = map pub_text ms"
        using s1(5) [of d] by blast
      then show ?thesis using o2(3) [of d] t Hub_data by (cases "view s1 d") simp
    qed
    then show ?thesis using Hub_data b1(1) b2(1) o2(1,2) by simp
  qed
qed (auto simp: hub_up_ok_def)

text \<open>Topics and contents that were parsed contain no line break.\<close>

lemma no_crlf_sub:
  assumes "\<And>k. k < i \<Longrightarrow> \<not> prefix kCRLF (drop k xs)" "a + length s \<le> i" "s = take (length s) (drop a xs)"
  shows "no_crlf s"
proof (rule ccontr)
  assume "\<not> no_crlf s"
  then obtain k where k: "search_first kCRLF s = Some k" by (auto simp: no_crlf_def)
  note f = search_first_Some [OF k]
  have "prefix kCRLF (drop k s)" using f by (metis take_is_prefix)
  moreover have "prefix (drop k s) (drop (a + k) xs)"
    using assms(3) by (metis add.commute drop_drop drop_take take_is_prefix)
  ultimately have "prefix kCRLF (drop (a + k) xs)" by (rule prefix_order.trans)
  moreover have "a + k < i" using f assms(2) by simp
  ultimately show False using assms(1) by blast
qed

lemma hub_frame_clean:
  assumes "hub_frame xs = Frame (cmd, t, x) n"
  shows "no_crlf t \<and> no_crlf x"
proof -
  obtain i j where i: "search_first kCRLF xs = Some i" and j: "find_char (CHR '' '') (take i xs) = Some j"
    using assms by (auto simp: hub_frame_def split: option.splits)
  have t: "t = take (i - Suc j) (drop (Suc j) xs)"
    using assms i j by (auto simp: hub_frame_def Let_def split: option.splits if_splits)
  have "no_crlf t"
    by (rule no_crlf_sub [of i xs "Suc j"]) (use search_first_least [OF i] t hub_lines(1) [OF i] find_char_less [OF j] in auto)
  moreover have "no_crlf x"
  proof (cases "take j xs = ''pub''")
    case True
    then obtain k where k: "search_first kCRLF (drop (i + 2) xs) = Some k" "x = take k (drop (i + 2) xs)"
      using assms i j by (auto simp: hub_frame_def Let_def split: option.splits)
    show ?thesis
      by (rule no_crlf_sub [of k "drop (i + 2) xs" 0]) (use search_first_least [OF k(1)] k(2) hub_lines(1) [OF k(1)] in auto)
  next
    case False
    then show ?thesis using assms i j by (auto simp: hub_frame_def Let_def no_crlf_def kCRLF_def split: option.splits)
  qed
  ultimately show ?thesis ..
qed

definition clean :: "string \<times> string \<Rightarrow> bool" where
  "clean m \<longleftrightarrow> no_crlf (fst m) \<and> no_crlf (snd m)"

lemma hub_take_clean: "hub_take xs = (cs, r) \<Longrightarrow> m \<in> set cs \<Longrightarrow> clean (snd m)"
proof (induction "length xs" arbitrary: xs cs rule: less_induct)
  case less
  show ?case
  proof (cases xs rule: hubf.decode_cases)
    case (Frame m' n)
    obtain cmd t x where m': "m' = (cmd, t, x)" by (metis prod_cases3)
    obtain cs1 where "hub_take (drop n xs) = (cs1, r)" "cs = m' # cs1"
      using less.prems Frame by (auto simp: hub_take.simps [of xs] split: prod.splits if_splits)
    then show ?thesis
      using less.hyps [of "drop n xs" cs1] less.prems(2) Frame hub_frame_clean [of xs cmd t x n] m' by (auto simp: clean_def)
  qed (use less.prems in \<open>auto simp: hub_take.simps [of xs]\<close>)
qed

lemma heard_cmd_clean:
  assumes "heard_cmd d c S L m = (o1, S1, L1)" "clean (snd m)" "\<And>t x. L t = Some x \<Longrightarrow> clean (t, x)"
  shows "(\<forall>m\<in>set o1. clean m) \<and> (\<forall>t x. L1 t = Some x \<longrightarrow> clean (t, x))"
proof -
  obtain cmd t x where m: "m = (cmd, t, x)" by (metis prod_cases3)
  consider (pub) "cmd = ''pub''" | (sub) "cmd = ''sub''" "c = d" | (unsub) "cmd = ''unsub''" "c = d"
    | (other) "cmd \<noteq> ''pub''" "\<not> (cmd = ''sub'' \<and> c = d)" "\<not> (cmd = ''unsub'' \<and> c = d)" by blast
  then show ?thesis
  proof cases
    case pub
    then have "o1 = (if t \<in> S then [(t, x)] else [])" "L1 = L(t \<mapsto> x)" using assms(1) m by (auto simp: heard_cmd_def)
    then show ?thesis using assms(2,3) m by simp
  next
    case sub
    then have "o1 = (case L t of Some x \<Rightarrow> [(t, x)] | None \<Rightarrow> [])" "L1 = L" using assms(1) m by (auto simp: heard_cmd_def)
    then show ?thesis using assms(3) by (auto split: option.splits)
  next
    case unsub
    then have "o1 = []" "L1 = L" using assms(1) m by (simp_all add: heard_cmd_def)
    then show ?thesis using assms(3) by simp
  next
    case other
    then have "o1 = []" "L1 = L" using assms(1) m unfolding heard_cmd_def by (simp_all split: if_splits)
    then show ?thesis using assms(3) by simp
  qed
qed

lemma heard_cmds_clean:
  "heard_cmds d c S L cs = (ms, S', L') \<Longrightarrow> (\<And>m. m \<in> set cs \<Longrightarrow> clean (snd m)) \<Longrightarrow> (\<And>t x. L t = Some x \<Longrightarrow> clean (t, x)) \<Longrightarrow>
   (\<forall>m\<in>set ms. clean m) \<and> (\<forall>t x. L' t = Some x \<longrightarrow> clean (t, x))"
proof (induction cs arbitrary: S L ms)
  case (Cons m cs)
  obtain o1 S1 L1 where h: "heard_cmd d c S L m = (o1, S1, L1)" by (metis prod_cases3)
  obtain o2 where h2: "heard_cmds d c S1 L1 cs = (o2, S', L')" "ms = o1 @ o2"
    using Cons.prems(1) h by (auto split: prod.splits)
  have m: "clean (snd m)" using Cons.prems(2) by simp
  have 1: "(\<forall>m\<in>set o1. clean m) \<and> (\<forall>t x. L1 t = Some x \<longrightarrow> clean (t, x))"
    by (rule heard_cmd_clean [OF h m Cons.prems(3)])
  have "(\<forall>m\<in>set o2. clean m) \<and> (\<forall>t x. L' t = Some x \<longrightarrow> clean (t, x))"
  proof (rule Cons.IH [OF h2(1)])
    show "clean (snd m)" if "m \<in> set cs" for m using that Cons.prems(2) by simp
    show "clean (t, x)" if "L1 t = Some x" for t x using that 1 by blast
  qed
  with 1 show ?case unfolding h2(2) set_append by blast
qed simp

lemma hub_hears_clean:
  "(\<And>t x. L t = Some x \<Longrightarrow> clean (t, x)) \<Longrightarrow> m \<in> set (hub_hears d rest S L es) \<Longrightarrow> clean m"
proof (induction es arbitrary: rest S L)
  case (Cons ev es)
  show ?case
  proof (cases ev)
    case (Hub_data c piece time)
    obtain cs r where t: "hub_take (rest c @ piece) = (cs, r)" by fastforce
    obtain ms S1 L1 where h: "heard_cmds d c S L cs = (ms, S1, L1)" by (metis prod_cases3)
    note cl = heard_cmds_clean [OF h hub_take_clean [OF t] Cons.prems(1)]
    have "m \<in> set ms \<or> m \<in> set (hub_hears d (rest(c := r)) S1 L1 es)" using Cons.prems(2) Hub_data t h by simp
    then show ?thesis using cl Cons.IH [of L1] by blast
  qed (use Cons in auto)
qed simp

context hub_search
begin

lemma client_reads:
  assumes "\<And>m. m \<in> set ms \<Longrightarrow> clean m" "concat pieces = concat (map pub_text ms)"
  shows "\<exists>b. session (ps_parse findFrom) Buffer_new pieces = Some (map (\<lambda>m. (''pub'', m)) ms, b) \<and> buf_inv b \<and> content b = []"
proof (rule psr.session_roundtrip [where enc = "\<lambda>m. pub_text (snd m)"])
  fix m ys assume "m \<in> set (map (\<lambda>m. (''pub'', m)) ms)"
  then obtain t x where "m = (''pub'', t, x)" "clean (t, x)" using assms(1) by auto
  then show "hub_frame (pub_text (snd m) @ ys) = Frame m (length (pub_text (snd m)))"
    using hub_frame_pub [of t x ys] by (simp add: clean_def)
next
  show "concat pieces = concat (map (\<lambda>m. pub_text (snd m)) (map (\<lambda>m. (''pub'', m)) ms))"
    using assms(2) by (simp add: comp_def)
qed (simp_all add: hub_frame_def kCRLF_def)

end

section \<open>Properties\<close>


definition demo_hub_events :: "hub_event list" where
  "demo_hub_events =
     [Hub_up 1, Hub_up 2, Hub_data 1 (pub_text (''news'', ''old'')) (Timestamp 1), Hub_data 2 (''sub news'' @ [CHR 0x0D]) (Timestamp 2),
      Hub_data 2 [CHR 0x0A] (Timestamp 3), Hub_data 1 (pub_text (''news'', ''new'')) (Timestamp 4), Hub_down 2,
      Hub_data 1 (pub_text (''news'', ''late'')) (Timestamp 5)]"

lemma demo_hub_hears: "hub_hears 2 (\<lambda>c. []) {} Map.empty demo_hub_events = [(''news'', ''old''), (''news'', ''new'')]"
proof -
  have p: "hub_take (pub_text (t, x)) = ([(''pub'', t, x)], [])" if "no_crlf t" "no_crlf x" for t x
  proof -
    have "hub_take [] = ([], [])" by (simp add: hub_take.simps hub_frame_def kCRLF_def)
    moreover have "0 < length (pub_text (t, x))" by (simp add: pub_text_def)
    ultimately show ?thesis
      using hub_frame_pub [OF that, of "[]"] by (simp add: hub_take.simps [of "pub_text (t, x)"] known_cmd_def)
  qed
  have n: "no_crlf ''news''" "no_crlf ''old''" "no_crlf ''new''" "no_crlf ''late''" by (simp_all add: no_crlf_def kCRLF_def)
  have s: "hub_take (''sub news'' @ [CHR 0x0D]) = ([], ''sub news'' @ [CHR 0x0D])"
    by (simp add: hub_take.simps hub_frame_def kCRLF_def)
  have q: "hub_take (''sub news'' @ [CHR 0x0D] @ [CHR 0x0A]) = ([(''sub'', ''news'', [])], [])"
    by (simp add: hub_take.simps hub_frame_def kCRLF_def known_cmd_def)
  show ?thesis using p n s q by (simp add: demo_hub_events_def heard_cmd_def)
qed


text \<open>\<open>PubSubClient::send\<close> reports success without a connection, and sends nothing.\<close>

lemma send_claims_success: "\<not> ps_is_connected p \<Longrightarrow> ps_publish p t x = (True, []) \<and> ps_unsubscribe p t = (True, [])"
  by (simp add: ps_publish_def ps_unsubscribe_def ps_send_def)

end
