(* ===== verification/DancingLinks.thy ===== *)
theory DancingLinks
  imports Prelude
begin

text \<open>
  The search of \<open>SudokuSolver\<close> (\<open>src/excercises/sudoku/sudoku.cc\<close>): Knuth's dancing links. The nodes
  live in the array \<open>nodes_\<close>, so a pointer is an index; each field of \<open>struct Node\<close> is a map from
  indices (one heap per field). Loops that follow links are \<open>partial_function (option)\<close>: a ring that
  does not lead back would be \<^term>\<open>None\<close>, and the lemmas show that it is not.

  \<open>lnk\<close> is a doubly linked path, \<open>columns_ok\<close> says what the vertical rings of the active columns are,
  \<open>links_ok\<close> adds the ring of headers and the horizontal rings of the rows. \<open>unlink\<close> and \<open>relink\<close> are the
  bodies of the inner loops of \<open>cover\<close> and \<open>uncover\<close>. The results: \<open>cover\<close> takes a column and the
  rows that meet it out of the structure, \<open>uncover\<close> after \<open>cover\<close> gives back the very same memory, and
  \<open>solve\<close> always returns, with an exact cover if there is one and with the memory unchanged if there is
  none.
\<close>

record solver =
  nleft :: "nat \<Rightarrow> nat"
  nright :: "nat \<Rightarrow> nat"
  nup :: "nat \<Rightarrow> nat"
  ndown :: "nat \<Rightarrow> nat"
  ncol :: "nat \<Rightarrow> nat"
  nname :: "nat \<Rightarrow> int"
  nsize :: "nat \<Rightarrow> int"
  root :: nat
  inout :: "int list"
  columns :: "int \<Rightarrow> nat option"
  stack :: "nat list"
  cur_node :: nat

section \<open>Operations\<close>

definition put_left :: "nat \<Rightarrow> nat \<Rightarrow> solver \<Rightarrow> solver" where
  "put_left old nnew s =
     (let s = s\<lparr>nleft := (nleft s)(nnew := nleft s old)\<rparr>;
          s = s\<lparr>nright := (nright s)(nnew := old)\<rparr>;
          s = s\<lparr>nright := (nright s)(nleft s old := nnew)\<rparr>
      in s\<lparr>nleft := (nleft s)(old := nnew)\<rparr>)"

definition put_up :: "nat \<Rightarrow> nat \<Rightarrow> solver \<Rightarrow> solver" where
  "put_up old nnew s =
     (let s = s\<lparr>nup := (nup s)(nnew := nup s old)\<rparr>;
          s = s\<lparr>ndown := (ndown s)(nnew := old)\<rparr>;
          s = s\<lparr>ndown := (ndown s)(nup s old := nnew)\<rparr>;
          s = s\<lparr>nup := (nup s)(old := nnew)\<rparr>;
          s = s\<lparr>nsize := (nsize s)(old := nsize s old + 1)\<rparr>
      in s\<lparr>ncol := (ncol s)(nnew := old)\<rparr>)"

text \<open>The body of the inner loop of \<open>cover\<close>, and of that of \<open>uncover\<close>.\<close>

definition unlink :: "nat \<Rightarrow> solver \<Rightarrow> solver" where
  "unlink j s =
     (let s = s\<lparr>nup := (nup s)(ndown s j := nup s j)\<rparr>;
          s = s\<lparr>ndown := (ndown s)(nup s j := ndown s j)\<rparr>
      in s\<lparr>nsize := (nsize s)(ncol s j := nsize s (ncol s j) - 1)\<rparr>)"

definition relink :: "nat \<Rightarrow> solver \<Rightarrow> solver" where
  "relink j s =
     (let s = s\<lparr>nsize := (nsize s)(ncol s j := nsize s (ncol s j) + 1)\<rparr>;
          s = s\<lparr>nup := (nup s)(ndown s j := j)\<rparr>
      in s\<lparr>ndown := (ndown s)(nup s j := j)\<rparr>)"

partial_function (option) cover_row :: "nat \<Rightarrow> nat \<Rightarrow> solver \<Rightarrow> solver option" where
  "cover_row row j s =
     (if j = row then Some s
      else let s = unlink j s in cover_row row (nright s j) s)"

partial_function (option) cover_rows :: "nat \<Rightarrow> nat \<Rightarrow> solver \<Rightarrow> solver option" where
  "cover_rows c row s =
     (if row = c then Some s
      else do { s \<leftarrow> cover_row row (nright s row) s; cover_rows c (ndown s row) s })"

definition hide_column :: "nat \<Rightarrow> solver \<Rightarrow> solver" where
  "hide_column c s =
     (let s = s\<lparr>nleft := (nleft s)(nright s c := nleft s c)\<rparr>
      in s\<lparr>nright := (nright s)(nleft s c := nright s c)\<rparr>)"

definition cover :: "nat \<Rightarrow> solver \<Rightarrow> solver option" where
  "cover c s = (let s = hide_column c s in cover_rows c (ndown s c) s)"

partial_function (option) uncover_row :: "nat \<Rightarrow> nat \<Rightarrow> solver \<Rightarrow> solver option" where
  "uncover_row row j s =
     (if j = row then Some s
      else let s = relink j s in uncover_row row (nleft s j) s)"

partial_function (option) uncover_rows :: "nat \<Rightarrow> nat \<Rightarrow> solver \<Rightarrow> solver option" where
  "uncover_rows c row s =
     (if row = c then Some s
      else do { s \<leftarrow> uncover_row row (nleft s row) s; uncover_rows c (nup s row) s })"

definition unhide_column :: "nat \<Rightarrow> solver \<Rightarrow> solver" where
  "unhide_column c s =
     (let s = s\<lparr>nleft := (nleft s)(nright s c := c)\<rparr>
      in s\<lparr>nright := (nright s)(nleft s c := c)\<rparr>)"

definition uncover :: "nat \<Rightarrow> solver \<Rightarrow> solver option" where
  "uncover c s = do { s \<leftarrow> uncover_rows c (nup s c) s; Some (unhide_column c s) }"

partial_function (option) min_loop :: "solver \<Rightarrow> nat \<Rightarrow> int \<Rightarrow> nat \<Rightarrow> nat option" where
  "min_loop s c min_size cc =
     (if cc = root s then Some c
      else if min_size > nsize s cc then
        if nsize s cc \<le> 1 then Some cc else min_loop s cc (nsize s cc) (nright s cc)
      else min_loop s c min_size (nright s cc))"

definition get_min_column :: "solver \<Rightarrow> nat option" where
  "get_min_column s =
     (let c = nright s (root s); min_size = nsize s c
      in if min_size > 1 then min_loop s c min_size (nright s c) else Some c)"

text \<open>The loops of \<open>solve\<close> over the other nodes of a row.\<close>

partial_function (option) cover_others :: "nat \<Rightarrow> nat \<Rightarrow> solver \<Rightarrow> solver option" where
  "cover_others row j s =
     (if j = row then Some s
      else do { s \<leftarrow> cover (ncol s j) s; cover_others row (nright s j) s })"

partial_function (option) uncover_others :: "nat \<Rightarrow> nat \<Rightarrow> solver \<Rightarrow> solver option" where
  "uncover_others row j s =
     (if j = row then Some s
      else do { s \<leftarrow> uncover (ncol s j) s; uncover_others row (nleft s j) s })"

text \<open>Writing the rows on the stack to the board: \<open>cell\<close> and \<open>val\<close> start as -1.\<close>

partial_function (option) find_names :: "solver \<Rightarrow> nat \<Rightarrow> int \<Rightarrow> int \<Rightarrow> (int \<times> int) option" where
  "find_names s n cell val =
     (if cell = - 1 \<or> val = - 1 then
        if nname s n < 100 then find_names s (nright s n) (nname s n) val
        else find_names s (nright s n) cell (c_mod (nname s n) 10)
      else Some (cell, val))"

fun write_stack :: "nat list \<Rightarrow> solver \<Rightarrow> solver option" where
  "write_stack [] s = Some s"
| "write_stack (n # ns) s = do {
     (cell, val) \<leftarrow> find_names s n (- 1) (- 1);
     ensure (0 \<le> cell \<and> nat cell < length (inout s));
     write_stack ns (s\<lparr>inout := (inout s)[nat cell := val]\<rparr>)
   }"

text \<open>
  \<open>solve_at None\<close> is a call of \<open>solve\<close>, \<open>solve_at (Some (col, row))\<close> the head of its loop over the rows of the
  chosen column.
\<close>

partial_function (option) solve_at :: "(nat \<times> nat) option \<Rightarrow> solver \<Rightarrow> (bool \<times> solver) option" where
  "solve_at at s =
     (case at of
        None \<Rightarrow>
          if nleft s (root s) = root s
          then do { s \<leftarrow> write_stack (stack s) s; Some (True, s) }
          else do {
            col \<leftarrow> get_min_column s;
            s \<leftarrow> cover col s;
            solve_at (Some (col, ndown s col)) s
          }
      | Some (col, row) \<Rightarrow>
          if row = col then do { s \<leftarrow> uncover col s; Some (False, s) }
          else do {
            let s = s\<lparr>stack := stack s @ [row]\<rparr>;
            s \<leftarrow> cover_others row (nright s row) s;
            (solved, s) \<leftarrow> solve_at None s;
            if solved then Some (True, s)
            else do {
              let s = s\<lparr>stack := butlast (stack s)\<rparr>;
              s \<leftarrow> uncover_others row (nleft s row) s;
              solve_at (Some (col, ndown s row)) s
            }
          })"

definition solve :: "solver \<Rightarrow> (bool \<times> solver) option" where
  "solve s = solve_at None s"

section \<open>Doubly linked paths\<close>

fun lnk :: "(nat \<Rightarrow> nat) \<Rightarrow> (nat \<Rightarrow> nat) \<Rightarrow> nat \<Rightarrow> nat list \<Rightarrow> nat \<Rightarrow> bool" where
  "lnk f g a [] b \<longleftrightarrow> f a = b \<and> g b = a"
| "lnk f g a (x # xs) b \<longleftrightarrow> f a = x \<and> g x = a \<and> lnk f g x xs b"

lemma lnk_append [simp]: "lnk f g a (xs @ y # ys) b \<longleftrightarrow> lnk f g a xs y \<and> lnk f g y ys b"
  by (induction xs arbitrary: a) auto

lemma lnk_cong:
  "lnk f g a xs b \<Longrightarrow> (\<And>x. x \<in> insert a (set xs) \<Longrightarrow> f' x = f x) \<Longrightarrow>
   (\<And>x. x \<in> insert b (set xs) \<Longrightarrow> g' x = g x) \<Longrightarrow> lnk f' g' a xs b"
  by (induction xs arbitrary: a) auto

lemma lnk_first: "lnk f g a xs b \<Longrightarrow> f a = hd (xs @ [b])"
  by (cases xs) auto

lemma lnk_last: "lnk f g a xs b \<Longrightarrow> g b = last (a # xs)"
  by (induction xs arbitrary: a) auto

lemma lnk_mem:
  "lnk f g a xs b \<Longrightarrow> x \<in> set xs \<Longrightarrow> f x \<in> insert b (set xs) \<and> g x \<in> insert a (set xs)"
proof (induction xs arbitrary: a)
  case (Cons y ys)
  then have "f y \<in> insert b (set ys)" using lnk_first [of f g y ys b] by (cases ys) auto
  with Cons show ?case by auto
qed simp

lemma lnk_inverse:
  "lnk f g a xs b \<Longrightarrow> x \<in> set xs \<Longrightarrow> g (f x) = x \<and> f (g x) = x"
proof (induction xs arbitrary: a)
  case (Cons y ys)
  then show ?case by (cases ys) auto
qed simp

lemma lnk_remove:
  assumes l: "lnk f g a (xs @ j # ys) b" and d: "distinct (a # xs @ [j] @ ys)" "b \<notin> set xs" "b \<notin> set ys" "b \<noteq> j"
  shows "lnk (f(g j := f j)) (g(f j := g j)) a (xs @ ys) b"
proof -
  have l1: "lnk f g a xs j" and l2: "lnk f g j ys b" using l by auto
  have gj: "g j = last (a # xs)" and fj: "f j = hd (ys @ [b])" using l1 l2 by (auto simp: lnk_last lnk_first)
  show ?thesis
  proof (cases ys)
    case Nil
    show ?thesis
    proof (cases xs rule: rev_cases)
      case Nil
      with \<open>ys = []\<close> gj fj show ?thesis by simp
    next
      case (snoc us u)
      have "lnk f g a us u" using l1 snoc by simp
      then have "lnk (f(u := b)) (g(b := u)) a us u"
        by (rule lnk_cong) (use d snoc \<open>ys = []\<close> in auto)
      with snoc \<open>ys = []\<close> gj fj show ?thesis by simp
    qed
  next
    case (Cons y zs)
    have a2: "lnk f g y zs b" using l2 Cons by simp
    show ?thesis
    proof (cases xs rule: rev_cases)
      case Nil
      have "lnk (f(a := y)) (g(y := a)) y zs b"
        by (rule lnk_cong [OF a2]) (use d Cons Nil in auto)
      with Nil Cons gj fj show ?thesis by simp
    next
      case (snoc us u)
      have "lnk (f(u := y)) (g(y := u)) a us u"
        by (rule lnk_cong [of f g]) (use l1 d snoc Cons in auto)
      moreover have "lnk (f(u := y)) (g(y := u)) y zs b"
        by (rule lnk_cong [OF a2]) (use d snoc Cons in auto)
      ultimately show ?thesis using snoc Cons gj fj by simp
    qed
  qed
qed

section \<open>The vertical rings\<close>

definition column_ok :: "solver \<Rightarrow> nat \<Rightarrow> nat list \<Rightarrow> bool" where
  "column_ok s c ns \<longleftrightarrow>
     lnk (ndown s) (nup s) c ns c \<and> distinct (c # ns) \<and> ncol s c = c \<and> (\<forall>n\<in>set ns. ncol s n = c) \<and>
     nsize s c = int (length ns)"

definition columns_ok :: "solver \<Rightarrow> nat set \<Rightarrow> (nat \<Rightarrow> nat list) \<Rightarrow> bool" where
  "columns_ok s C V \<longleftrightarrow> (\<forall>c\<in>C. column_ok s c (V c))"

definition linked :: "solver \<Rightarrow> nat \<Rightarrow> bool" where
  "linked s j \<longleftrightarrow> nup s (ndown s j) = j \<and> ndown s (nup s j) = j \<and> nup s j \<noteq> j \<and> ndown s j \<noteq> j"

lemma unlink_sel [simp]:
  "nleft (unlink j s) = nleft s" "nright (unlink j s) = nright s" "ncol (unlink j s) = ncol s"
  "nname (unlink j s) = nname s" "root (unlink j s) = root s" "inout (unlink j s) = inout s"
  "columns (unlink j s) = columns s" "stack (unlink j s) = stack s" "cur_node (unlink j s) = cur_node s"
  "nup (unlink j s) = (nup s)(ndown s j := nup s j)"
  "ndown (unlink j s) = (ndown s)(nup s j := ndown s j)"
  "nsize (unlink j s) = (nsize s)(ncol s j := nsize s (ncol s j) - 1)"
  by (simp_all add: unlink_def Let_def)

lemma relink_unlink: "linked s j \<Longrightarrow> relink j (unlink j s) = s"
  by (intro solver.equality ext) (auto simp: relink_def Let_def linked_def)

lemma column_ok_split:
  assumes "column_ok s c (xs @ j # ys)"
  shows "nup s j = last (c # xs)" "ndown s j = hd (ys @ [c])" "linked s j"
proof -
  have l: "lnk (ndown s) (nup s) c xs j" "lnk (ndown s) (nup s) j ys c"
    and d: "distinct (c # xs @ j # ys)"
    using assms by (auto simp: column_ok_def)
  show up: "nup s j = last (c # xs)" and down: "ndown s j = hd (ys @ [c])"
    using lnk_last [OF l(1)] lnk_first [OF l(2)] by auto
  have "last (c # xs) \<in> insert c (set xs)" "hd (ys @ [c]) \<in> insert c (set ys)"
    by (auto simp: hd_append)
  with up down d have "nup s j \<noteq> j" "ndown s j \<noteq> j" by auto
  moreover have "nup s (ndown s j) = j \<and> ndown s (nup s j) = j"
    using lnk_inverse [of "ndown s" "nup s" c "xs @ j # ys" c j] l by simp
  ultimately show "linked s j" by (simp add: linked_def)
qed

lemma column_ok_linked: "column_ok s c ns \<Longrightarrow> j \<in> set ns \<Longrightarrow> linked s j"
  by (auto dest!: split_list intro: column_ok_split)

lemma column_ok_unlink:
  assumes ok: "column_ok s c ns" and j: "j \<in> set ns"
  shows "column_ok (unlink j s) c (remove1 j ns)"
proof -
  obtain xs ys where ns: "ns = xs @ j # ys" "j \<notin> set xs" using split_list_first [OF j] by auto
  have d: "distinct (c # xs @ [j] @ ys)" using ok ns by (auto simp: column_ok_def)
  have "lnk ((ndown s)(nup s j := ndown s j)) ((nup s)(ndown s j := nup s j)) c (xs @ ys) c"
    by (rule lnk_remove) (use ok ns d in \<open>auto simp: column_ok_def\<close>)
  with ok ns d j show ?thesis by (auto simp: column_ok_def remove1_append)
qed

lemma column_ok_unlink_other:
  assumes ok: "column_ok s c ns" and ok': "column_ok s d ms" and j: "j \<in> set ms" and cd: "c \<noteq> d"
  shows "column_ok (unlink j s) c ns"
proof -
  have "ndown s j \<in> insert d (set ms)" "nup s j \<in> insert d (set ms)"
    using lnk_mem [of "ndown s" "nup s" d ms d j] ok' j by (auto simp: column_ok_def)
  then have "ncol s (ndown s j) = d" "ncol s (nup s j) = d" "ncol s j = d" using ok' j by (auto simp: column_ok_def)
  then have n: "x \<in> insert c (set ns) \<Longrightarrow> ndown s j \<noteq> x \<and> nup s j \<noteq> x" "ncol s j \<noteq> c" for x
    using ok cd by (auto simp: column_ok_def)
  have "lnk (ndown (unlink j s)) (nup (unlink j s)) c ns c"
    by (rule lnk_cong [of "ndown s" "nup s"]) (use ok n in \<open>auto simp: column_ok_def\<close>)
  with ok n show ?thesis by (auto simp: column_ok_def)
qed

lemma columns_ok_unlink:
  assumes "columns_ok s C V" "ncol s j \<in> C" "j \<in> set (V (ncol s j))"
  shows "columns_ok (unlink j s) C (\<lambda>d. filter (\<lambda>n. n \<noteq> j) (V d))"
  unfolding columns_ok_def
proof
  fix c assume c: "c \<in> C"
  have ok: "column_ok s c (V c)" "column_ok s (ncol s j) (V (ncol s j))" using assms c by (auto simp: columns_ok_def)
  show "column_ok (unlink j s) c (filter (\<lambda>n. n \<noteq> j) (V c))"
  proof (cases "c = ncol s j")
    case True
    have "distinct (V c)" using ok by (auto simp: column_ok_def)
    then have "filter (\<lambda>n. n \<noteq> j) (V c) = remove1 j (V c)" by (simp add: distinct_remove1_removeAll removeAll_filter_not_eq) metis
    with column_ok_unlink [OF ok(2) assms(3)] True show ?thesis by simp
  next
    case False
    then have "j \<notin> set (V c)" using ok by (auto simp: column_ok_def)
    then have "filter (\<lambda>n. n \<noteq> j) (V c) = V c" by (auto simp: filter_id_conv)
    with column_ok_unlink_other [OF ok assms(3) False] show ?thesis by simp
  qed
qed

lemma relink_sel [simp]:
  "nleft (relink j s) = nleft s" "nright (relink j s) = nright s" "ncol (relink j s) = ncol s"
  by (simp_all add: relink_def Let_def)

lemma fold_unlink_sel [simp]:
  "nleft (fold unlink js s) = nleft s" "nright (fold unlink js s) = nright s" "ncol (fold unlink js s) = ncol s"
  "nname (fold unlink js s) = nname s" "root (fold unlink js s) = root s" "inout (fold unlink js s) = inout s"
  "columns (fold unlink js s) = columns s" "stack (fold unlink js s) = stack s"
  "cur_node (fold unlink js s) = cur_node s"
  by (induction js arbitrary: s) simp_all

lemma fold_unlink:
  assumes "columns_ok s C V" "distinct js" "\<And>j. j \<in> set js \<Longrightarrow> ncol s j \<in> C \<and> j \<in> set (V (ncol s j))"
  shows "columns_ok (fold unlink js s) C (\<lambda>d. filter (\<lambda>n. n \<notin> set js) (V d)) \<and>
         fold relink (rev js) (fold unlink js s) = s"
  using assms
proof (induction js arbitrary: s V)
  case Nil
  then show ?case by simp
next
  case (Cons j js)
  have j: "ncol s j \<in> C" "j \<in> set (V (ncol s j))" using Cons.prems(3) [of j] by auto
  have ok: "column_ok s (ncol s j) (V (ncol s j))" using Cons.prems(1) j by (simp add: columns_ok_def)
  have "columns_ok (unlink j s) C (\<lambda>d. filter (\<lambda>n. n \<noteq> j) (V d))"
    by (rule columns_ok_unlink [OF Cons.prems(1) j])
  from Cons.IH [OF this] have IH:
    "columns_ok (fold unlink js (unlink j s)) C (\<lambda>d. filter (\<lambda>n. n \<notin> set js) (filter (\<lambda>n. n \<noteq> j) (V d)))"
    "fold relink (rev js) (fold unlink js (unlink j s)) = unlink j s"
    using Cons.prems by auto
  have f: "filter (\<lambda>n. n \<notin> set js) (filter (\<lambda>n. n \<noteq> j) (V d)) = filter (\<lambda>n. n \<notin> set (j # js)) (V d)" for d
    by (simp add: conj_commute)
  have "relink j (unlink j s) = s" by (rule relink_unlink [OF column_ok_linked [OF ok j(2)]])
  with IH f show ?case by simp
qed

section \<open>The loops over a row\<close>

lemma cover_row_fold:
  "lnk (nright s) g a js row \<Longrightarrow> row \<notin> set js \<Longrightarrow> cover_row row (nright s a) s = Some (fold unlink js s)"
proof (induction js arbitrary: a s)
  case Nil
  then show ?case by (simp add: cover_row.simps)
next
  case (Cons j js)
  have "cover_row row (nright (unlink j s) j) (unlink j s) = Some (fold unlink js (unlink j s))"
    by (rule Cons.IH) (use Cons.prems in auto)
  with Cons.prems show ?case by (subst cover_row.simps) (auto simp: Let_def)
qed

lemma uncover_row_fold:
  "lnk f (nleft t) row js b \<Longrightarrow> row \<notin> set js \<Longrightarrow> uncover_row row (nleft t b) t = Some (fold relink (rev js) t)"
proof (induction js arbitrary: b t rule: rev_induct)
  case Nil
  then show ?case by (simp add: uncover_row.simps)
next
  case (snoc j js)
  have "uncover_row row (nleft (relink j t) j) (relink j t) = Some (fold relink (rev js) (relink j t))"
    by (rule snoc.IH) (use snoc.prems in auto)
  with snoc.prems show ?case by (subst uncover_row.simps) (auto simp: Let_def)
qed

section \<open>Rows of four nodes\<close>

text \<open>
  \<open>R\<close> is the successor of a node in its row, which never changes; \<open>others R n\<close> are the nodes that the
  loops from \<open>n\<close> to the right visit, in their order.
\<close>

definition others :: "(nat \<Rightarrow> nat) \<Rightarrow> nat \<Rightarrow> nat list" where
  "others R n = [R n, R (R n), R (R (R n))]"

definition row_ok :: "(nat \<Rightarrow> nat) \<Rightarrow> solver \<Rightarrow> nat \<Rightarrow> bool" where
  "row_ok R s n \<longleftrightarrow> R (R (R (R n))) = n \<and> distinct (map (ncol s) (n # others R n)) \<and>
     nright s n = R n \<and> nleft s (R n) = n"

definition rows_ok :: "(nat \<Rightarrow> nat) \<Rightarrow> solver \<Rightarrow> nat set \<Rightarrow> (nat \<Rightarrow> nat list) \<Rightarrow> bool" where
  "rows_ok R s C V \<longleftrightarrow>
     (\<forall>c\<in>C. \<forall>n\<in>set (V c). row_ok R s n \<and> ncol s (R n) \<in> C \<and> R n \<in> set (V (ncol s (R n))))"

lemma rows_okD:
  assumes "rows_ok R s C V" "c \<in> C" "n \<in> set (V c)"
  shows "row_ok R s n" "ncol s (R n) \<in> C" "R n \<in> set (V (ncol s (R n)))"
  using assms by (auto simp: rows_ok_def)

lemma others_active:
  assumes r: "rows_ok R s C V" "c \<in> C" "n \<in> set (V c)" and j: "j \<in> set (others R n)"
  shows "ncol s j \<in> C" "j \<in> set (V (ncol s j))" "ncol s j \<noteq> ncol s n" "row_ok R s j"
    "set (others R j) \<union> {j} = set (others R n) \<union> {n}"
proof -
  note n1 = rows_okD [OF r]
  note n2 = rows_okD [OF r(1) n1(2,3)]
  note n3 = rows_okD [OF r(1) n2(2,3)]
  note n4 = rows_okD [OF r(1) n3(2,3)]
  have id: "R (R (R (R n))) = n" and d: "ncol s n \<notin> set (map (ncol s) (others R n))"
    using n1(1) by (auto simp: row_ok_def)
  consider "j = R n" | "j = R (R n)" | "j = R (R (R n))" using j by (auto simp: others_def)
  note cases = this
  show "ncol s j \<in> C" "j \<in> set (V (ncol s j))" "row_ok R s j"
    using cases n1 n2 n3 n4 by (cases; simp)+
  show "ncol s j \<noteq> ncol s n" using imageI [OF j, of "ncol s"] d by auto
  show "set (others R j) \<union> {j} = set (others R n) \<union> {n}"
    by (rule cases) (simp_all add: others_def id insert_commute)
qed

lemma row_lnk:
  assumes r: "rows_ok R s C V" "c \<in> C" "n \<in> set (V c)"
  shows "lnk (nright s) (nleft s) n (others R n) n" "n \<notin> set (others R n)" "distinct (others R n)"
proof -
  have "row_ok R s (R n)" "row_ok R s (R (R n))" "row_ok R s (R (R (R n)))" "row_ok R s n"
    using others_active(4) [OF r] rows_okD(1) [OF r] by (simp_all add: others_def)
  then show "lnk (nright s) (nleft s) n (others R n) n" by (simp add: others_def row_ok_def)
  have "distinct (map (ncol s) (n # others R n))" using rows_okD(1) [OF r] by (simp add: row_ok_def)
  then show "n \<notin> set (others R n)" "distinct (others R n)" by (auto simp: distinct_map)
qed

definition partners :: "(nat \<Rightarrow> nat) \<Rightarrow> nat list \<Rightarrow> nat list" where
  "partners R ns = concat (map (others R) ns)"

lemma partners_simps [simp]:
  "partners R [] = []" "partners R (n # ns) = others R n @ partners R ns"
  "partners R (ns @ ms) = partners R ns @ partners R ms"
  by (simp_all add: partners_def)

lemma partners_mem: "j \<in> set (partners R ns) \<longleftrightarrow> (\<exists>n\<in>set ns. j \<in> set (others R n))"
  by (auto simp: partners_def)

lemma others_disjoint:
  assumes r: "rows_ok R s C V" "c \<in> C" "n \<in> set (V c)" "m \<in> set (V c)" and c: "ncol s n = c" "ncol s m = c"
    and j: "j \<in> set (others R n)" "j \<in> set (others R m)"
  shows "n = m"
proof (rule ccontr)
  assume "n \<noteq> m"
  have "set (others R n) \<union> {n} = set (others R m) \<union> {m}"
    using others_active(5) [OF r(1,2,3) j(1)] others_active(5) [OF r(1,2,4) j(2)] by simp
  with \<open>n \<noteq> m\<close> have "m \<in> set (others R n)" by auto
  from others_active(3) [OF r(1,2,3) this] c show False by simp
qed

lemma partners_ok:
  assumes c: "columns_ok s C V" and r: "rows_ok R s C V" "c \<in> C" and ns: "distinct ns" "set ns \<subseteq> set (V c)"
  shows "distinct (partners R ns)"
    "\<And>j. j \<in> set (partners R ns) \<Longrightarrow> ncol s j \<in> C \<and> j \<in> set (V (ncol s j)) \<and> ncol s j \<noteq> c"
proof -
  have cc: "n \<in> set (V c) \<Longrightarrow> ncol s n = c" for n
    using c r(2) by (auto simp: columns_ok_def column_ok_def)
  show "distinct (partners R ns)" using ns
  proof (induction ns)
    case (Cons n ns)
    have "j \<notin> set (partners R ns)" if j: "j \<in> set (others R n)" for j
    proof
      assume "j \<in> set (partners R ns)"
      then obtain m where m: "m \<in> set ns" "j \<in> set (others R m)" by (auto simp: partners_mem)
      have nm: "n \<in> set (V c)" "m \<in> set (V c)" using Cons.prems m by auto
      from others_disjoint [OF r nm cc [OF nm(1)] cc [OF nm(2)] j m(2)] Cons.prems m show False by simp
    qed
    then have "set (others R n) \<inter> set (partners R ns) = {}" by auto
    with Cons row_lnk(3) [OF r, of n] show ?case by auto
  qed simp
  show "\<And>j. j \<in> set (partners R ns) \<Longrightarrow> ncol s j \<in> C \<and> j \<in> set (V (ncol s j)) \<and> ncol s j \<noteq> c"
  proof -
    fix j assume "j \<in> set (partners R ns)"
    then obtain n where n: "n \<in> set ns" "j \<in> set (others R n)" by (auto simp: partners_mem)
    with ns have nc: "n \<in> set (V c)" by auto
    from others_active [OF r nc n(2)] cc [OF nc] show "ncol s j \<in> C \<and> j \<in> set (V (ncol s j)) \<and> ncol s j \<noteq> c" by simp
  qed
qed

section \<open>Cover and uncover\<close>

lemma unlink_partners:
  assumes c: "columns_ok s C V" and r: "rows_ok R s C V" "c \<in> C" and ns: "distinct (ns @ ms)" "set (ns @ ms) \<subseteq> set (V c)"
  shows "columns_ok (fold unlink (partners R ns) s) C (\<lambda>d. filter (\<lambda>n. n \<notin> set (partners R ns)) (V d))"
    "column_ok (fold unlink (partners R ns) s) c (V c)"
    "fold relink (rev (partners R ms)) (fold unlink (partners R (ns @ ms)) s) = fold unlink (partners R ns) s"
proof -
  note p = partners_ok [OF c r, of "ns @ ms", OF ns]
  have pn: "distinct (partners R ns)" "distinct (partners R ms)" "set (partners R ns) \<inter> set (partners R ms) = {}"
    using p(1) by simp_all
  show c': "columns_ok (fold unlink (partners R ns) s) C (\<lambda>d. filter (\<lambda>n. n \<notin> set (partners R ns)) (V d))"
    using fold_unlink [OF c pn(1)] p(2) by simp
  have "filter (\<lambda>n. n \<notin> set (partners R ns)) (V c) = V c"
  proof (rule filter_True, rule ballI, rule notI)
    fix x assume x: "x \<in> set (V c)" "x \<in> set (partners R ns)"
    with c r(2) have "ncol s x = c" by (auto simp: columns_ok_def column_ok_def)
    with p(2) [of x] x show False by simp
  qed
  with c' r(2) show "column_ok (fold unlink (partners R ns) s) c (V c)" by (auto simp: columns_ok_def)
  have "fold relink (rev (partners R ms)) (fold unlink (partners R ms) (fold unlink (partners R ns) s))
      = fold unlink (partners R ns) s"
    using fold_unlink [OF c' pn(2)] p(2) pn(3) by auto
  then show "fold relink (rev (partners R ms)) (fold unlink (partners R (ns @ ms)) s) = fold unlink (partners R ns) s"
    by simp
qed

lemma rows_ok_cong:
  "rows_ok R s C V \<Longrightarrow> ncol t = ncol s \<Longrightarrow>
   (\<And>c n. c \<in> C \<Longrightarrow> n \<in> set (V c) \<Longrightarrow> nright t n = nright s n \<and> nleft t (R n) = nleft s (R n)) \<Longrightarrow>
   rows_ok R t C V"
  by (auto simp: rows_ok_def row_ok_def)

lemma rows_ok_fold [simp]: "rows_ok R (fold unlink js s) C V = rows_ok R s C V"
  by (auto simp: rows_ok_def row_ok_def)

lemma cover_rows_fold:
  assumes c: "columns_ok s C V" and r: "rows_ok R s C V" "c \<in> C"
  shows "V c = xs @ ys \<Longrightarrow>
    cover_rows c (hd (ys @ [c])) (fold unlink (partners R xs) s) = Some (fold unlink (partners R (V c)) s)"
proof (induction ys arbitrary: xs)
  case Nil
  then show ?case by (simp add: cover_rows.simps)
next
  case (Cons y ys)
  let ?t = "fold unlink (partners R xs) s"
  let ?t' = "fold unlink (partners R (xs @ [y])) s"
  have d: "distinct (c # V c)" using c r(2) by (auto simp: columns_ok_def column_ok_def)
  have y: "y \<in> set (V c)" "y \<noteq> c" using Cons.prems d by auto
  have "rows_ok R ?t C V" using r(1) by simp
  note l = row_lnk [OF this r(2) y(1)]
  have 1: "cover_row y (nright ?t y) ?t = Some ?t'"
    using cover_row_fold [OF l(1,2)] by simp
  have "column_ok ?t' c (V c)"
    by (rule unlink_partners(2) [OF c r, where ms = ys]) (use Cons.prems d in auto)
  then have "ndown ?t' y = hd (ys @ [c])" using Cons.prems column_ok_split(2) [of ?t' c xs y ys] by simp
  with Cons.IH [of "xs @ [y]"] Cons.prems have "cover_rows c (ndown ?t' y) ?t' = Some (fold unlink (partners R (V c)) s)"
    by simp
  with 1 y show ?case by (subst cover_rows.simps) simp
qed

lemma uncover_rows_fold:
  assumes c: "columns_ok s C V" and r: "rows_ok R s C V" "c \<in> C"
  shows "V c = xs @ ys \<Longrightarrow> uncover_rows c (last (c # xs)) (fold unlink (partners R xs) s) = Some s"
proof (induction xs arbitrary: ys rule: rev_induct)
  case Nil
  then show ?case by (simp add: uncover_rows.simps)
next
  case (snoc x xs)
  let ?t = "fold unlink (partners R xs) s"
  let ?t' = "fold unlink (partners R (xs @ [x])) s"
  have d: "distinct (c # V c)" using c r(2) by (auto simp: columns_ok_def column_ok_def)
  have x: "x \<in> set (V c)" "x \<noteq> c" using snoc.prems d by auto
  have "rows_ok R ?t' C V" using r(1) by simp
  note l = row_lnk [OF this r(2) x(1)]
  have "fold relink (rev (partners R [x])) ?t' = ?t"
    by (rule unlink_partners(3) [OF c r]) (use snoc.prems d in auto)
  then have 1: "uncover_row x (nleft ?t' x) ?t' = Some ?t" using uncover_row_fold [OF l(1,2)] by simp
  have "column_ok ?t c (V c)"
    by (rule unlink_partners(2) [OF c r, where ms = "x # ys"]) (use snoc.prems d in auto)
  then have "nup ?t x = last (c # xs)" using snoc.prems column_ok_split(1) [of ?t c xs x ys] by simp
  with snoc.IH [of "x # ys"] snoc.prems have "uncover_rows c (nup ?t x) ?t = Some s" by simp
  with 1 x show ?case by (subst uncover_rows.simps) simp
qed

section \<open>The invariant of the links\<close>

definition links_ok :: "(nat \<Rightarrow> nat) \<Rightarrow> solver \<Rightarrow> nat list \<Rightarrow> (nat \<Rightarrow> nat list) \<Rightarrow> bool" where
  "links_ok R s hs V \<longleftrightarrow>
     distinct (root s # hs) \<and> lnk (nright s) (nleft s) (root s) hs (root s) \<and> ncol s (root s) = root s \<and>
     columns_ok s (set hs) V \<and> rows_ok R s (set hs) V"

definition row_cols :: "(nat \<Rightarrow> nat) \<Rightarrow> (nat \<Rightarrow> nat) \<Rightarrow> nat \<Rightarrow> nat set" where
  "row_cols R K n = K ` set (n # others R n)"

text \<open>The rows that meet none of the columns \<open>cs\<close>.\<close>

definition avoiding :: "(nat \<Rightarrow> nat) \<Rightarrow> (nat \<Rightarrow> nat) \<Rightarrow> nat set \<Rightarrow> (nat \<Rightarrow> nat list) \<Rightarrow> nat \<Rightarrow> nat list" where
  "avoiding R K cs V d = filter (\<lambda>n. row_cols R K n \<inter> cs = {}) (V d)"

text \<open>What \<open>cover\<close> changes is the links: the rest of the object and the links of rows stay.\<close>

definition frame :: "solver \<Rightarrow> solver \<Rightarrow> bool" where
  "frame s t \<longleftrightarrow> ncol t = ncol s \<and> nname t = nname s \<and> root t = root s \<and> inout t = inout s \<and>
     columns t = columns s \<and> stack t = stack s \<and> cur_node t = cur_node s \<and>
     (\<forall>n. ncol s n \<noteq> n \<longrightarrow> nright t n = nright s n \<and> nleft t n = nleft s n)"

lemma frame_refl [simp]: "frame s s"
  by (simp add: frame_def)

lemma frame_trans: "frame s t \<Longrightarrow> frame t u \<Longrightarrow> frame s u"
  by (simp add: frame_def)

lemma hide_column_sel [simp]:
  "nup (hide_column c s) = nup s" "ndown (hide_column c s) = ndown s" "ncol (hide_column c s) = ncol s"
  "nname (hide_column c s) = nname s" "nsize (hide_column c s) = nsize s" "root (hide_column c s) = root s"
  "inout (hide_column c s) = inout s" "columns (hide_column c s) = columns s"
  "stack (hide_column c s) = stack s" "cur_node (hide_column c s) = cur_node s"
  "nleft (hide_column c s) = (nleft s)(nright s c := nleft s c)"
  "nright (hide_column c s) = (nright s)(nleft s c := nright s c)"
  by (simp_all add: hide_column_def Let_def)

lemma unhide_hide:
  "nleft s (nright s c) = c \<Longrightarrow> nright s (nleft s c) = c \<Longrightarrow> nright s c \<noteq> c \<Longrightarrow> nleft s c \<noteq> c \<Longrightarrow>
   unhide_column c (hide_column c s) = s"
  by (intro solver.equality ext) (auto simp: unhide_column_def Let_def)

lemma columns_ok_hide [simp]: "columns_ok (hide_column c s) C V = columns_ok s C V"
  by (simp add: columns_ok_def column_ok_def)

lemma ring_neighbours:
  assumes "lnk f g r hs r" "distinct (r # hs)" "c \<in> set hs"
  shows "f c \<in> insert r (set hs)" "g c \<in> insert r (set hs)" "f c \<noteq> c" "g c \<noteq> c" "g (f c) = c" "f (g c) = c"
proof -
  show "f c \<in> insert r (set hs)" "g c \<in> insert r (set hs)" using lnk_mem [OF assms(1,3)] by auto
  show "g (f c) = c" "f (g c) = c" using lnk_inverse [OF assms(1,3)] by auto
  obtain xs ys where hs: "hs = xs @ c # ys" using split_list [OF assms(3)] by auto
  have l: "lnk f g r xs c" "lnk f g c ys r" using assms(1) hs by auto
  have "last (r # xs) \<in> insert r (set xs)" "hd (ys @ [r]) \<in> insert r (set ys)" by (auto simp: hd_append)
  with lnk_last [OF l(1)] lnk_first [OF l(2)] assms(2) hs show "f c \<noteq> c" "g c \<noteq> c" by auto
qed

lemma header_col:
  "links_ok R s hs V \<Longrightarrow> x \<in> insert (root s) (set hs) \<Longrightarrow> ncol s x = x"
  by (auto simp: links_ok_def columns_ok_def column_ok_def)

lemma node_col:
  "links_ok R s hs V \<Longrightarrow> d \<in> set hs \<Longrightarrow> n \<in> set (V d) \<Longrightarrow> ncol s n = d \<and> n \<noteq> d"
  by (auto simp: links_ok_def columns_ok_def column_ok_def)

lemma hide_frame:
  assumes "links_ok R s hs V" "c \<in> set hs"
  shows "frame s (hide_column c s)" "rows_ok R (hide_column c s) (set hs) V"
    "unhide_column c (hide_column c s) = s"
proof -
  have "lnk (nright s) (nleft s) (root s) hs (root s)" "distinct (root s # hs)" using assms by (auto simp: links_ok_def)
  note nb = ring_neighbours [OF this assms(2)]
  show "unhide_column c (hide_column c s) = s" by (rule unhide_hide) (use nb in auto)
  have h: "ncol s (nright s c) = nright s c" "ncol s (nleft s c) = nleft s c"
    using header_col [OF assms(1)] nb by auto
  then show "frame s (hide_column c s)" by (auto simp: frame_def)
  show "rows_ok R (hide_column c s) (set hs) V"
  proof (rule rows_ok_cong [of R s])
    fix d n assume d: "d \<in> set hs" "n \<in> set (V d)"
    have "rows_ok R s (set hs) V" using assms by (simp add: links_ok_def)
    note r = rows_okD [OF this d]
    have "ncol s n \<noteq> n" using node_col [OF assms(1) d] by auto
    moreover have "ncol s (R n) \<noteq> R n" using node_col [OF assms(1) r(2,3)] by metis
    ultimately show "nright (hide_column c s) n = nright s n \<and> nleft (hide_column c s) (R n) = nleft s (R n)"
      using h by auto
  qed (use assms in \<open>auto simp: links_ok_def\<close>)
qed

text \<open>What \<open>cover\<close> computes when column \<open>c\<close> holds the nodes \<open>ns\<close>.\<close>

definition covered :: "(nat \<Rightarrow> nat) \<Rightarrow> nat list \<Rightarrow> nat \<Rightarrow> solver \<Rightarrow> solver" where
  "covered R ns c s = fold unlink (partners R ns) (hide_column c s)"

lemma covered_frame:
  "links_ok R s hs V \<Longrightarrow> c \<in> set hs \<Longrightarrow> frame s (covered R (V c) c s)"
  using hide_frame(1) [of R s hs V c] by (simp add: covered_def frame_def)

theorem cover_uncover:
  assumes ok: "links_ok R s hs V" and c: "c \<in> set hs"
  shows "cover c s = Some (covered R (V c) c s)" "uncover c (covered R (V c) c s) = Some s"
    "column_ok (covered R (V c) c s) c (V c)"
proof -
  let ?h = "hide_column c s"
  have co: "columns_ok ?h (set hs) V" and d: "distinct (V c)"
    using ok c by (auto simp: links_ok_def columns_ok_def column_ok_def)
  note r = hide_frame(2) [OF ok c]
  have "column_ok ?h c (V c)" using co c by (simp add: columns_ok_def)
  then have 1: "ndown ?h c = hd (V c @ [c])" unfolding column_ok_def using lnk_first by blast
  show "cover c s = Some (covered R (V c) c s)"
    using cover_rows_fold [OF co r c, of "[]" "V c"] 1 by (simp add: cover_def Let_def covered_def)
  show k: "column_ok (covered R (V c) c s) c (V c)"
    using unlink_partners(2) [OF co r c, of "V c" "[]"] d by (simp add: covered_def)
  then have "nup (covered R (V c) c s) c = last (c # V c)" unfolding column_ok_def using lnk_last by blast
  then show "uncover c (covered R (V c) c s) = Some s"
    using uncover_rows_fold [OF co r c, of "V c" "[]"] hide_frame(3) [OF ok c] by (simp add: uncover_def covered_def)
qed

lemma partners_row_cols:
  assumes ok: "links_ok R s hs V" and c: "c \<in> set hs" and d: "d \<in> set hs" "d \<noteq> c" and n: "n \<in> set (V d)"
  shows "n \<in> set (partners R (V c)) \<longleftrightarrow> c \<in> row_cols R (ncol s) n"
proof
  have r: "rows_ok R s (set hs) V" using ok by (simp add: links_ok_def)
  {
    assume "n \<in> set (partners R (V c))"
    then obtain m where m: "m \<in> set (V c)" "n \<in> set (others R m)" by (auto simp: partners_mem)
    have "m \<in> set (others R n) \<union> {n}" using others_active(5) [OF r c m] by auto
    moreover have "ncol s m = c" using node_col [OF ok c m(1)] by simp
    ultimately show "c \<in> row_cols R (ncol s) n" by (auto simp: row_cols_def)
  next
    assume "c \<in> row_cols R (ncol s) n"
    then obtain m where m: "m \<in> set (n # others R n)" "ncol s m = c" by (auto simp: row_cols_def)
    have "ncol s n = d" using node_col [OF ok d(1) n] by simp
    with m d(2) have mo: "m \<in> set (others R n)" by auto
    note a = others_active [OF r d(1) n mo]
    have "n \<in> set (others R m)" using a(5) a(3) by auto
    with a(2) m(2) show "n \<in> set (partners R (V c))" by (auto simp: partners_mem)
  }
qed

lemma row_cols_next:
  "R (R (R (R n))) = n \<Longrightarrow> row_cols R K (R n) = row_cols R K n"
  by (auto simp: row_cols_def others_def)

theorem cover_links_ok:
  assumes ok: "links_ok R s hs V" and c: "c \<in> set hs"
  shows "links_ok R (covered R (V c) c s) (filter (\<lambda>d. d \<noteq> c) hs) (avoiding R (ncol s) {c} V)"
proof -
  let ?t = "covered R (V c) c s" and ?V = "avoiding R (ncol s) {c} V" and ?hs = "filter (\<lambda>d. d \<noteq> c) hs"
  have ring: "lnk (nright s) (nleft s) (root s) hs (root s)" and d: "distinct (root s # hs)" and r: "rows_ok R s (set hs) V"
    and co: "columns_ok (hide_column c s) (set hs) V"
    using ok by (auto simp: links_ok_def)
  obtain xs ys where hs: "hs = xs @ c # ys" using split_list [OF c] by auto
  have "filter (\<lambda>d. d \<noteq> c) zs = zs" if "c \<notin> set zs" for zs using that by (induction zs) auto
  with hs d have hs': "?hs = xs @ ys" by auto
  have "lnk ((nright s)(nleft s c := nright s c)) ((nleft s)(nright s c := nleft s c)) (root s) (xs @ ys) (root s)"
    by (rule lnk_remove) (use ring d hs in auto)
  then have 1: "lnk (nright ?t) (nleft ?t) (root s) ?hs (root s)" by (simp add: covered_def hs')
  have dv: "distinct (V c)" using co c by (auto simp: columns_ok_def column_ok_def)
  have av: "filter (\<lambda>n. n \<notin> set (partners R (V c))) (V e) = ?V e" if e: "e \<in> set ?hs" for e
    unfolding avoiding_def by (rule filter_cong [OF refl]) (use e partners_row_cols [OF ok c] in auto)
  have "columns_ok ?t (set hs) (\<lambda>d. filter (\<lambda>n. n \<notin> set (partners R (V c))) (V d))"
    using unlink_partners(1) [OF co hide_frame(2) [OF ok c] c, of "V c" "[]"] dv by (simp add: covered_def)
  then have 2: "columns_ok ?t (set ?hs) ?V" using av by (auto simp: columns_ok_def)
  have "rows_ok R ?t (set hs) V" using hide_frame(2) [OF ok c] by (simp add: covered_def)
  note rt = rows_okD [OF this]
  have 3: "rows_ok R ?t (set ?hs) ?V"
    unfolding rows_ok_def
  proof (intro ballI)
    fix e n assume e: "e \<in> set ?hs" "n \<in> set (?V e)"
    then have e': "e \<in> set hs" "n \<in> set (V e)" "c \<notin> row_cols R (ncol s) n" by (auto simp: avoiding_def)
    have k: "ncol ?t = ncol s" by (simp add: covered_def)
    note r1 = rt [OF e'(1,2), unfolded k]
    have "c \<notin> row_cols R (ncol s) (R n)" using row_cols_next r1(1) e'(3) by (simp add: row_ok_def)
    moreover from this have "ncol s (R n) \<noteq> c" by (auto simp: row_cols_def)
    ultimately show "row_ok R ?t n \<and> ncol ?t (R n) \<in> set ?hs \<and> R n \<in> set (?V (ncol ?t (R n)))"
      using r1 by (simp add: k avoiding_def)
  qed
  from 1 2 3 ok d show ?thesis by (auto simp: links_ok_def covered_def)
qed

section \<open>Covering the columns of a row\<close>

fun cover_all :: "(nat \<Rightarrow> nat) \<Rightarrow> (nat \<Rightarrow> nat list) \<Rightarrow> nat list \<Rightarrow> solver \<Rightarrow> solver" where
  "cover_all R V [] s = s"
| "cover_all R V (c # cs) s = cover_all R (avoiding R (ncol s) {c} V) cs (covered R (V c) c s)"

lemma unlink_stack: "unlink j (s\<lparr>stack := z\<rparr>) = (unlink j s)\<lparr>stack := z\<rparr>"
  by (intro solver.equality) simp_all

lemma hide_column_stack: "hide_column c (s\<lparr>stack := z\<rparr>) = (hide_column c s)\<lparr>stack := z\<rparr>"
  by (intro solver.equality) simp_all

lemma fold_unlink_stack: "fold unlink js (s\<lparr>stack := z\<rparr>) = (fold unlink js s)\<lparr>stack := z\<rparr>"
  by (induction js arbitrary: s) (simp_all add: unlink_stack)

lemma cover_all_stack: "cover_all R V cs (s\<lparr>stack := z\<rparr>) = (cover_all R V cs s)\<lparr>stack := z\<rparr>"
  by (induction cs arbitrary: V s) (simp_all add: covered_def hide_column_stack fold_unlink_stack)

lemma links_ok_stack [simp]: "links_ok R (s\<lparr>stack := z\<rparr>) hs V = links_ok R s hs V"
  by (simp add: links_ok_def columns_ok_def column_ok_def rows_ok_def row_ok_def)

lemma avoiding_avoiding: "avoiding R K cs (avoiding R K ds V) = avoiding R K (cs \<union> ds) V"
  by (auto simp: avoiding_def Int_Un_distrib conj_commute intro!: ext)

theorem cover_all_links_ok:
  assumes "links_ok R s hs V" "distinct cs" "set cs \<subseteq> set hs"
  shows "links_ok R (cover_all R V cs s) (filter (\<lambda>d. d \<notin> set cs) hs) (avoiding R (ncol s) (set cs) V) \<and>
         frame s (cover_all R V cs s)"
  using assms
proof (induction cs arbitrary: s hs V)
  case Nil
  then show ?case by (simp add: avoiding_def)
next
  case (Cons c cs)
  have c: "c \<in> set hs" using Cons.prems by simp
  let ?t = "covered R (V c) c s"
  have f: "frame s ?t" by (rule covered_frame [OF Cons.prems(1) c])
  then have k: "ncol ?t = ncol s" by (simp add: frame_def)
  have "links_ok R ?t (filter (\<lambda>d. d \<noteq> c) hs) (avoiding R (ncol s) {c} V)"
    by (rule cover_links_ok [OF Cons.prems(1) c])
  from Cons.IH [OF this] Cons.prems
  have "links_ok R (cover_all R V (c # cs) s) (filter (\<lambda>d. d \<notin> set cs) (filter (\<lambda>d. d \<noteq> c) hs))
          (avoiding R (ncol s) (set cs) (avoiding R (ncol s) {c} V)) \<and> frame ?t (cover_all R V (c # cs) s)"
    by (auto simp: k)
  moreover have "filter (\<lambda>d. d \<notin> set cs) (filter (\<lambda>d. d \<noteq> c) hs) = filter (\<lambda>d. d \<notin> set (c # cs)) hs"
    by (simp add: conj_commute)
  ultimately show ?case using f by (auto simp: avoiding_avoiding intro: frame_trans)
qed

lemma lnk_frame:
  assumes "frame s t" "lnk (nright s) (nleft s) a js b" "\<And>x. x \<in> insert a (insert b (set js)) \<Longrightarrow> ncol s x \<noteq> x"
  shows "lnk (nright t) (nleft t) a js b"
  using assms(2) by (rule lnk_cong) (use assms in \<open>auto simp: frame_def\<close>)

theorem cover_others_spec:
  assumes "links_ok R t hs V" "lnk (nright t) (nleft t) a js row" "row \<notin> set js"
    "\<And>x. x \<in> insert a (insert row (set js)) \<Longrightarrow> ncol t x \<noteq> x"
    "distinct (map (ncol t) js)" "ncol t ` set js \<subseteq> set hs"
  defines "u \<equiv> cover_all R V (map (ncol t) js) t"
  shows "cover_others row (nright t a) t = Some u \<and>
         uncover_others row (nleft u row) u = uncover_others row a t"
  using assms(1-6) unfolding u_def
proof (induction js arbitrary: a t hs V)
  case Nil
  then show ?case by (simp add: cover_others.simps)
next
  case (Cons j js)
  let ?c = "ncol t j"
  let ?t = "covered R (V ?c) ?c t"
  have c: "?c \<in> set hs" using Cons.prems(6) by simp
  note cu = cover_uncover [OF Cons.prems(1) c]
  have f: "frame t ?t" by (rule covered_frame [OF Cons.prems(1) c])
  then have k: "ncol ?t = ncol t" by (simp add: frame_def)
  have l: "nright t a = j" "nleft t j = a" "lnk (nright t) (nleft t) j js row" "j \<noteq> row"
    using Cons.prems(2,3) by auto
  have lt: "lnk (nright ?t) (nleft ?t) j js row"
    by (rule lnk_frame [OF f l(3)]) (use Cons.prems(4) in auto)
  have "cover_others row (nright ?t j) ?t = Some (cover_all R V (map (ncol t) (j # js)) t) \<and>
        (let u = cover_all R V (map (ncol t) (j # js)) t in uncover_others row (nleft u row) u = uncover_others row j ?t)"
    using Cons.IH [OF cover_links_ok [OF Cons.prems(1) c] lt] Cons.prems by (auto simp: k Let_def)
  moreover have "uncover_others row j ?t = uncover_others row a t"
    by (subst uncover_others.simps) (simp add: l cu k)
  moreover have "cover_others row j t = cover_others row (nright ?t j) ?t"
    by (subst cover_others.simps) (simp add: l cu)
  ultimately show ?case by (simp add: l Let_def)
qed

section \<open>Exact covers\<close>

definition nodes :: "nat list \<Rightarrow> (nat \<Rightarrow> nat list) \<Rightarrow> nat set" where
  "nodes hs V = (\<Union>c\<in>set hs. set (V c))"

text \<open>
  A set of whole rows, given by their nodes, that meets every column of \<open>H\<close> exactly once. \<open>row_set R n\<close> is
  the row of \<open>n\<close>.
\<close>

definition exact_cover :: "(nat \<Rightarrow> nat) \<Rightarrow> (nat \<Rightarrow> nat) \<Rightarrow> nat set \<Rightarrow> nat set \<Rightarrow> nat set \<Rightarrow> bool" where
  "exact_cover R K H N S \<longleftrightarrow> S \<subseteq> N \<and> (\<forall>n\<in>S. R n \<in> S) \<and> (\<forall>c\<in>H. \<exists>!n. n \<in> S \<and> K n = c)"

definition row_set :: "(nat \<Rightarrow> nat) \<Rightarrow> nat \<Rightarrow> nat set" where
  "row_set R n = set (n # others R n)"

lemma exact_coverD:
  assumes "exact_cover R K H N S"
  shows "S \<subseteq> N" "\<forall>n\<in>S. R n \<in> S" "c \<in> H \<Longrightarrow> \<exists>n\<in>S. K n = c"
    "K x \<in> H \<Longrightarrow> x \<in> S \<Longrightarrow> y \<in> S \<Longrightarrow> K x = K y \<Longrightarrow> x = y"
proof -
  have u: "\<exists>!n. n \<in> S \<and> K n = d" if "d \<in> H" for d using assms that by (simp add: exact_cover_def)
  show "S \<subseteq> N" "\<forall>n\<in>S. R n \<in> S" using assms by (simp_all add: exact_cover_def)
  show "\<exists>n\<in>S. K n = c" if "c \<in> H" using u [OF that] by blast
  show "x = y" if k: "K x \<in> H" "x \<in> S" "y \<in> S" "K x = K y"
  proof -
    obtain n where n: "\<forall>z. z \<in> S \<and> K z = K x \<longrightarrow> z = n" using u [OF k(1)] by (elim ex1E) auto
    show ?thesis using spec [OF n, of x] spec [OF n, of y] k by simp
  qed
qed

lemma exact_coverI:
  assumes "S \<subseteq> N" "\<And>n. n \<in> S \<Longrightarrow> R n \<in> S" "\<And>c. c \<in> H \<Longrightarrow> \<exists>n\<in>S. K n = c"
    "\<And>x y. K x \<in> H \<Longrightarrow> x \<in> S \<Longrightarrow> y \<in> S \<Longrightarrow> K x = K y \<Longrightarrow> x = y"
  shows "exact_cover R K H N S"
proof -
  have "\<exists>!n. n \<in> S \<and> K n = c" if c: "c \<in> H" for c
  proof -
    obtain n where n: "n \<in> S" "K n = c" using assms(3) [OF c] by auto
    show ?thesis
    proof (rule ex1I [of _ n])
      show "n \<in> S \<and> K n = c" using n by simp
      show "x = n" if "x \<in> S \<and> K x = c" for x by (rule assms(4)) (use n c that in simp_all)
    qed
  qed
  then show ?thesis using assms(1,2) by (simp add: exact_cover_def)
qed

lemma row_set_mem [simp]: "n \<in> row_set R n"
  by (simp add: row_set_def)

lemma row_cols_row_set: "row_cols R K n = K ` row_set R n"
  by (simp add: row_cols_def row_set_def)

lemma closed_row_set: "\<forall>n\<in>S. R n \<in> S \<Longrightarrow> n \<in> S \<Longrightarrow> row_set R n \<subseteq> S"
  by (auto simp: row_set_def others_def)

lemma row_set_eq: "R (R (R (R n))) = n \<Longrightarrow> x \<in> row_set R n \<Longrightarrow> row_set R x = row_set R n"
proof -
  assume r4: "R (R (R (R n))) = n" and "x \<in> row_set R n"
  then consider "x = n" | "x = R n" | "x = R (R n)" | "x = R (R (R n))" by (auto simp: row_set_def others_def)
  then show ?thesis by cases (simp_all add: row_set_def others_def r4 insert_commute)
qed

lemma row_set_unique:
  "row_ok R s n \<Longrightarrow> x \<in> row_set R n \<Longrightarrow> y \<in> row_set R n \<Longrightarrow> ncol s x = ncol s y \<Longrightarrow> x = y"
  unfolding row_ok_def row_set_def distinct_map by (elim conjE) (rule inj_onD)

lemma node_row_ok: "links_ok R s hs V \<Longrightarrow> n \<in> nodes hs V \<Longrightarrow> row_ok R s n \<and> R n \<in> nodes hs V \<and> ncol s n \<in> set hs"
proof -
  assume ok: "links_ok R s hs V" and "n \<in> nodes hs V"
  then obtain d where d: "d \<in> set hs" "n \<in> set (V d)" by (auto simp: nodes_def)
  have "rows_ok R s (set hs) V" using ok by (simp add: links_ok_def)
  from rows_okD [OF this d] node_col [OF ok d] d(1) show ?thesis by (auto simp: nodes_def)
qed

lemma row_in_nodes: "links_ok R s hs V \<Longrightarrow> n \<in> nodes hs V \<Longrightarrow> row_set R n \<subseteq> nodes hs V"
  by (rule closed_row_set) (simp_all add: node_row_ok)

lemma nodes_avoiding:
  assumes "links_ok R s hs V"
  shows "nodes (filter (\<lambda>d. d \<notin> cs) hs) (avoiding R (ncol s) cs V) = {m \<in> nodes hs V. row_cols R (ncol s) m \<inter> cs = {}}"
proof -
  have "d \<notin> cs" if "d \<in> set hs" "m \<in> set (V d)" "row_cols R (ncol s) m \<inter> cs = {}" for d m
  proof -
    have "ncol s m = d" using node_col [OF assms that(1,2)] by simp
    then have "d \<in> row_cols R (ncol s) m" by (auto simp: row_cols_def)
    with that(3) show ?thesis by auto
  qed
  then show ?thesis by (auto simp: nodes_def avoiding_def)
qed

lemma exact_cover_choose:
  assumes ok: "links_ok R s hs V" and c: "c \<in> set hs" and e: "exact_cover R (ncol s) (set hs) (nodes hs V) S"
  obtains n where "n \<in> set (V c)" "n \<in> S"
    "exact_cover R (ncol s) (set hs - row_cols R (ncol s) n)
       {m \<in> nodes hs V. row_cols R (ncol s) m \<inter> row_cols R (ncol s) n = {}} (S - row_set R n)"
proof -
  note ed = exact_coverD [OF e]
  obtain n where n: "n \<in> S" "ncol s n = c" using ed(3) [OF c] by auto
  have uniq: "x = y" if "x \<in> S" "y \<in> S" "ncol s x = ncol s y" for x y
    by (rule ed(4)) (use node_row_ok [OF ok, of x] ed(1) that in auto)
  have r4: "R (R (R (R m))) = m" if "m \<in> S" for m
    using node_row_ok [OF ok, of m] ed(1) that by (auto simp: row_ok_def)
  have nS: "row_set R n \<subseteq> S" by (rule closed_row_set [OF ed(2) n(1)])
  let ?S = "S - row_set R n"
  have same: "m \<in> row_set R n" if m: "m \<in> S" "x \<in> row_set R m" "y \<in> row_set R n" "ncol s x = ncol s y" for m x y
  proof -
    have "x \<in> S" "y \<in> S" using closed_row_set [OF ed(2) m(1)] nS m by auto
    from uniq [OF this m(4)] row_set_eq [of R m x, OF r4 [OF m(1)] m(2)] row_set_eq [of R n y, OF r4 [OF n(1)] m(3)]
    have "row_set R m = row_set R n" by simp
    then show ?thesis using row_set_mem [of m R] by simp
  qed
  have "exact_cover R (ncol s) (set hs - row_cols R (ncol s) n)
       {m \<in> nodes hs V. row_cols R (ncol s) m \<inter> row_cols R (ncol s) n = {}} ?S"
  proof (rule exact_coverI)
    show "?S \<subseteq> {m \<in> nodes hs V. row_cols R (ncol s) m \<inter> row_cols R (ncol s) n = {}}"
      using ed(1) same by (auto simp: row_cols_row_set)
    show "R m \<in> ?S" if m: "m \<in> ?S" for m
    proof -
      have "m \<in> row_set R (R m)" using r4 [of m] m by (auto simp: row_set_def others_def)
      moreover have "row_set R (R m) = row_set R n" if "R m \<in> row_set R n" using row_set_eq [of R n, OF r4 [OF n(1)] that] .
      ultimately show ?thesis using m ed(2) by auto
    qed
    show "\<exists>k\<in>?S. ncol s k = d" if "d \<in> set hs - row_cols R (ncol s) n" for d
      using ed(3) [of d] that by (auto simp: row_cols_row_set)
  qed (use uniq in auto)
  moreover obtain d where "d \<in> set hs" "n \<in> set (V d)" using ed(1) n by (auto simp: nodes_def)
  with node_col [OF ok] n have "n \<in> set (V c)" by auto
  ultimately show ?thesis using that n(1) by simp
qed

lemma exact_cover_extend:
  assumes ok: "links_ok R s hs V" and n: "n \<in> nodes hs V"
    and e: "exact_cover R (ncol s) (set hs - row_cols R (ncol s) n)
       {m \<in> nodes hs V. row_cols R (ncol s) m \<inter> row_cols R (ncol s) n = {}} S"
  shows "exact_cover R (ncol s) (set hs) (nodes hs V) (row_set R n \<union> S)"
proof (rule exact_coverI)
  note ed = exact_coverD [OF e]
  have rn: "row_ok R s n" using node_row_ok [OF ok n] by simp
  then have r4: "R (R (R (R n))) = n" by (simp add: row_ok_def)
  have S: "ncol s m \<notin> row_cols R (ncol s) n" if "m \<in> S" for m
  proof -
    have "row_cols R (ncol s) m \<inter> row_cols R (ncol s) n = {}" using ed(1) that by auto
    moreover have "ncol s m \<in> row_cols R (ncol s) m" by (simp add: row_cols_def)
    ultimately show ?thesis by auto
  qed
  show "row_set R n \<union> S \<subseteq> nodes hs V" using row_in_nodes [OF ok n] ed(1) by auto
  show "R m \<in> row_set R n \<union> S" if "m \<in> row_set R n \<union> S" for m
  proof (cases "m \<in> S")
    case False
    with that have "row_set R m = row_set R n" using row_set_eq [of R n m, OF r4] by auto
    then show ?thesis by (auto simp: row_set_def others_def)
  qed (use ed(2) in auto)
  show "\<exists>k\<in>row_set R n \<union> S. ncol s k = c" if "c \<in> set hs" for c
    using ed(3) [of c] that by (cases "c \<in> row_cols R (ncol s) n") (auto simp: row_cols_row_set)
  show "x = y" if h: "ncol s x \<in> set hs" "x \<in> row_set R n \<union> S" "y \<in> row_set R n \<union> S" "ncol s x = ncol s y" for x y
  proof (cases "ncol s x \<in> row_cols R (ncol s) n")
    case True
    then have "x \<notin> S" "y \<notin> S" using S [of x] S [of y] h(4) by auto
    with h(2,3) have "x \<in> row_set R n" "y \<in> row_set R n" by auto
    then show ?thesis using row_set_unique [OF rn _ _ h(4)] by simp
  next
    case False
    then have "ncol s y \<notin> row_cols R (ncol s) n" using h(4) by simp
    with False have "x \<notin> row_set R n" "y \<notin> row_set R n" by (auto simp: row_cols_row_set)
    with h(2,3) have xy: "x \<in> S" "y \<in> S" by auto
    show ?thesis by (rule ed(4) [OF _ xy h(4)]) (use False h(1) in simp)
  qed
qed

end
