(* ===== verification/DancingSearch.thy ===== *)
theory DancingSearch
  imports DancingLinks
begin

text \<open>
  \<open>SudokuSolver::solve\<close> over the links of \<open>DancingLinks\<close>: the column it branches on, the writing of the
  stack to the board, and the theorem that the search returns, finds an exact cover when there is one and
  leaves the object as it was when there is none.
\<close>

section \<open>The column with the fewest rows\<close>

lemma min_loop_spec:
  "lnk (nright s) g a cs (root s) \<Longrightarrow> root s \<notin> set cs \<Longrightarrow>
   \<exists>c'. min_loop s c (nsize s c) (nright s a) = Some c' \<and> c' \<in> insert c (set cs) \<and>
        (nsize s c' \<le> 1 \<or> (\<forall>x\<in>insert c (set cs). nsize s c' \<le> nsize s x))"
proof (induction cs arbitrary: a c)
  case Nil
  then show ?case by (simp add: min_loop.simps)
next
  case (Cons d cs)
  have d: "nright s a = d" "d \<noteq> root s" "lnk (nright s) g d cs (root s)" using Cons.prems by auto
  consider "nsize s d < nsize s c" "nsize s d \<le> 1" | "nsize s d < nsize s c" "\<not> nsize s d \<le> 1" | "nsize s c \<le> nsize s d"
    by linarith
  then show ?case
  proof cases
    case 1
    then show ?thesis using d by (subst min_loop.simps) simp
  next
    case 2
    obtain c' where c': "min_loop s d (nsize s d) (nright s d) = Some c'" "c' \<in> insert d (set cs)"
      "nsize s c' \<le> 1 \<or> (\<forall>x\<in>insert d (set cs). nsize s c' \<le> nsize s x)"
      using Cons.IH [OF d(3)] Cons.prems by auto
    with 2 d show ?thesis by (subst min_loop.simps) auto
  next
    case 3
    obtain c' where c': "min_loop s c (nsize s c) (nright s d) = Some c'" "c' \<in> insert c (set cs)"
      "nsize s c' \<le> 1 \<or> (\<forall>x\<in>insert c (set cs). nsize s c' \<le> nsize s x)"
      using Cons.IH [OF d(3)] Cons.prems by auto
    with 3 d show ?thesis by (subst min_loop.simps) auto
  qed
qed

lemma get_min_column_spec:
  assumes "links_ok R s hs V" "hs \<noteq> []"
  shows "\<exists>c\<in>set hs. get_min_column s = Some c \<and> (nsize s c \<le> 1 \<or> (\<forall>x\<in>set hs. nsize s c \<le> nsize s x))"
proof -
  obtain h cs where hs: "hs = h # cs" using assms(2) by (cases hs) auto
  have l: "nright s (root s) = h" "lnk (nright s) (nleft s) h cs (root s)" "root s \<notin> set cs"
    using assms(1) hs by (auto simp: links_ok_def)
  show ?thesis
  proof (cases "nsize s h > 1")
    case True
    with min_loop_spec [OF l(2,3), of h] l(1) hs show ?thesis by (auto simp: get_min_column_def Let_def)
  next
    case False
    with l(1) hs show ?thesis by (simp add: get_min_column_def Let_def)
  qed
qed

section \<open>Writing the board\<close>

text \<open>
  The names of a row: one is the number of its cell (below 100), the others end in the digit. \<open>writable\<close>
  nodes are those whose row can be written to the board.
\<close>

definition named :: "(nat \<Rightarrow> nat) \<Rightarrow> (nat \<Rightarrow> int) \<Rightarrow> nat \<Rightarrow> int \<Rightarrow> int \<Rightarrow> bool" where
  "named R nm n cell val \<longleftrightarrow> 0 \<le> cell \<and> 0 \<le> val \<and>
     (\<forall>x\<in>row_set R n. if nm x < 100 then nm x = cell else c_mod (nm x) 10 = val) \<and>
     (\<exists>x\<in>row_set R n. nm x < 100) \<and> (\<exists>x\<in>row_set R n. \<not> nm x < 100)"

definition writable :: "(nat \<Rightarrow> nat) \<Rightarrow> (nat \<Rightarrow> int) \<Rightarrow> (nat \<Rightarrow> int) \<Rightarrow> solver \<Rightarrow> nat \<Rightarrow> bool" where
  "writable R ci va s n \<longleftrightarrow> (\<forall>x\<in>row_set R n. ncol s x \<noteq> x \<and> nright s x = R x) \<and>
     named R (nname s) n (ci n) (va n) \<and> nat (ci n) < length (inout s)"

lemma find_names_step:
  "cell = - 1 \<or> val = - 1 \<Longrightarrow> find_names s n cell val =
     (if nname s n < 100 then find_names s (nright s n) (nname s n) val
      else find_names s (nright s n) cell (c_mod (nname s n) 10))"
  by (subst find_names.simps) simp

lemma find_names_done: "cell \<noteq> - 1 \<Longrightarrow> val \<noteq> - 1 \<Longrightarrow> find_names s n cell val = Some (cell, val)"
  by (subst find_names.simps) simp

lemma find_names_spec:
  assumes "writable R ci va s n"
  shows "find_names s n (- 1) (- 1) = Some (ci n, va n)"
proof -
  let ?b = "R n" let ?c = "R (R n)" let ?d = "R (R (R n))"
  have ge: "ci n \<noteq> - 1" "va n \<noteq> - 1" using assms by (auto simp: writable_def named_def)
  have r: "nright s n = ?b" "nright s ?b = ?c" "nright s ?c = ?d"
    using assms by (auto simp: writable_def row_set_def others_def)
  have rs: "row_set R n = {n, ?b, ?c, ?d}" by (simp add: row_set_def others_def)
  have all: "\<forall>x\<in>row_set R n. if nname s x < 100 then nname s x = ci n else c_mod (nname s x) 10 = va n"
    and ex': "\<exists>x\<in>row_set R n. nname s x < 100" "\<exists>x\<in>row_set R n. \<not> nname s x < 100"
    using assms unfolding writable_def named_def by blast+
  have nm: "nname s x < 100 \<Longrightarrow> nname s x = ci n" "\<not> nname s x < 100 \<Longrightarrow> c_mod (nname s x) 10 = va n"
    if "x \<in> {n, ?b, ?c, ?d}" for x
    using bspec [OF all, of x] that unfolding rs by (simp_all del: c_mod_nonneg split: if_splits)
  note ex = ex' [unfolded rs]
  show ?thesis
  proof (cases "nname s n < 100")
    case True
    then show ?thesis using ex r ge nm [of n] nm [of ?b] nm [of ?c] nm [of ?d]
      by (cases "nname s ?b < 100"; cases "nname s ?c < 100") (simp_all add: find_names_step find_names_done del: c_mod_nonneg)
  next
    case False
    then show ?thesis using ex r ge nm [of n] nm [of ?b] nm [of ?c] nm [of ?d]
      by (cases "nname s ?b < 100"; cases "nname s ?c < 100") (simp_all add: find_names_step find_names_done del: c_mod_nonneg)
  qed
qed

definition write_rows :: "(nat \<Rightarrow> int) \<Rightarrow> (nat \<Rightarrow> int) \<Rightarrow> nat list \<Rightarrow> int list \<Rightarrow> int list" where
  "write_rows ci va ns io = fold (\<lambda>n io. io[nat (ci n) := va n]) ns io"

lemma write_stack_spec:
  "\<forall>n\<in>set ns. writable R ci va s n \<Longrightarrow> write_stack ns s = Some (s\<lparr>inout := write_rows ci va ns (inout s)\<rparr>)"
proof (induction ns arbitrary: s)
  case (Cons n ns)
  have n: "find_names s n (- 1) (- 1) = Some (ci n, va n)" "0 \<le> ci n" "nat (ci n) < length (inout s)"
    using Cons.prems find_names_spec [of R ci va s n] by (auto simp: writable_def named_def)
  have "\<forall>n'\<in>set ns. writable R ci va (s\<lparr>inout := (inout s)[nat (ci n) := va n]\<rparr>) n'"
    using Cons.prems by (auto simp: writable_def)
  from Cons.IH [OF this] n show ?case by (simp add: write_rows_def)
qed (simp add: write_rows_def)

lemma writable_frame: "frame s t \<Longrightarrow> writable R ci va t n = writable R ci va s n"
  by (auto simp: writable_def frame_def)

lemma writable_stack [simp]: "writable R ci va (s\<lparr>stack := z\<rparr>) n = writable R ci va s n"
  by (simp add: writable_def)

section \<open>One branch of the search\<close>

lemma row_nodes_col:
  assumes "links_ok R s hs V" "n \<in> nodes hs V" "x \<in> row_set R n"
  shows "ncol s x \<noteq> x" "ncol s x \<in> set hs"
proof -
  have "x \<in> nodes hs V" using row_in_nodes [OF assms(1,2)] assms(3) by auto
  then obtain d where "d \<in> set hs" "x \<in> set (V d)" by (auto simp: nodes_def)
  with node_col [OF assms(1)] show "ncol s x \<noteq> x" "ncol s x \<in> set hs" by auto
qed

theorem branch:
  assumes ok: "links_ok R s hs V" and c: "c \<in> set hs" and n: "n \<in> set (V c)"
  shows "\<exists>u. (\<forall>z. cover_others n (nright (covered R (V c) c s) n) ((covered R (V c) c s)\<lparr>stack := z\<rparr>) = Some (u\<lparr>stack := z\<rparr>)) \<and>
    (\<forall>z. uncover_others n (nleft u n) (u\<lparr>stack := z\<rparr>) = Some ((covered R (V c) c s)\<lparr>stack := z\<rparr>)) \<and>
    links_ok R u (filter (\<lambda>d. d \<notin> row_cols R (ncol s) n) hs) (avoiding R (ncol s) (row_cols R (ncol s) n) V) \<and>
    frame s u"
proof -
  let ?t = "covered R (V c) c s" and ?V = "avoiding R (ncol s) {c} V" and ?hs = "filter (\<lambda>d. d \<noteq> c) hs"
  let ?cs = "map (ncol s) (others R n)"
  define u where "u = cover_all R ?V ?cs ?t"
  have f: "frame s ?t" by (rule covered_frame [OF ok c])
  then have k: "ncol ?t = ncol s" by (simp add: frame_def)
  have okt: "links_ok R ?t ?hs ?V" by (rule cover_links_ok [OF ok c])
  have nn: "n \<in> nodes hs V" using c n by (auto simp: nodes_def)
  have r: "rows_ok R s (set hs) V" using ok by (simp add: links_ok_def)
  note l = row_lnk [OF r c n]
  have x: "x \<in> insert n (insert n (set (others R n))) \<Longrightarrow> ncol s x \<noteq> x" for x
    using row_nodes_col(1) [OF ok nn] by (simp add: row_set_def)
  have lt: "lnk (nright ?t) (nleft ?t) n (others R n) n" by (rule lnk_frame [OF f l(1) x])
  have cn: "ncol s n = c" using node_col [OF ok c n] by simp
  have d: "distinct (ncol s n # ?cs)" using node_row_ok [OF ok nn] by (simp add: row_ok_def)
  have sub: "ncol s ` set (others R n) \<subseteq> set ?hs"
  proof (rule image_subsetI)
    fix x assume x: "x \<in> set (others R n)"
    have "ncol s x \<noteq> ncol s n" using imageI [OF x, of "ncol s"] d by auto
    with row_nodes_col(2) [OF ok nn, of x] x cn show "ncol s x \<in> set ?hs" by (simp add: row_set_def)
  qed
  have "cover_others n (nright ?t n) (?t\<lparr>stack := z\<rparr>) = Some (u\<lparr>stack := z\<rparr>) \<and>
        uncover_others n (nleft u n) (u\<lparr>stack := z\<rparr>) = uncover_others n n (?t\<lparr>stack := z\<rparr>)" for z
    using cover_others_spec [of R "?t\<lparr>stack := z\<rparr>" ?hs ?V n "others R n" n] okt lt l(2) x d sub
    by (simp add: k cover_all_stack u_def)
  moreover have "uncover_others n n (?t\<lparr>stack := z\<rparr>) = Some (?t\<lparr>stack := z\<rparr>)" for z
    by (simp add: uncover_others.simps)
  moreover have "links_ok R u (filter (\<lambda>d. d \<notin> set ?cs) ?hs) (avoiding R (ncol s) (set ?cs) ?V) \<and> frame ?t u"
    using cover_all_links_ok [OF okt, of ?cs] d sub by (simp add: u_def k)
  moreover have "filter (\<lambda>d. d \<notin> set ?cs) ?hs = filter (\<lambda>d. d \<notin> row_cols R (ncol s) n) hs"
    by (simp add: row_cols_def cn conj_commute)
  moreover have "avoiding R (ncol s) (set ?cs) ?V = avoiding R (ncol s) (row_cols R (ncol s) n) V"
    by (simp add: avoiding_avoiding row_cols_def cn)
  ultimately show ?thesis using frame_trans [OF f, of u] by (intro exI [of _ u]) simp
qed

section \<open>The search\<close>

text \<open>What a call of \<open>solve\<close> on \<open>s\<close> that returns \<open>b\<close> and leaves the object \<open>s'\<close> promises.\<close>

definition outcome ::
    "(nat \<Rightarrow> nat) \<Rightarrow> (nat \<Rightarrow> int) \<Rightarrow> (nat \<Rightarrow> int) \<Rightarrow> solver \<Rightarrow> nat list \<Rightarrow> (nat \<Rightarrow> nat list) \<Rightarrow> bool \<Rightarrow> solver \<Rightarrow> bool" where
  "outcome R ci va s hs V b s' \<longleftrightarrow>
     (if b then \<exists>ns. set ns \<subseteq> nodes hs V \<and> exact_cover R (ncol s) (set hs) (nodes hs V) (\<Union>n\<in>set ns. row_set R n) \<and>
                     inout s' = write_rows ci va (stack s @ ns) (inout s)
      else s' = s \<and> (\<forall>S. \<not> exact_cover R (ncol s) (set hs) (nodes hs V) S))"

lemma solve_at_row:
  "solve_at (Some (col, row)) s =
     (if row = col then do { s \<leftarrow> uncover col s; Some (False, s) }
      else do {
        s \<leftarrow> cover_others row (nright s row) (s\<lparr>stack := stack s @ [row]\<rparr>);
        (solved, s) \<leftarrow> solve_at None s;
        if solved then Some (True, s)
        else do {
          s \<leftarrow> uncover_others row (nleft s row) (s\<lparr>stack := butlast (stack s)\<rparr>);
          solve_at (Some (col, ndown s row)) s
        }
      })"
  by (subst solve_at.simps) (simp add: Let_def cong: if_cong)

lemma solve_at_None:
  "solve_at None s =
     (if nleft s (root s) = root s then do { s \<leftarrow> write_stack (stack s) s; Some (True, s) }
      else do { col \<leftarrow> get_min_column s; s \<leftarrow> cover col s; solve_at (Some (col, ndown s col)) s })"
  by (subst solve_at.simps) simp

lemma outcome_branch:
  assumes ok: "links_ok R s hs V" and c: "c \<in> set hs" and n: "n \<in> set (V c)" and f: "frame s u"
    and ou: "outcome R ci va (u\<lparr>stack := stack s @ [n]\<rparr>) (filter (\<lambda>d. d \<notin> row_cols R (ncol s) n) hs)
        (avoiding R (ncol s) (row_cols R (ncol s) n) V) b s'"
  shows "b \<Longrightarrow> outcome R ci va s hs V True s'"
    "\<not> b \<Longrightarrow> s' = u\<lparr>stack := stack s @ [n]\<rparr> \<and> (\<forall>S. exact_cover R (ncol s) (set hs) (nodes hs V) S \<longrightarrow> n \<notin> S)"
proof -
  let ?C = "row_cols R (ncol s) n"
  let ?N = "{m \<in> nodes hs V. row_cols R (ncol s) m \<inter> ?C = {}}"
  have k: "ncol u = ncol s" "inout u = inout s" using f by (simp_all add: frame_def)
  have nn: "n \<in> nodes hs V" using c n by (auto simp: nodes_def)
  have h: "set (filter (\<lambda>d. d \<notin> ?C) hs) = set hs - ?C" by auto
  note o = ou [unfolded outcome_def nodes_avoiding [OF ok] h]
  {
    assume b
    with o k obtain ns where ns: "set ns \<subseteq> ?N" "exact_cover R (ncol s) (set hs - ?C) ?N (\<Union>n\<in>set ns. row_set R n)"
      "inout s' = write_rows ci va ((stack s @ [n]) @ ns) (inout s)" by auto
    have "exact_cover R (ncol s) (set hs) (nodes hs V) (\<Union>n\<in>set (n # ns). row_set R n)"
      using exact_cover_extend [OF ok nn ns(2)] by simp
    moreover have "set (n # ns) \<subseteq> nodes hs V" using ns(1) nn by auto
    ultimately show "outcome R ci va s hs V True s'"
      unfolding outcome_def using ns(3) by (simp only: if_True) (rule exI [of _ "n # ns"], simp)
  next
    assume nb: "\<not> b"
    have "n \<notin> S" if e: "exact_cover R (ncol s) (set hs) (nodes hs V) S" for S
    proof
      assume nS: "n \<in> S"
      obtain m where m: "m \<in> set (V c)" "m \<in> S" "exact_cover R (ncol s) (set hs - row_cols R (ncol s) m)
         {x \<in> nodes hs V. row_cols R (ncol s) x \<inter> row_cols R (ncol s) m = {}} (S - row_set R m)"
        by (rule exact_cover_choose [OF ok c e])
      have cc: "ncol s m = c" "ncol s n = c" using node_col [OF ok c m(1)] node_col [OF ok c n] by auto
      have "m = n" by (rule exact_coverD(4) [OF e _ m(2) nS]) (use cc c in auto)
      with m(3) o nb k show False by auto
    qed
    with o nb show "s' = u\<lparr>stack := stack s @ [n]\<rparr> \<and> (\<forall>S. exact_cover R (ncol s) (set hs) (nodes hs V) S \<longrightarrow> n \<notin> S)"
      by auto
  }
qed

lemma search_rows:
  assumes ok: "links_ok R s hs V" and c: "c \<in> set hs"
    and w: "\<forall>n\<in>nodes hs V \<union> set (stack s). writable R ci va s n"
    and IH: "\<And>u hs' V'. length hs' < length hs \<Longrightarrow> links_ok R u hs' V' \<Longrightarrow>
       \<forall>n\<in>nodes hs' V' \<union> set (stack u). writable R ci va u n \<Longrightarrow>
       \<exists>b s'. solve_at None u = Some (b, s') \<and> outcome R ci va u hs' V' b s'"
  shows "V c = xs @ ys \<Longrightarrow>
    \<forall>S. exact_cover R (ncol s) (set hs) (nodes hs V) S \<longrightarrow> set xs \<inter> S = {} \<Longrightarrow>
    \<exists>b s'. solve_at (Some (c, hd (ys @ [c]))) (covered R (V c) c s) = Some (b, s') \<and> outcome R ci va s hs V b s'"
proof (induction ys arbitrary: xs)
  case Nil
  have "\<not> exact_cover R (ncol s) (set hs) (nodes hs V) S" for S
  proof
    assume e: "exact_cover R (ncol s) (set hs) (nodes hs V) S"
    then obtain n where "n \<in> set (V c)" "n \<in> S" by (rule exact_cover_choose [OF ok c])
    with e Nil show False by auto
  qed
  then show ?case using cover_uncover(2) [OF ok c]
    by (intro exI [of _ False] exI [of _ s]) (simp add: solve_at_row outcome_def)
next
  case (Cons y ys)
  let ?t = "covered R (V c) c s" and ?C = "row_cols R (ncol s) y"
  let ?hs = "filter (\<lambda>d. d \<notin> ?C) hs" and ?V = "avoiding R (ncol s) ?C V"
  have y: "y \<in> set (V c)" using Cons.prems by simp
  have yc: "y \<noteq> c" "ncol s y = c" using node_col [OF ok c y] by auto
  obtain u where u: "\<And>z. cover_others y (nright ?t y) (?t\<lparr>stack := z\<rparr>) = Some (u\<lparr>stack := z\<rparr>)"
    "\<And>z. uncover_others y (nleft u y) (u\<lparr>stack := z\<rparr>) = Some (?t\<lparr>stack := z\<rparr>)"
    "links_ok R u ?hs ?V" "frame s u"
    using branch [OF ok c y] by (elim exE conjE) simp
  let ?u = "u\<lparr>stack := stack s @ [y]\<rparr>"
  have st: "stack ?t = stack s" using covered_frame [OF ok c] by (simp add: frame_def)
  have "length ?hs < length hs"
    by (rule length_filter_less [OF c]) (use yc in \<open>auto simp: row_cols_def\<close>)
  moreover have "\<forall>n\<in>nodes ?hs ?V \<union> set (stack ?u). writable R ci va ?u n"
    using w y c by (auto simp: writable_frame [OF u(4)] nodes_def avoiding_def)
  ultimately obtain b s' where b: "solve_at None ?u = Some (b, s')" "outcome R ci va ?u ?hs ?V b s'"
    using IH [of ?hs ?u ?V] u(3) by auto
  note o = outcome_branch [OF ok c y u(4) b(2)]
  show ?case
  proof (cases b)
    case True
    with yc u(1) b(1) st o(1) show ?thesis
      by (subst solve_at_row) (intro exI [of _ True] exI [of _ s'], simp)
  next
    case False
    have "column_ok ?t c (V c)" by (rule cover_uncover(3) [OF ok c])
    then have down: "ndown ?t y = hd (ys @ [c])" using Cons.prems column_ok_split(2) [of ?t c xs y ys] by simp
    have same: "?t\<lparr>stack := stack s\<rparr> = ?t" using st by (intro solver.equality) simp_all
    have "uncover_others y (nleft u y) (u\<lparr>stack := stack s\<rparr>) = Some ?t" using u(2) [of "stack s"] by (simp only: same)
    with False yc u(1) b(1) st o(2) down
    have "solve_at (Some (c, hd ((y # ys) @ [c]))) ?t = solve_at (Some (c, hd (ys @ [c]))) ?t"
      by (subst solve_at_row) simp
    moreover have "\<forall>S. exact_cover R (ncol s) (set hs) (nodes hs V) S \<longrightarrow> set (xs @ [y]) \<inter> S = {}"
      using Cons.prems(2) o(2) False by auto
    ultimately show ?thesis using Cons.IH [of "xs @ [y]"] Cons.prems(1) by simp
  qed
qed

theorem solve_at_spec:
  assumes "links_ok R s hs V" "\<forall>n\<in>nodes hs V \<union> set (stack s). writable R ci va s n"
  shows "\<exists>b s'. solve_at None s = Some (b, s') \<and> outcome R ci va s hs V b s'"
  using assms
proof (induction "length hs" arbitrary: s hs V rule: less_induct)
  case less
  have ring: "lnk (nright s) (nleft s) (root s) hs (root s)" "root s \<notin> set hs" using less.prems(1) by (auto simp: links_ok_def)
  show ?case
  proof (cases "hs = []")
    case True
    then have "nleft s (root s) = root s" using ring by simp
    moreover have "write_stack (stack s) s = Some (s\<lparr>inout := write_rows ci va (stack s) (inout s)\<rparr>)"
      by (rule write_stack_spec) (use less.prems(2) in auto)
    moreover have "exact_cover R (ncol s) {} {} {}" by (simp add: exact_cover_def)
    ultimately show ?thesis using True by (auto simp: solve_at_None outcome_def nodes_def)
  next
    case False
    have "nleft s (root s) = last (root s # hs)" by (rule lnk_last [OF ring(1)])
    with False ring(2) have nl: "nleft s (root s) \<noteq> root s" by (metis last_ConsR last_in_set)
    obtain c where c: "c \<in> set hs" "get_min_column s = Some c" using get_min_column_spec [OF less.prems(1) False] by auto
    let ?t = "covered R (V c) c s"
    have "column_ok ?t c (V c)" by (rule cover_uncover(3) [OF less.prems(1) c(1)])
    then have "ndown ?t c = hd (V c @ [c])" unfolding column_ok_def using lnk_first by blast
    moreover have "\<exists>b s'. solve_at (Some (c, hd (V c @ [c]))) ?t = Some (b, s') \<and> outcome R ci va s hs V b s'"
      by (rule search_rows [OF less.prems(1) c(1) less.prems(2), where xs = "[]"]) (use less.hyps in auto)
    ultimately show ?thesis using nl c(2) cover_uncover(1) [OF less.prems(1) c(1)] by (simp add: solve_at_None)
  qed
qed

end
