(* ===== verification/Sudoku.thy ===== *)
theory Sudoku
  imports DancingSearch
begin

text \<open>
  The rest of \<open>src/excercises/sudoku/sudoku.cc\<close>: the constructor of \<open>SudokuSolver\<close>, which turns a board
  into the columns and rows of an exact cover problem, and \<open>solveSudoku\<close>. The array \<open>nodes_\<close> is not
  initialised by the constructor, so the memory \<open>mem\<close> the object is built in is an argument.

  \<open>solve_correct\<close> and \<open>solveSudoku_correct\<close> say that no assertion fails, that the search returns, that a
  board found is a completion of the puzzle and that \<open>NoSolution\<close> is returned only if there is none.
\<close>

section \<open>The constructor\<close>

definition kCells :: nat where
  "kCells = 81"

definition kMaxNodes :: nat where
  "kMaxNodes = 1 + 81 * 4 + 9 * 9 * 9 * 4"

definition kRow :: int where
  "kRow = 100"

definition kCol :: int where
  "kCol = 200"

definition kBox :: int where
  "kBox = 300"

definition kNoSolution :: string where
  "kNoSolution = ''NoSolution''"

definition get_row_col :: "nat \<Rightarrow> nat \<Rightarrow> int" where
  "get_row_col row val = kRow + int row * 10 + int val"

definition get_col_col :: "nat \<Rightarrow> nat \<Rightarrow> int" where
  "get_col_col col val = kCol + int col * 10 + int val"

definition get_box_col :: "nat \<Rightarrow> nat \<Rightarrow> int" where
  "get_box_col box val = kBox + int box * 10 + int val"

definition new_column :: "int \<Rightarrow> solver \<Rightarrow> (nat \<times> solver) option" where
  "new_column n s = do {
     ensure (cur_node s < kMaxNodes);
     let c = cur_node s;
     Some (c, s\<lparr>cur_node := c + 1, nleft := (nleft s)(c := c), nright := (nright s)(c := c),
       nup := (nup s)(c := c), ndown := (ndown s)(c := c), ncol := (ncol s)(c := c),
       nname := (nname s)(c := n), nsize := (nsize s)(c := 0)\<rparr>)
   }"

definition append_column :: "int \<Rightarrow> solver \<Rightarrow> solver option" where
  "append_column n s = do {
     ensure (0 \<le> n \<and> n < 400);
     ensure (columns s n = None);
     (c, s) \<leftarrow> new_column n s;
     let s = put_left (root s) c s;
     Some (s\<lparr>columns := (columns s)(n \<mapsto> c)\<rparr>)
   }"

definition new_row :: "int \<Rightarrow> solver \<Rightarrow> (nat \<times> solver) option" where
  "new_row col s = do {
     ensure (0 \<le> col \<and> col < 400);
     c \<leftarrow> columns s col;
     ensure (cur_node s < kMaxNodes);
     let r = cur_node s;
     let s = s\<lparr>cur_node := r + 1, nleft := (nleft s)(r := r), nright := (nright s)(r := r),
       nup := (nup s)(r := r), ndown := (ndown s)(r := r),
       nname := (nname s)(r := col), nsize := (nsize s)(r := 0), ncol := (ncol s)(r := c)\<rparr>;
     Some (r, put_up (ncol s r) r s)
   }"

text \<open>A \<open>for\<close> loop over a list of indices whose body may abort.\<close>

fun for_loop :: "('a \<Rightarrow> 's \<Rightarrow> 's option) \<Rightarrow> 'a list \<Rightarrow> 's \<Rightarrow> 's option" where
  "for_loop f [] s = Some s"
| "for_loop f (x # xs) s = do { s \<leftarrow> f x s; for_loop f xs s }"

type_synonym marks = "nat \<Rightarrow> nat \<Rightarrow> bool"

definition box_of :: "nat \<Rightarrow> nat" where
  "box_of i = (let row = i div 9; col = i mod 9 in row div 3 * 3 + col div 3)"

definition set_mark :: "marks \<Rightarrow> nat \<Rightarrow> nat \<Rightarrow> marks" where
  "set_mark M i v = M(i := (M i)(v := True))"

text \<open>The arrays \<open>rows\<close>, \<open>cols\<close> and \<open>boxes\<close>: which digits the clues of each unit hold.\<close>

definition mark_cell :: "int list \<Rightarrow> nat \<Rightarrow> marks \<times> marks \<times> marks \<Rightarrow> (marks \<times> marks \<times> marks) option" where
  "mark_cell board i = (\<lambda>(rows, cols, boxes). do {
     let val = board ! i;
     ensure (0 \<le> val \<and> val < 10);
     Some (set_mark rows (i div 9) (nat val), set_mark cols (i mod 9) (nat val), set_mark boxes (box_of i) (nat val))
   })"

definition append_units :: "marks \<times> marks \<times> marks \<Rightarrow> nat \<Rightarrow> nat \<Rightarrow> solver \<Rightarrow> solver option" where
  "append_units = (\<lambda>(rows, cols, boxes) i v s. do {
     s \<leftarrow> (if \<not> rows i v then append_column (get_row_col i v) s else Some s);
     s \<leftarrow> (if \<not> cols i v then append_column (get_col_col i v) s else Some s);
     (if \<not> boxes i v then append_column (get_box_col i v) s else Some s)
   })"

definition add_candidate :: "nat \<Rightarrow> nat \<Rightarrow> solver \<Rightarrow> solver option" where
  "add_candidate i v s = do {
     let row = i div 9;
     let col = i mod 9;
     let box = box_of i;
     (n0, s) \<leftarrow> new_row (int i) s;
     (nr, s) \<leftarrow> new_row (get_row_col row v) s;
     (nc, s) \<leftarrow> new_row (get_col_col col v) s;
     (nb, s) \<leftarrow> new_row (get_box_col box v) s;
     Some (put_left n0 nb (put_left n0 nc (put_left n0 nr s)))
   }"

definition free_cell :: "marks \<times> marks \<times> marks \<Rightarrow> nat \<Rightarrow> nat \<Rightarrow> bool" where
  "free_cell = (\<lambda>(rows, cols, boxes) i v. \<not> (rows (i div 9) v \<or> cols (i mod 9) v \<or> boxes (box_of i) v))"

definition SudokuSolver :: "solver \<Rightarrow> int list \<Rightarrow> solver option" where
  "SudokuSolver mem board = do {
     (r, s) \<leftarrow> new_column 0 (mem\<lparr>inout := board, cur_node := 0, stack := []\<rparr>);
     let s = s\<lparr>root := r, nright := (nright s)(r := r), nleft := (nleft s)(r := r), columns := (\<lambda>_. None)\<rparr>;
     marks \<leftarrow> for_loop (mark_cell board) [0..<kCells] (\<lambda>_ _. False, \<lambda>_ _. False, \<lambda>_ _. False);
     s \<leftarrow> for_loop (\<lambda>i s. if inout s ! i = 0 then append_column (int i) s else Some s) [0..<kCells] s;
     s \<leftarrow> for_loop (\<lambda>i. for_loop (append_units marks i) [1..<10]) [0..<9] s;
     for_loop (\<lambda>i s. if inout s ! i = 0
         then for_loop (\<lambda>v s. if free_cell marks i v then add_candidate i v s else Some s) [1..<10] s
         else Some s) [0..<kCells] s
   }"

section \<open>The function solveSudoku\<close>

text \<open>\<open>char\<close> is signed.\<close>

definition char_value :: "char \<Rightarrow> int" where
  "char_value c = sint (word_of_nat (of_char c) :: 8 word)"

definition solveSudoku :: "solver \<Rightarrow> string \<Rightarrow> string option" where
  "solveSudoku mem puzzle = do {
     ensure (length puzzle = kCells);
     let board = map (\<lambda>c. char_value c - 48) puzzle;
     if list_all (\<lambda>v. 0 \<le> v \<and> v \<le> 9) board then do {
       s \<leftarrow> SudokuSolver mem board;
       (solved, s) \<leftarrow> solve s;
       Some (if solved then map (\<lambda>v. char_of (nat (v + 48))) (inout s) else kNoSolution)
     }
     else Some kNoSolution
   }"

section \<open>Loops\<close>

lemma for_loop_append: "for_loop f (xs @ ys) s = for_loop f xs s \<bind> for_loop f ys"
  by (induction xs arbitrary: s) (auto split: bind_splits)

lemma for_loop_concat: "for_loop (\<lambda>x. for_loop f (g x)) xs s = for_loop f (concat (map g xs)) s"
proof (induction xs arbitrary: s)
  case (Cons x xs)
  then show ?case by (cases "for_loop f (g x) s") (simp_all add: for_loop_append)
qed simp

lemma for_loop_filter: "for_loop (\<lambda>x s. if P x then f x s else Some s) xs s = for_loop f (filter P xs) s"
  by (induction xs arbitrary: s) (auto split: bind_splits)

lemma for_loop_map: "for_loop f (map g xs) s = for_loop (\<lambda>x. f (g x)) xs s"
  by (induction xs arbitrary: s) (auto split: bind_splits)

lemma for_loop_cong:
  "(\<And>x s. x \<in> set xs \<Longrightarrow> I s \<Longrightarrow> f x s = g x s) \<Longrightarrow> (\<And>x s s'. g x s = Some s' \<Longrightarrow> I s \<Longrightarrow> I s') \<Longrightarrow> I s \<Longrightarrow>
   for_loop f xs s = for_loop g xs s"
proof (induction xs arbitrary: s)
  case (Cons x xs)
  have "f x s = g x s" using Cons.prems by simp
  moreover have "for_loop f xs s' = for_loop g xs s'" if "g x s = Some s'" for s'
    by (rule Cons.IH) (use Cons.prems that in auto)
  ultimately show ?case by (cases "g x s") simp_all
qed simp

lemma for_loop_invariant:
  assumes "\<And>x xs s. P xs s \<Longrightarrow> Q xs x \<Longrightarrow> \<exists>s'. f x s = Some s' \<and> P (xs @ [x]) s'"
    and "P [] s" and "\<And>ys x zs. xs = ys @ x # zs \<Longrightarrow> Q ys x"
  shows "\<exists>s'. for_loop f xs s = Some s' \<and> P xs s'"
  using assms(3)
proof (induction xs rule: rev_induct)
  case Nil
  then show ?case using assms(2) by simp
next
  case (snoc x xs)
  obtain s' where s': "for_loop f xs s = Some s'" "P xs s'" using snoc.IH snoc.prems by (metis append_assoc append_Cons)
  moreover have "Q xs x" using snoc.prems [of xs x "[]"] by simp
  ultimately show ?case using assms(1) [of xs s' x] by (auto simp: for_loop_append)
qed

section \<open>What the clues forbid\<close>

text \<open>The units of a board: \<open>unit_of 0\<close> is the row of a cell, \<open>unit_of 1\<close> its column, \<open>unit_of 2\<close> its box.\<close>

definition unit_of :: "nat \<Rightarrow> nat \<Rightarrow> nat" where
  "unit_of u k = (if u = 0 then k div 9 else if u = 1 then k mod 9 else box_of k)"

definition clue :: "int list \<Rightarrow> nat \<Rightarrow> nat \<Rightarrow> nat \<Rightarrow> bool" where
  "clue board u i v \<longleftrightarrow> (\<exists>k<81. unit_of u k = i \<and> board ! k = int v)"

definition clues :: "int list \<Rightarrow> marks \<times> marks \<times> marks" where
  "clues board = (clue board 0, clue board 1, clue board 2)"

lemma mark_loop:
  assumes "\<And>k. k < n \<Longrightarrow> 0 \<le> board ! k \<and> board ! k < 10"
  shows "for_loop (mark_cell board) [0..<n] (\<lambda>_ _. False, \<lambda>_ _. False, \<lambda>_ _. False) =
    Some (\<lambda>i v. \<exists>k<n. unit_of 0 k = i \<and> board ! k = int v, \<lambda>i v. \<exists>k<n. unit_of 1 k = i \<and> board ! k = int v,
          \<lambda>i v. \<exists>k<n. unit_of 2 k = i \<and> board ! k = int v)"
  using assms
proof (induction n)
  case (Suc n)
  have *: "set_mark (\<lambda>i v. \<exists>k<n. f k = i \<and> board ! k = int v) (f n) (nat (board ! n)) =
      (\<lambda>i v. \<exists>k<Suc n. f k = i \<and> board ! k = int v)" for f :: "nat \<Rightarrow> nat"
    using Suc.prems [of n] by (auto simp: set_mark_def less_Suc_eq fun_eq_iff)
  have u: "n div 9 = unit_of 0 n" "n mod 9 = unit_of 1 n" "box_of n = unit_of 2 n" by (simp_all add: unit_of_def)
  have "mark_cell board n (\<lambda>i v. \<exists>k<n. unit_of 0 k = i \<and> board ! k = int v, \<lambda>i v. \<exists>k<n. unit_of 1 k = i \<and> board ! k = int v,
          \<lambda>i v. \<exists>k<n. unit_of 2 k = i \<and> board ! k = int v) =
     Some (\<lambda>i v. \<exists>k<Suc n. unit_of 0 k = i \<and> board ! k = int v, \<lambda>i v. \<exists>k<Suc n. unit_of 1 k = i \<and> board ! k = int v,
          \<lambda>i v. \<exists>k<Suc n. unit_of 2 k = i \<and> board ! k = int v)"
    using Suc.prems [of n] by (simp add: mark_cell_def u *)
  then show ?case using Suc by (simp add: for_loop_append)
qed simp

lemma mark_loop_clues:
  "length board = 81 \<Longrightarrow> \<forall>v\<in>set board. 0 \<le> v \<and> v \<le> 9 \<Longrightarrow>
   for_loop (mark_cell board) [0..<kCells] (\<lambda>_ _. False, \<lambda>_ _. False, \<lambda>_ _. False) = Some (clues board)"
proof -
  assume l: "length board = 81" and v: "\<forall>v\<in>set board. 0 \<le> v \<and> v \<le> 9"
  have "0 \<le> board ! k \<and> board ! k < 10" if "k < 81" for k
    using bspec [OF v nth_mem, of k] that l by simp
  moreover have "clues board = (\<lambda>i v. \<exists>k<81. unit_of 0 k = i \<and> board ! k = int v,
      \<lambda>i v. \<exists>k<81. unit_of 1 k = i \<and> board ! k = int v, \<lambda>i v. \<exists>k<81. unit_of 2 k = i \<and> board ! k = int v)"
    by (simp add: clues_def clue_def fun_eq_iff)
  ultimately show ?thesis using mark_loop [of 81 board] by (simp only: kCells_def)
qed

section \<open>Building the headers\<close>

text \<open>A node put to the left of \<open>c\<close> (or above it) becomes the last of the ring.\<close>

lemma lnk_insert_last:
  assumes "lnk f g c ns c" "distinct (c # ns)" "r \<notin> set (c # ns)"
  shows "lnk ((f(r := c))(g c := r)) ((g(r := g c))(c := r)) c (ns @ [r]) c"
proof (cases ns rule: rev_cases)
  case Nil
  then show ?thesis using assms by auto
next
  case (snoc us u)
  have gc: "g c = u" using lnk_last [OF assms(1)] snoc by simp
  have "lnk f g c us u" using assms(1) snoc by simp
  then have "lnk ((f(r := c))(u := r)) ((g(r := u))(c := r)) c us u"
    by (rule lnk_cong) (use assms snoc in auto)
  with gc snoc assms show ?thesis by auto
qed

lemma put_left_sel [simp]:
  "nup (put_left c r s) = nup s" "ndown (put_left c r s) = ndown s" "ncol (put_left c r s) = ncol s"
  "nname (put_left c r s) = nname s" "nsize (put_left c r s) = nsize s" "root (put_left c r s) = root s"
  "inout (put_left c r s) = inout s" "columns (put_left c r s) = columns s"
  "stack (put_left c r s) = stack s" "cur_node (put_left c r s) = cur_node s"
  "r \<noteq> c \<Longrightarrow> nright (put_left c r s) = ((nright s)(r := c))(nleft s c := r)"
  "r \<noteq> c \<Longrightarrow> nleft (put_left c r s) = ((nleft s)(r := nleft s c))(c := r)"
  by (simp_all add: put_left_def Let_def)

lemma put_up_sel [simp]:
  "nleft (put_up c r s) = nleft s" "nright (put_up c r s) = nright s" "ncol (put_up c r s) = (ncol s)(r := c)"
  "nname (put_up c r s) = nname s" "nsize (put_up c r s) = (nsize s)(c := nsize s c + 1)" "root (put_up c r s) = root s"
  "inout (put_up c r s) = inout s" "columns (put_up c r s) = columns s"
  "stack (put_up c r s) = stack s" "cur_node (put_up c r s) = cur_node s"
  "r \<noteq> c \<Longrightarrow> ndown (put_up c r s) = ((ndown s)(r := c))(nup s c := r)"
  "r \<noteq> c \<Longrightarrow> nup (put_up c r s) = ((nup s)(r := nup s c))(c := r)"
  by (simp_all add: put_up_def Let_def)

text \<open>
  The object while it is built: the columns \<open>nms\<close> are nodes \<open>1, 2, ...\<close> in this order, the nodes of rows
  follow, \<open>xs\<close> are their names; \<open>in_column nms xs c\<close> are the nodes of column \<open>c\<close> from top to bottom.
\<close>

definition header_nodes :: "int list \<Rightarrow> nat list" where
  "header_nodes nms = [1..<Suc (length nms)]"

lemma header_nodes_snoc [simp]: "header_nodes (nms @ [n]) = header_nodes nms @ [Suc (length nms)]"
  by (simp add: header_nodes_def)

lemma set_header_nodes [simp]: "c \<in> set (header_nodes nms) \<longleftrightarrow> 1 \<le> c \<and> c \<le> length nms"
  unfolding header_nodes_def by (simp only: set_upt atLeastLessThan_iff less_Suc_eq_le)

lemma distinct_header_nodes [simp]: "distinct (header_nodes nms)"
  unfolding header_nodes_def by (rule distinct_upt)

lemma length_header_nodes [simp]: "length (header_nodes nms) = length nms"
  unfolding header_nodes_def by (simp only: length_upt diff_Suc_1')

definition in_column :: "int list \<Rightarrow> int list \<Rightarrow> nat \<Rightarrow> nat list" where
  "in_column nms xs c = map (\<lambda>k. Suc (length nms) + k) (filter (\<lambda>k. xs ! k = nms ! (c - 1)) [0..<length xs])"

definition headers_ok :: "solver \<Rightarrow> int list \<Rightarrow> bool" where
  "headers_ok s nms \<longleftrightarrow> root s = 0 \<and> ncol s 0 = 0 \<and> lnk (nright s) (nleft s) 0 (header_nodes nms) 0 \<and>
     (\<forall>k<length nms. ncol s (Suc k) = Suc k \<and> nname s (Suc k) = nms ! k \<and> columns s (nms ! k) = Some (Suc k)) \<and>
     (\<forall>n. n \<notin> set nms \<longrightarrow> columns s n = None)"

definition building :: "solver \<Rightarrow> int list \<Rightarrow> int list \<Rightarrow> bool" where
  "building s nms xs \<longleftrightarrow> headers_ok s nms \<and> cur_node s = Suc (length nms) + length xs \<and>
     (\<forall>c. 1 \<le> c \<and> c \<le> length nms \<longrightarrow>
        lnk (ndown s) (nup s) c (in_column nms xs c) c \<and> nsize s c = int (length (in_column nms xs c))) \<and>
     (\<forall>k<length xs. nname s (Suc (length nms) + k) = xs ! k \<and>
        columns s (xs ! k) = Some (ncol s (Suc (length nms) + k)))"

lemma append_column_ok:
  assumes b: "building s nms []" and n: "n \<notin> set nms" "0 \<le> n" "n < 400" and l: "Suc (length nms) < kMaxNodes"
  shows "\<exists>s'. append_column n s = Some s' \<and> building s' (nms @ [n]) [] \<and> inout s' = inout s \<and> stack s' = stack s"
proof -
  let ?r = "Suc (length nms)"
  have h: "root s = 0" "ncol s 0 = 0" "lnk (nright s) (nleft s) 0 (header_nodes nms) 0" "columns s n = None"
    and c: "cur_node s = ?r"
    using b n by (auto simp: building_def headers_ok_def)
  define t where "t = s\<lparr>cur_node := ?r + 1, nleft := (nleft s)(?r := ?r), nright := (nright s)(?r := ?r),
       nup := (nup s)(?r := ?r), ndown := (ndown s)(?r := ?r), ncol := (ncol s)(?r := ?r),
       nname := (nname s)(?r := n), nsize := (nsize s)(?r := 0)\<rparr>"
  define s' where "s' = (put_left 0 ?r t)\<lparr>columns := (columns s)(n \<mapsto> ?r)\<rparr>"
  have 1: "append_column n s = Some s'"
    using n l h by (simp add: append_column_def new_column_def c t_def s'_def Let_def)
  have "lnk (nright t) (nleft t) 0 (header_nodes nms) 0"
    by (rule lnk_cong [OF h(3)]) (auto simp: t_def)
  from lnk_insert_last [OF this, of ?r]
  have "lnk (nright s') (nleft s') 0 (header_nodes (nms @ [n])) 0" by (simp add: s'_def)
  then have "headers_ok s' (nms @ [n])"
    using b n by (auto simp: building_def headers_ok_def s'_def t_def h nth_append less_Suc_eq)
  moreover have "building s' (nms @ [n]) []"
    using b calculation by (auto simp: building_def s'_def t_def c in_column_def le_Suc_eq)
  ultimately show ?thesis using 1 by (simp add: s'_def t_def)
qed

section \<open>Building the rows\<close>

lemma in_column_snoc:
  "in_column nms (xs @ [x]) c = in_column nms xs c @ (if x = nms ! (c - 1) then [Suc (length nms) + length xs] else [])"
proof -
  have "filter (\<lambda>k. (xs @ [x]) ! k = nms ! (c - 1)) [0..<length xs] = filter (\<lambda>k. xs ! k = nms ! (c - 1)) [0..<length xs]"
    by (rule filter_cong) (simp_all add: nth_append)
  then show ?thesis by (simp add: in_column_def)
qed

lemma in_column_mem:
  "n \<in> set (in_column nms xs c) \<longleftrightarrow>
     (\<exists>k<length xs. n = Suc (length nms) + k \<and> xs ! k = nms ! (c - 1))"
  by (auto simp: in_column_def)

lemma distinct_in_column: "distinct (in_column nms xs c)"
  by (auto simp: in_column_def distinct_map inj_on_def)

lemma building_col:
  assumes "building s nms xs" "distinct nms" "k < length xs"
  shows "\<exists>j<length nms. xs ! k = nms ! j \<and> ncol s (Suc (length nms) + k) = Suc j"
proof -
  have c: "columns s (xs ! k) = Some (ncol s (Suc (length nms) + k))" using assms by (simp add: building_def)
  then have "xs ! k \<in> set nms" using assms(1) by (auto simp: building_def headers_ok_def)
  then obtain j where j: "j < length nms" "xs ! k = nms ! j" by (auto simp: in_set_conv_nth)
  moreover have "columns s (nms ! j) = Some (Suc j)" using assms(1) j by (simp add: building_def headers_ok_def)
  ultimately show ?thesis using c by auto
qed

lemma new_row_ok:
  assumes b: "building s nms xs" and d: "distinct nms" and x: "x \<in> set nms" "0 \<le> x" "x < 400"
    and l: "Suc (length nms) + length xs < kMaxNodes"
  defines "r \<equiv> Suc (length nms) + length xs"
  shows "\<exists>s'. new_row x s = Some (r, s') \<and> building s' nms (xs @ [x]) \<and> nright s' = (nright s)(r := r) \<and>
     nleft s' = (nleft s)(r := r) \<and> inout s' = inout s \<and> stack s' = stack s"
proof -
  obtain j where j: "j < length nms" "x = nms ! j" using x(1) by (auto simp: in_set_conv_nth)
  let ?c = "Suc j"
  have col: "columns s x = Some ?c" using b j by (simp add: building_def headers_ok_def)
  have cur: "cur_node s = r" using b by (simp add: building_def r_def)
  define t where "t = s\<lparr>cur_node := r + 1, nleft := (nleft s)(r := r), nright := (nright s)(r := r),
       nup := (nup s)(r := r), ndown := (ndown s)(r := r),
       nname := (nname s)(r := x), nsize := (nsize s)(r := 0), ncol := (ncol s)(r := ?c)\<rparr>"
  define s' where "s' = put_up ?c r t"
  have rc: "r \<noteq> ?c" "length nms < r" using j by (auto simp: r_def)
  have 1: "new_row x s = Some (r, s')"
    using x l by (simp add: new_row_def col cur Let_def s'_def t_def r_def)
  have ring: "lnk (ndown s) (nup s) (Suc i) (in_column nms xs (Suc i)) (Suc i)"
    and size: "nsize s (Suc i) = int (length (in_column nms xs (Suc i)))" if "i < length nms" for i
    using b that by (auto simp: building_def)
  have fresh: "r \<notin> set (in_column nms xs i)" "i \<le> length nms \<Longrightarrow> i \<notin> set (in_column nms xs k)" for i k
    by (auto simp: in_column_mem r_def)
  have ringt: "lnk (ndown t) (nup t) (Suc i) (in_column nms xs (Suc i)) (Suc i)" if "i < length nms" for i
    by (rule lnk_cong [OF ring [OF that]]) (use rc fresh that in \<open>auto simp: t_def\<close>)
  have up: "nup t ?c \<in> set (?c # in_column nms xs ?c)"
    using lnk_last [OF ringt [OF j(1)]] by (metis last_in_set list.discI)
  have "lnk (ndown s') (nup s') (Suc i) (in_column nms (xs @ [x]) (Suc i)) (Suc i) \<and>
        nsize s' (Suc i) = int (length (in_column nms (xs @ [x]) (Suc i)))" if i: "i < length nms" for i
  proof (cases "i = j")
    case True
    have "lnk (ndown s') (nup s') ?c (in_column nms xs ?c @ [r]) ?c"
      using lnk_insert_last [OF ringt [OF j(1)], of r] fresh rc distinct_in_column j(1) by (simp add: s'_def)
    with True j(2) size [OF i] rc show ?thesis by (simp add: in_column_snoc r_def s'_def t_def)
  next
    case False
    then have "nms ! i \<noteq> x" using d i j by (auto simp: nth_eq_iff_index_eq)
    then have same: "in_column nms (xs @ [x]) (Suc i) = in_column nms xs (Suc i)" by (auto simp: in_column_snoc)
    have nu: "nup t ?c \<notin> set (Suc i # in_column nms xs (Suc i))"
      using up False \<open>nms ! i \<noteq> x\<close> j i by (auto simp: in_column_mem)
    have "lnk (ndown s') (nup s') (Suc i) (in_column nms xs (Suc i)) (Suc i)"
      by (rule lnk_cong [OF ringt [OF i]])
        (use nu False rc fresh i j in \<open>auto simp: s'_def in_column_mem r_def\<close>)
    with same size [OF i] False rc i show ?thesis by (simp add: s'_def t_def)
  qed
  then have "\<forall>c. 1 \<le> c \<and> c \<le> length nms \<longrightarrow> lnk (ndown s') (nup s') c (in_column nms (xs @ [x]) c) c \<and>
        nsize s' c = int (length (in_column nms (xs @ [x]) c))"
    by (metis Suc_le_D Suc_le_lessD One_nat_def)
  moreover have "headers_ok s' nms"
  proof -
    have "lnk (nright s') (nleft s') 0 (header_nodes nms) 0"
      by (rule lnk_cong [of "nright s" "nleft s"]) (use b rc in \<open>auto simp: building_def headers_ok_def s'_def t_def\<close>)
    then show ?thesis using b rc by (auto simp: building_def headers_ok_def s'_def t_def)
  qed
  moreover have "\<forall>k<length (xs @ [x]). nname s' (Suc (length nms) + k) = (xs @ [x]) ! k \<and>
        columns s' ((xs @ [x]) ! k) = Some (ncol s' (Suc (length nms) + k))"
    using b col by (auto simp: building_def s'_def t_def nth_append less_Suc_eq r_def)
  ultimately have "building s' nms (xs @ [x])" by (simp add: building_def s'_def t_def r_def)
  with 1 show ?thesis by (simp add: s'_def t_def)
qed

lemma put_left_ring:
  assumes l: "lnk (nright s) (nleft s) b ns b" and d: "distinct (b # ns @ [r])" and ge: "\<And>x. x \<in> set ns \<Longrightarrow> b \<le> x" "b \<le> r"
  shows "lnk (nright (put_left b r s)) (nleft (put_left b r s)) b (ns @ [r]) b"
    "\<And>x. x < b \<Longrightarrow> nright (put_left b r s) x = nright s x \<and> nleft (put_left b r s) x = nleft s x"
proof -
  have r: "r \<noteq> b" using d by auto
  show "lnk (nright (put_left b r s)) (nleft (put_left b r s)) b (ns @ [r]) b"
    using lnk_insert_last [OF l, of r] d r by simp
  have "nleft s b \<in> set (b # ns)" using lnk_last [OF l] by (metis last_in_set list.discI)
  then have "b \<le> nleft s b" using ge by auto
  then show "\<And>x. x < b \<Longrightarrow> nright (put_left b r s) x = nright s x \<and> nleft (put_left b r s) x = nleft s x"
    using r ge by auto
qed

lemma building_frame:
  assumes "building s nms xs" "\<And>x. x \<le> length nms \<Longrightarrow> nright t x = nright s x \<and> nleft t x = nleft s x"
    "nup t = nup s" "ndown t = ndown s" "ncol t = ncol s" "nname t = nname s" "nsize t = nsize s"
    "root t = root s" "columns t = columns s" "cur_node t = cur_node s"
  shows "building t nms xs"
proof -
  have "lnk (nright t) (nleft t) 0 (header_nodes nms) 0"
    by (rule lnk_cong [of "nright s" "nleft s"]) (use assms in \<open>auto simp: building_def headers_ok_def\<close>)
  with assms show ?thesis by (simp add: building_def headers_ok_def)
qed

definition cand_names :: "nat \<times> nat \<Rightarrow> int list" where
  "cand_names = (\<lambda>(i, v). [int i, get_row_col (i div 9) v, get_col_col (i mod 9) v, get_box_col (box_of i) v])"

definition row_names :: "(nat \<times> nat) list \<Rightarrow> int list" where
  "row_names cs = concat (map cand_names cs)"

lemma row_names_snoc [simp]: "row_names [] = []" "row_names (cs @ [c]) = row_names cs @ cand_names c"
  by (simp_all add: row_names_def)

lemma length_row_names [simp]: "length (row_names cs) = 4 * length cs"
  by (induction cs rule: rev_induct) (auto simp: cand_names_def)

text \<open>The first node of the row of the \<open>k\<close>-th candidate.\<close>

definition base :: "int list \<Rightarrow> nat \<Rightarrow> nat" where
  "base nms k = Suc (length nms) + 4 * k"

definition built :: "solver \<Rightarrow> int list \<Rightarrow> (nat \<times> nat) list \<Rightarrow> bool" where
  "built s nms cs \<longleftrightarrow> building s nms (row_names cs) \<and>
     (\<forall>k<length cs. lnk (nright s) (nleft s) (base nms k) [base nms k + 1, base nms k + 2, base nms k + 3] (base nms k))"

lemma four_rows:
  assumes b: "building s nms xs" and d: "distinct nms" and x: "set ns \<subseteq> set nms" "ns = [x0, x1, x2, x3]"
    and r: "\<forall>x\<in>set nms. 0 \<le> x \<and> x < 400" and l: "Suc (length nms) + length xs + 3 < kMaxNodes"
  defines "n \<equiv> Suc (length nms) + length xs"
  shows "\<exists>s0 s1 s2 s3. new_row x0 s = Some (n, s0) \<and> new_row x1 s0 = Some (n + 1, s1) \<and>
     new_row x2 s1 = Some (n + 2, s2) \<and> new_row x3 s2 = Some (n + 3, s3) \<and> building s3 nms (xs @ ns) \<and>
     nright s3 = (nright s)(n := n, n + 1 := n + 1, n + 2 := n + 2, n + 3 := n + 3) \<and>
     nleft s3 = (nleft s)(n := n, n + 1 := n + 1, n + 2 := n + 2, n + 3 := n + 3) \<and> inout s3 = inout s \<and> stack s3 = stack s"
proof -
  have len: "Suc (length nms) + length xs = n" "Suc (length nms) + length (xs @ [x0]) = n + 1"
    "Suc (length nms) + length ((xs @ [x0]) @ [x1]) = n + 2" "Suc (length nms) + length (((xs @ [x0]) @ [x1]) @ [x2]) = n + 3"
    by (simp_all add: n_def)
  have xr: "x \<in> set ns \<Longrightarrow> x \<in> set nms \<and> 0 \<le> x \<and> x < 400" for x using x(1) r by auto
  have lt: "n + 3 < kMaxNodes" using l by (simp add: n_def)
  obtain s0 where 0: "new_row x0 s = Some (n, s0)" "building s0 nms (xs @ [x0])" "nright s0 = (nright s)(n := n)"
    "nleft s0 = (nleft s)(n := n)" "inout s0 = inout s" "stack s0 = stack s"
    using new_row_ok [OF b d, of x0, unfolded len] xr [of x0] lt x(2) by auto
  obtain s1 where 1: "new_row x1 s0 = Some (n + 1, s1)" "building s1 nms ((xs @ [x0]) @ [x1])"
    "nright s1 = (nright s0)(n + 1 := n + 1)" "nleft s1 = (nleft s0)(n + 1 := n + 1)" "inout s1 = inout s0" "stack s1 = stack s0"
    using new_row_ok [OF 0(2) d, of x1, unfolded len] xr [of x1] lt x(2) by auto
  obtain s2 where 2: "new_row x2 s1 = Some (n + 2, s2)" "building s2 nms (((xs @ [x0]) @ [x1]) @ [x2])"
    "nright s2 = (nright s1)(n + 2 := n + 2)" "nleft s2 = (nleft s1)(n + 2 := n + 2)" "inout s2 = inout s1" "stack s2 = stack s1"
    using new_row_ok [OF 1(2) d, of x2, unfolded len] xr [of x2] lt x(2) by auto
  obtain s3 where 3: "new_row x3 s2 = Some (n + 3, s3)" "building s3 nms ((((xs @ [x0]) @ [x1]) @ [x2]) @ [x3])"
    "nright s3 = (nright s2)(n + 3 := n + 3)" "nleft s3 = (nleft s2)(n + 3 := n + 3)" "inout s3 = inout s2" "stack s3 = stack s2"
    using new_row_ok [OF 2(2) d, of x3, unfolded len] xr [of x3] lt x(2) by auto
  from 0 1 2 3 x(2) show ?thesis by (intro exI [of _ s0] exI [of _ s1] exI [of _ s2] exI [of _ s3]) simp
qed

lemma add_candidate_ok:
  assumes b: "built s nms cs" and d: "distinct nms" and x: "set (cand_names (i, v)) \<subseteq> set nms"
    and r: "\<forall>x\<in>set nms. 0 \<le> x \<and> x < 400" and l: "base nms (length cs) + 3 < kMaxNodes"
  shows "\<exists>s'. add_candidate i v s = Some s' \<and> built s' nms (cs @ [(i, v)]) \<and> inout s' = inout s \<and> stack s' = stack s"
proof -
  let ?n = "base nms (length cs)"
  have bs: "building s nms (row_names cs)" using b by (simp add: built_def)
  have "cand_names (i, v) = [int i, get_row_col (i div 9) v, get_col_col (i mod 9) v, get_box_col (box_of i) v]"
    by (simp add: cand_names_def)
  from four_rows [OF bs d x this r] l obtain s0 s1 s2 s3 where
    s: "new_row (int i) s = Some (?n, s0)" "new_row (get_row_col (i div 9) v) s0 = Some (?n + 1, s1)"
      "new_row (get_col_col (i mod 9) v) s1 = Some (?n + 2, s2)" "new_row (get_box_col (box_of i) v) s2 = Some (?n + 3, s3)"
    and b3: "building s3 nms (row_names cs @ cand_names (i, v))"
    and rl: "nright s3 = (nright s)(?n := ?n, ?n + 1 := ?n + 1, ?n + 2 := ?n + 2, ?n + 3 := ?n + 3)"
      "nleft s3 = (nleft s)(?n := ?n, ?n + 1 := ?n + 1, ?n + 2 := ?n + 2, ?n + 3 := ?n + 3)"
    and io: "inout s3 = inout s" "stack s3 = stack s"
    by (auto simp: base_def)
  define t1 where "t1 = put_left ?n (?n + 1) s3"
  define t2 where "t2 = put_left ?n (?n + 2) t1"
  define t3 where "t3 = put_left ?n (?n + 3) t2"
  have 1: "add_candidate i v s = Some t3" by (simp add: add_candidate_def s t1_def t2_def t3_def Let_def)
  have p0: "lnk (nright s3) (nleft s3) ?n [] ?n" by (simp add: rl)
  have p1: "lnk (nright t1) (nleft t1) ?n ([] @ [?n + 1]) ?n" "y < ?n \<Longrightarrow> nright t1 y = nright s3 y \<and> nleft t1 y = nleft s3 y" for y
    unfolding t1_def by (rule put_left_ring [OF p0]; simp)+
  have p2: "lnk (nright t2) (nleft t2) ?n (([] @ [?n + 1]) @ [?n + 2]) ?n"
    "y < ?n \<Longrightarrow> nright t2 y = nright t1 y \<and> nleft t2 y = nleft t1 y" for y
    unfolding t2_def by (rule put_left_ring [OF p1(1)]; simp)+
  have p3: "lnk (nright t3) (nleft t3) ?n ((([] @ [?n + 1]) @ [?n + 2]) @ [?n + 3]) ?n"
    "y < ?n \<Longrightarrow> nright t3 y = nright t2 y \<and> nleft t3 y = nleft t2 y" for y
    unfolding t3_def by (rule put_left_ring [OF p2(1)]; force)+
  have same: "nright t3 y = nright s y \<and> nleft t3 y = nleft s y" if "y < ?n" for y
    using p1(2) p2(2) p3(2) that by (simp add: rl)
  have "building t3 nms (row_names (cs @ [(i, v)]))"
    unfolding row_names_snoc
    by (rule building_frame [OF b3]) (use same rl in \<open>auto simp: base_def t1_def t2_def t3_def\<close>)
  moreover have "lnk (nright t3) (nleft t3) (base nms k) [base nms k + 1, base nms k + 2, base nms k + 3] (base nms k)"
    if k: "k < length cs" for k
  proof (rule lnk_cong [of "nright s" "nleft s"])
    show "lnk (nright s) (nleft s) (base nms k) [base nms k + 1, base nms k + 2, base nms k + 3] (base nms k)"
      using b k by (simp add: built_def)
  qed (use k same in \<open>auto simp: base_def\<close>)
  moreover have "lnk (nright t3) (nleft t3) ?n [?n + 1, ?n + 2, ?n + 3] ?n" using p3(1) by (simp only: append.simps)
  ultimately have "built t3 nms (cs @ [(i, v)])" unfolding built_def by (simp only: length_append_singleton less_Suc_eq) blast
  with 1 io show ?thesis by (simp add: t1_def t2_def t3_def)
qed

section \<open>The columns and rows of a board\<close>

text \<open>The names of the columns in the order of the constructor, and the candidates: pairs of a free cell and a digit.\<close>

definition unit_names :: "marks \<times> marks \<times> marks \<Rightarrow> nat \<Rightarrow> nat \<Rightarrow> int list" where
  "unit_names = (\<lambda>(rows, cols, boxes) i v.
     (if \<not> rows i v then [get_row_col i v] else []) @ (if \<not> cols i v then [get_col_col i v] else []) @
     (if \<not> boxes i v then [get_box_col i v] else []))"

definition column_names :: "int list \<Rightarrow> int list" where
  "column_names board = map int (filter (\<lambda>i. board ! i = 0) [0..<kCells]) @
     concat (map (\<lambda>i. concat (map (unit_names (clues board) i) [1..<10])) [0..<9])"

definition candidates :: "int list \<Rightarrow> (nat \<times> nat) list" where
  "candidates board = concat (map (\<lambda>i. map (\<lambda>v. (i, v)) (filter (free_cell (clues board) i) [1..<10]))
     (filter (\<lambda>i. board ! i = 0) [0..<kCells]))"

lemma append_column_inout: "append_column n s = Some s' \<Longrightarrow> inout s' = inout s"
  by (auto simp: append_column_def new_column_def Let_def)

lemma new_row_inout: "new_row n s = Some (r, s') \<Longrightarrow> inout s' = inout s"
  by (auto simp: new_row_def Let_def bind_eq_Some_conv)

lemma add_candidate_inout: "add_candidate i v s = Some s' \<Longrightarrow> inout s' = inout s"
  by (auto simp: add_candidate_def Let_def bind_eq_Some_conv dest!: new_row_inout)

lemma for_loop_inout:
  "(\<And>x s s'. f x s = Some s' \<Longrightarrow> inout s' = inout s) \<Longrightarrow> for_loop f xs s = Some s' \<Longrightarrow> inout s' = inout s"
  by (induction xs arbitrary: s) (auto simp: bind_eq_Some_conv)

lemma append_units_loop: "append_units m i v s = for_loop append_column (unit_names m i v) s"
  by (cases m) (auto simp: append_units_def unit_names_def for_loop_append split: bind_splits)

lemma cell_columns_loop:
  "inout s = board \<Longrightarrow> for_loop (\<lambda>i s. if inout s ! i = 0 then append_column (int i) s else Some s) is s =
     for_loop append_column (map int (filter (\<lambda>i. board ! i = 0) is)) s"
proof -
  assume "inout s = board"
  then have "for_loop (\<lambda>i s. if inout s ! i = 0 then append_column (int i) s else Some s) is s =
      for_loop (\<lambda>i s. if board ! i = 0 then append_column (int i) s else Some s) is s"
    by (intro for_loop_cong [where I = "\<lambda>s. inout s = board"])
      (auto dest: append_column_inout split: if_splits)
  then show ?thesis by (simp add: for_loop_map for_loop_filter [of "\<lambda>i. board ! i = 0"])
qed

lemma unit_columns_loop:
  "for_loop (\<lambda>i. for_loop (append_units m i) vs) is s =
     for_loop append_column (concat (map (\<lambda>i. concat (map (unit_names m i) vs)) is)) s"
proof -
  have "append_units m i = (\<lambda>v. for_loop append_column (unit_names m i v))" for i
    by (intro ext) (rule append_units_loop)
  then have "(\<lambda>i. for_loop (append_units m i) vs) = (\<lambda>i. for_loop append_column (concat (map (unit_names m i) vs)))"
    by (intro ext) (simp only: for_loop_concat)
  then show ?thesis by (simp only: for_loop_concat)
qed

lemma candidates_loop:
  "inout s = board \<Longrightarrow>
   for_loop (\<lambda>i s. if inout s ! i = 0 then for_loop (\<lambda>v s. if free_cell m i v then add_candidate i v s else Some s) vs s
       else Some s) is s =
   for_loop (\<lambda>(i, v). add_candidate i v)
     (concat (map (\<lambda>i. map (\<lambda>v. (i, v)) (filter (free_cell m i) vs)) (filter (\<lambda>i. board ! i = 0) is))) s"
proof -
  assume io: "inout s = board"
  have inner: "for_loop (\<lambda>v s. if free_cell m i v then add_candidate i v s else Some s) vs s =
      for_loop (\<lambda>(i, v). add_candidate i v) (map (\<lambda>v. (i, v)) (filter (free_cell m i) vs)) s" for i s
    by (simp add: for_loop_map for_loop_filter [of "free_cell m i"])
  have "for_loop (\<lambda>i s. if inout s ! i = 0
        then for_loop (\<lambda>(i, v). add_candidate i v) (map (\<lambda>v. (i, v)) (filter (free_cell m i) vs)) s else Some s) is s =
      for_loop (\<lambda>i s. if board ! i = 0
        then for_loop (\<lambda>(i, v). add_candidate i v) (map (\<lambda>v. (i, v)) (filter (free_cell m i) vs)) s else Some s) is s"
    using io by (intro for_loop_cong [where I = "\<lambda>s. inout s = board"])
      (auto dest!: for_loop_inout [rotated] add_candidate_inout split: if_splits)
  also have "\<dots> = for_loop (\<lambda>(i, v). add_candidate i v)
      (concat (map (\<lambda>i. map (\<lambda>v. (i, v)) (filter (free_cell m i) vs)) (filter (\<lambda>i. board ! i = 0) is))) s"
    by (simp only: for_loop_filter for_loop_concat)
  finally show ?thesis by (simp only: inner)
qed

definition unit_name :: "nat \<Rightarrow> nat \<Rightarrow> nat \<Rightarrow> int" where
  "unit_name u i v = 100 * (int u + 1) + 10 * int i + int v"

lemma unit_name_simps:
  "get_row_col i v = unit_name 0 i v" "get_col_col i v = unit_name 1 i v" "get_box_col i v = unit_name 2 i v"
  by (simp_all add: get_row_col_def get_col_col_def get_box_col_def unit_name_def kRow_def kCol_def kBox_def)

lemma less_3: "(u :: nat) < 3 \<longleftrightarrow> u = 0 \<or> u = 1 \<or> u = 2"
  by auto

lemma unit_name_eq:
  "i < 9 \<Longrightarrow> i' < 9 \<Longrightarrow> v < 10 \<Longrightarrow> v' < 10 \<Longrightarrow> u < 3 \<Longrightarrow> u' < 3 \<Longrightarrow>
   unit_name u i v = unit_name u' i' v' \<longleftrightarrow> u = u' \<and> i = i' \<and> v = v'"
proof -
  assume h: "i < 9" "i' < 9" "v < 10" "v' < 10"
  have digits: "a = a' \<and> b = b'" if e: "c * a + b = c * a' + b'" and b: "b < c" "b' < c" for a b a' b' c :: nat
  proof -
    have "(c * a + b) div c = a" "(c * a' + b') div c = a'" using b by simp_all
    with e have "a = a'" by simp
    with e show ?thesis by simp
  qed
  have "unit_name u i v = unit_name u' i' v' \<longleftrightarrow>
      int (100 * u + (10 * i + v)) = int (100 * u' + (10 * i' + v'))" by (simp add: unit_name_def)
  then have "unit_name u i v = unit_name u' i' v' \<longleftrightarrow> 100 * u + (10 * i + v) = 100 * u' + (10 * i' + v')"
    by (simp only: of_nat_eq_iff)
  then show ?thesis using digits [of 100 u "10 * i + v" u' "10 * i' + v'"] digits [of 10 i v i' v'] h by auto
qed

lemma unit_names_mem:
  "n \<in> set (unit_names (clues board) i v) \<longleftrightarrow> (\<exists>u<3. \<not> clue board u i v \<and> n = unit_name u i v)"
  by (auto simp: unit_names_def clues_def unit_name_simps less_3)

lemma unit_of_less: "k < 81 \<Longrightarrow> unit_of u k < 9"
proof -
  assume k: "k < 81"
  have "k div 9 < 9" using k by (simp add: less_mult_imp_div_less)
  then have "k div 9 div 3 < 3" by (simp add: less_mult_imp_div_less)
  moreover have "k mod 9 div 3 < 3" by (simp add: less_mult_imp_div_less)
  ultimately show ?thesis using \<open>k div 9 < 9\<close> by (simp add: unit_of_def box_of_def Let_def)
qed

lemma set_upt_9: "i \<in> set [0..<9] \<longleftrightarrow> i < 9" "v \<in> set [1..<10] \<longleftrightarrow> 1 \<le> v \<and> v < 10" "i \<in> set [0..<kCells] \<longleftrightarrow> i < 81"
  by (simp_all only: set_upt atLeastLessThan_iff kCells_def) simp_all

lemma set_concat_map: "set (concat (map f xs)) = (\<Union>x\<in>set xs. set (f x))"
  by simp

lemma column_names_mem:
  "n \<in> set (column_names board) \<longleftrightarrow> (\<exists>k<81. board ! k = 0 \<and> n = int k) \<or>
     (\<exists>u<3. \<exists>i<9. \<exists>v. 1 \<le> v \<and> v < 10 \<and> \<not> clue board u i v \<and> n = unit_name u i v)"
  unfolding column_names_def set_append set_concat_map Un_iff UN_iff unit_names_mem set_map set_filter
  by (simp only: image_iff mem_Collect_eq set_upt_9 Bex_def) blast

lemma candidates_mem:
  "(i, v) \<in> set (candidates board) \<longleftrightarrow>
     i < 81 \<and> board ! i = 0 \<and> 1 \<le> v \<and> v < 10 \<and> (\<forall>u<3. \<not> clue board u (unit_of u i) v)"
proof -
  have "free_cell (clues board) i v \<longleftrightarrow> (\<forall>u<3. \<not> clue board u (unit_of u i) v)"
    by (auto simp: free_cell_def clues_def less_3 unit_of_def)
  moreover have "(i, v) \<in> set (candidates board) \<longleftrightarrow> i < 81 \<and> board ! i = 0 \<and> 1 \<le> v \<and> v < 10 \<and> free_cell (clues board) i v"
    unfolding candidates_def set_concat_map UN_iff set_map set_filter
    by (simp only: image_iff mem_Collect_eq set_upt_9 Bex_def prod.inject) blast
  ultimately show ?thesis by simp
qed

lemma distinct_concat_map:
  "distinct xs \<Longrightarrow> (\<And>x. x \<in> set xs \<Longrightarrow> distinct (f x)) \<Longrightarrow>
   (\<And>x y. x \<in> set xs \<Longrightarrow> y \<in> set xs \<Longrightarrow> x \<noteq> y \<Longrightarrow> set (f x) \<inter> set (f y) = {}) \<Longrightarrow> distinct (concat (map f xs))"
proof (induction xs)
  case (Cons x xs)
  have "set (f x) \<inter> set (f y) = {}" if "y \<in> set xs" for y using Cons.prems(1,3) that by auto
  with Cons show ?case by auto
qed simp

lemma length_concat_map:
  "(\<And>x. x \<in> set xs \<Longrightarrow> length (f x) \<le> m) \<Longrightarrow> length (concat (map f xs)) \<le> length xs * m"
proof (induction xs)
  case (Cons x xs)
  then have "length (f x) \<le> m" "length (concat (map f xs)) \<le> length xs * m" by auto
  then show ?case by simp
qed simp

lemma distinct_column_names: "distinct (column_names board)"
proof -
  have u: "distinct (unit_names (clues board) i v)" for i v
    by (auto simp: unit_names_def clues_def unit_name_simps unit_name_def)
  have uv: "set (unit_names (clues board) i v) \<inter> set (unit_names (clues board) i' v') = {}"
    if "i < 9" "i' < 9" "v < 10" "v' < 10" "(i, v) \<noteq> (i', v')" for i i' v v'
    using that by (auto simp: unit_names_mem unit_name_eq)
  have 1: "distinct (concat (map (unit_names (clues board) i) [1..<10]))" if "i < 9" for i
  proof (rule distinct_concat_map [OF distinct_upt u])
    fix v v' assume "v \<in> set [1..<10]" "v' \<in> set [1..<10]" "v \<noteq> v'"
    with that show "set (unit_names (clues board) i v) \<inter> set (unit_names (clues board) i v') = {}"
      using uv [of i i v v'] by (simp only: set_upt_9) simp
  qed
  have 2: "distinct (concat (map (\<lambda>i. concat (map (unit_names (clues board) i) [1..<10])) [0..<9]))"
  proof (rule distinct_concat_map [OF distinct_upt])
    fix i i' assume "i \<in> set [0..<9]" "i' \<in> set [0..<9]" and ne: "i \<noteq> i'"
    then have i: "i < 9" "i' < 9" by (simp_all only: set_upt_9)
    then have "set (unit_names (clues board) i v) \<inter> set (unit_names (clues board) i' v') = {}"
      if "v \<in> set [1..<10]" "v' \<in> set [1..<10]" for v v'
      using uv [of i i' v v'] that ne by (simp only: set_upt_9) simp
    then show "set (concat (map (unit_names (clues board) i) [1..<10])) \<inter>
        set (concat (map (unit_names (clues board) i') [1..<10])) = {}"
      unfolding set_concat_map by blast
  qed (use 1 in \<open>simp only: set_upt_9\<close>)
  have 3: "n < 100" if "n \<in> set (map int (filter (\<lambda>i. board ! i = 0) [0..<kCells]))" for n
    using that unfolding set_map set_filter by (auto simp only: set_upt_9)
  have 4: "n \<ge> 100" if n: "n \<in> set (concat (map (\<lambda>i. concat (map (unit_names (clues board) i) [1..<10])) [0..<9]))" for n
  proof -
    obtain i v where "n \<in> set (unit_names (clues board) i v)" using n unfolding set_concat_map by blast
    then obtain u where "n = unit_name u i v" unfolding unit_names_mem by blast
    then show ?thesis by (simp add: unit_name_def)
  qed
  have "distinct (map int (filter (\<lambda>i. board ! i = 0) [0..<kCells]))"
    by (simp only: distinct_map distinct_filter distinct_upt) simp
  with 2 3 4 show ?thesis unfolding column_names_def distinct_append by force
qed

lemma column_names_range: "n \<in> set (column_names board) \<Longrightarrow> 0 \<le> n \<and> n < 400"
  unfolding column_names_mem by (auto simp: unit_name_def)

lemma length_column_names: "length (column_names board) \<le> 324"
proof -
  have "length (unit_names (clues board) i v) \<le> 3" for i v by (auto simp: unit_names_def clues_def)
  then have "length (concat (map (unit_names (clues board) i) [1..<10])) \<le> length [1..<10] * 3" for i
    by (rule length_concat_map)
  then have "length (concat (map (unit_names (clues board) i) [1..<10])) \<le> 27" for i
    by (simp only: length_upt) simp
  then have "length (concat (map (\<lambda>i. concat (map (unit_names (clues board) i) [1..<10])) [0..<9])) \<le> length [0..<9] * 27"
    by (rule length_concat_map)
  moreover have "length (map int (filter (\<lambda>i. board ! i = 0) [0..<kCells])) \<le> length [0..<kCells]"
    unfolding length_map by (rule length_filter_le)
  ultimately show ?thesis unfolding column_names_def length_append by (simp only: length_upt kCells_def)
qed

lemma length_candidates: "length (candidates board) \<le> 729"
proof -
  have "length (map (\<lambda>v. (i, v)) (filter (free_cell (clues board) i) [1..<10])) \<le> length [1..<10]" for i
    unfolding length_map by (rule length_filter_le)
  then have "length (map (\<lambda>v. (i, v)) (filter (free_cell (clues board) i) [1..<10])) \<le> 9" for i :: nat
    by (simp only: length_upt) simp
  then have "length (candidates board) \<le> length (filter (\<lambda>i. board ! i = 0) [0..<kCells]) * 9"
    unfolding candidates_def by (rule length_concat_map)
  moreover have "length (filter (\<lambda>i. board ! i = 0) [0..<kCells]) \<le> length [0..<kCells]" by (rule length_filter_le)
  ultimately show ?thesis by (simp only: length_upt kCells_def)
qed

lemma distinct_candidates: "distinct (candidates board)"
  unfolding candidates_def
proof (rule distinct_concat_map)
  show "distinct (filter (\<lambda>i. board ! i = 0) [0..<kCells])" by (rule distinct_filter [OF distinct_upt])
  show "distinct (map (\<lambda>v. (i, v)) (filter (free_cell (clues board) i) [1..<10]))" for i :: nat
    unfolding distinct_map using distinct_filter [OF distinct_upt] by (auto simp only: inj_on_def prod.inject)
qed (unfold set_map, blast)

lemma cand_names_columns:
  assumes "(i, v) \<in> set (candidates board)"
  shows "set (cand_names (i, v)) \<subseteq> set (column_names board)"
proof
  note c = assms [unfolded candidates_mem]
  have u: "cand_names (i, v) = [int i, unit_name 0 (unit_of 0 i) v, unit_name 1 (unit_of 1 i) v, unit_name 2 (unit_of 2 i) v]"
    by (simp add: cand_names_def unit_name_simps unit_of_def)
  have "unit_name u (unit_of u i) v \<in> set (column_names board)" if "u < 3" for u
    unfolding column_names_mem using c that unit_of_less [of i u] by blast
  moreover have "int i \<in> set (column_names board)" unfolding column_names_mem using c by blast
  ultimately show "n \<in> set (column_names board)" if "n \<in> set (cand_names (i, v))" for n using that by (auto simp: u)
qed

section \<open>What the constructor builds\<close>

lemma columns_built:
  assumes "building s0 [] []" "inout s0 = board" "stack s0 = []"
  shows "\<exists>s'. for_loop append_column (column_names board) s0 = Some s' \<and> building s' (column_names board) [] \<and>
    inout s' = board \<and> stack s' = []"
proof -
  let ?nms = "column_names board"
  show ?thesis
  proof (rule for_loop_invariant [where Q = "\<lambda>ns n. n \<notin> set ns \<and> 0 \<le> n \<and> n < 400 \<and> Suc (length ns) < kMaxNodes"])
    show "\<exists>s'. append_column n s = Some s' \<and> building s' (ns @ [n]) [] \<and> inout s' = board \<and> stack s' = []"
      if "building s ns [] \<and> inout s = board \<and> stack s = []" "n \<notin> set ns \<and> 0 \<le> n \<and> n < 400 \<and> Suc (length ns) < kMaxNodes" for n ns s
      using append_column_ok [of s ns n] that by auto
    show "n \<notin> set ns \<and> 0 \<le> n \<and> n < 400 \<and> Suc (length ns) < kMaxNodes" if e: "?nms = ns @ n # zs" for ns n zs
    proof -
      have "n \<in> set ?nms" by (simp add: e)
      moreover have "n \<notin> set ns" using distinct_column_names [of board] by (simp add: e)
      moreover have "length ns < 324" using length_column_names [of board] by (simp add: e)
      ultimately show ?thesis using column_names_range [of n board] by (simp add: kMaxNodes_def)
    qed
  qed (use assms in simp)
qed

lemma rows_built:
  assumes "building s1 (column_names board) []" "inout s1 = board" "stack s1 = []"
  shows "\<exists>s'. for_loop (\<lambda>(i, v). add_candidate i v) (candidates board) s1 = Some s' \<and>
    built s' (column_names board) (candidates board) \<and> inout s' = board \<and> stack s' = []"
proof -
  let ?nms = "column_names board" and ?cs = "candidates board"
  show ?thesis
  proof (rule for_loop_invariant [where Q = "\<lambda>cs c. set (cand_names c) \<subseteq> set ?nms \<and> base ?nms (length cs) + 3 < kMaxNodes"])
    show "\<exists>s'. (case c of (i, v) \<Rightarrow> add_candidate i v) s = Some s' \<and> built s' ?nms (cs @ [c]) \<and> inout s' = board \<and> stack s' = []"
      if "built s ?nms cs \<and> inout s = board \<and> stack s = []" "set (cand_names c) \<subseteq> set ?nms \<and> base ?nms (length cs) + 3 < kMaxNodes" for c cs s
      using add_candidate_ok [of s ?nms cs "fst c" "snd c"] that distinct_column_names column_names_range
      by (cases c) auto
    show "set (cand_names c) \<subseteq> set ?nms \<and> base ?nms (length cs) + 3 < kMaxNodes" if e: "?cs = cs @ c # zs" for cs c zs
    proof -
      have "length cs < 729" using length_candidates [of board] by (simp add: e)
      moreover have "c \<in> set ?cs" by (simp add: e)
      ultimately show ?thesis using cand_names_columns [of "fst c" "snd c" board] length_column_names [of board]
        by (simp add: base_def kMaxNodes_def)
    qed
  qed (use assms in \<open>simp add: built_def row_names_def\<close>)
qed

theorem SudokuSolver_builds:
  assumes "length board = 81" "\<forall>v\<in>set board. 0 \<le> v \<and> v \<le> 9"
  shows "\<exists>s. SudokuSolver mem board = Some s \<and> built s (column_names board) (candidates board) \<and>
             inout s = board \<and> stack s = []"
proof -
  let ?nms = "column_names board" and ?cs = "candidates board"
  define s0 where "s0 = mem\<lparr>inout := board, cur_node := 1, stack := [], nleft := (nleft mem)(0 := 0), nright := (nright mem)(0 := 0),
       nup := (nup mem)(0 := 0), ndown := (ndown mem)(0 := 0), ncol := (ncol mem)(0 := 0),
       nname := (nname mem)(0 := 0), nsize := (nsize mem)(0 := 0), root := 0, columns := (\<lambda>_. None)\<rparr>"
  have b0: "building s0 [] []" by (simp add: building_def headers_ok_def s0_def header_nodes_def)
  obtain s1 where s1: "for_loop append_column ?nms s0 = Some s1" "building s1 ?nms []" "inout s1 = board" "stack s1 = []"
    using columns_built [OF b0] by (auto simp: s0_def)
  obtain s2 where s2: "for_loop (\<lambda>(i, v). add_candidate i v) ?cs s1 = Some s2" "built s2 ?nms ?cs" "inout s2 = board" "stack s2 = []"
    using rows_built [OF s1(2-4)] by auto
  obtain sa where sa: "for_loop append_column (map int (filter (\<lambda>i. board ! i = 0) [0..<kCells])) s0 = Some sa"
    "for_loop append_column (concat (map (\<lambda>i. concat (map (unit_names (clues board) i) [1..<10])) [0..<9])) sa = Some s1"
    using s1(1) unfolding column_names_def for_loop_append by (auto simp only: bind_eq_Some_conv)
  have "new_column 0 (mem\<lparr>inout := board, cur_node := 0, stack := []\<rparr>) = Some (0, s0\<lparr>root := root mem, columns := columns mem\<rparr>)"
    by (simp add: new_column_def kMaxNodes_def s0_def)
  moreover have "s0\<lparr>root := 0, nright := (nright s0)(0 := 0), nleft := (nleft s0)(0 := 0), columns := (\<lambda>_. None)\<rparr> = s0"
    by (simp add: s0_def)
  moreover have "inout s0 = board" by (simp add: s0_def)
  ultimately have "SudokuSolver mem board = Some s2"
    unfolding SudokuSolver_def
    using mark_loop_clues [OF assms] cell_columns_loop [of s0 board] unit_columns_loop candidates_loop [OF s1(3)] sa s2(1)
    by (simp del: upt_rec_numeral add: Let_def candidates_def)
  with s2 show ?thesis by simp
qed

end
