(* ===== verification/SudokuCorrect.thy ===== *)
theory SudokuCorrect
  imports Sudoku
begin

text \<open>
  The correctness of \<open>solveSudoku\<close> (\<open>src/excercises/sudoku/sudoku.cc\<close>): what the constructor builds
  satisfies the invariant \<open>links_ok\<close> of the search, its exact covers are the completions of the board, and
  so the search finds a completion if there is one.
\<close>

section \<open>The links that the constructor builds\<close>

text \<open>The successor of a node in its row, and the number of its candidate.\<close>

definition row_next :: "int list \<Rightarrow> nat \<Rightarrow> nat" where
  "row_next nms n = (if (n - Suc (length nms)) mod 4 = 3 then n - 3 else n + 1)"

definition cand_of :: "int list \<Rightarrow> nat \<Rightarrow> nat" where
  "cand_of nms n = (n - Suc (length nms)) div 4"

lemma less_4: "(q :: nat) < 4 \<longleftrightarrow> q = 0 \<or> q = 1 \<or> q = 2 \<or> q = 3"
  by auto

lemma row_next_base:
  "row_next nms (base nms k) = base nms k + 1" "row_next nms (base nms k + 1) = base nms k + 2"
  "row_next nms (base nms k + 2) = base nms k + 3" "row_next nms (base nms k + 3) = base nms k"
proof -
  have "row_next nms (base nms k + q) = (if q = 3 then base nms k else base nms k + q + 1)" if "q < 4" for q
  proof -
    have "base nms k + q - Suc (length nms) = 4 * k + q" by (simp add: base_def)
    then have "(base nms k + q - Suc (length nms)) mod 4 = q" using that by simp
    then show ?thesis by (simp add: row_next_def)
  qed
  from this [of 0] this [of 1] this [of 2] this [of 3]
  show "row_next nms (base nms k) = base nms k + 1" "row_next nms (base nms k + 1) = base nms k + 2"
    "row_next nms (base nms k + 2) = base nms k + 3" "row_next nms (base nms k + 3) = base nms k"
    by simp_all
qed

lemma cand_of_base: "q < 4 \<Longrightarrow> cand_of nms (base nms k + q) = k"
  by (simp add: cand_of_def base_def)

lemma row_set_base: "q < 4 \<Longrightarrow> row_set (row_next nms) (base nms k + q) = {base nms k, base nms k + 1, base nms k + 2, base nms k + 3}"
  unfolding less_4 row_set_def others_def by (auto simp only: row_next_base add_0_right set_simps)

lemma row_names_nth: "k < length cs \<Longrightarrow> q < 4 \<Longrightarrow> row_names cs ! (4 * k + q) = cand_names (cs ! k) ! q"
proof (induction cs rule: rev_induct)
  case (snoc c cs)
  show ?case
  proof (cases "k < length cs")
    case True
    then have "4 * k + q < 4 * length cs" using snoc.prems by simp
    with True snoc show ?thesis by (simp add: nth_append)
  next
    case False
    then have "k = length cs" using snoc.prems by simp
    with snoc.prems show ?thesis by (simp add: nth_append)
  qed
qed simp

lemma cand_names_nth:
  "cand_names (i, v) ! 0 = int i" "u < 3 \<Longrightarrow> cand_names (i, v) ! Suc u = unit_name u (unit_of u i) v"
  unfolding less_3 by (auto simp: cand_names_def unit_name_simps unit_of_def)

lemma distinct_cand_names: "(i, v) \<in> set (candidates board) \<Longrightarrow> distinct (cand_names (i, v))"
  unfolding candidates_mem using unit_of_less [of i] unit_name_eq [of _ _ v v]
  by (auto simp: cand_names_def unit_name_simps unit_name_def)

lemma built_node:
  assumes b: "built s nms cs" and d: "distinct nms" and k: "k < length cs" "q < 4"
  shows "nname s (base nms k + q) = cand_names (cs ! k) ! q"
    "\<exists>j<length nms. ncol s (base nms k + q) = Suc j \<and> nms ! j = cand_names (cs ! k) ! q"
proof -
  have m: "4 * k + q < length (row_names cs)" using k by simp
  have bu: "building s nms (row_names cs)" using b by (simp add: built_def)
  have e: "Suc (length nms) + (4 * k + q) = base nms k + q" by (simp add: base_def)
  show "nname s (base nms k + q) = cand_names (cs ! k) ! q"
  proof -
    have "nname s (Suc (length nms) + (4 * k + q)) = row_names cs ! (4 * k + q)"
      using bu m unfolding building_def by blast
    then show ?thesis by (simp only: e row_names_nth [OF k])
  qed
  show "\<exists>j<length nms. ncol s (base nms k + q) = Suc j \<and> nms ! j = cand_names (cs ! k) ! q"
    using building_col [OF bu d m] row_names_nth [OF k] unfolding e by auto
qed

lemma in_column_base:
  "n \<in> set (in_column nms (row_names cs) c) \<longleftrightarrow>
     (\<exists>k<length cs. \<exists>q<4. n = base nms k + q \<and> cand_names (cs ! k) ! q = nms ! (c - 1))"
proof
  assume "n \<in> set (in_column nms (row_names cs) c)"
  then obtain m where m: "m < 4 * length cs" "n = Suc (length nms) + m" "row_names cs ! m = nms ! (c - 1)"
    by (auto simp: in_column_mem)
  have k: "m div 4 < length cs" "m mod 4 < 4" using m(1) by auto
  have "row_names cs ! m = cand_names (cs ! (m div 4)) ! (m mod 4)" using row_names_nth [OF k] by simp
  moreover have "n = base nms (m div 4) + m mod 4" using m(2) by (simp add: base_def)
  ultimately show "\<exists>k<length cs. \<exists>q<4. n = base nms k + q \<and> cand_names (cs ! k) ! q = nms ! (c - 1)"
    using k m(3) by auto
next
  assume "\<exists>k<length cs. \<exists>q<4. n = base nms k + q \<and> cand_names (cs ! k) ! q = nms ! (c - 1)"
  then obtain k q where k: "k < length cs" "q < 4" "n = base nms k + q" "cand_names (cs ! k) ! q = nms ! (c - 1)" by auto
  have "4 * k + q < length (row_names cs)" "n = Suc (length nms) + (4 * k + q)" using k by (auto simp: base_def)
  with k row_names_nth [OF k(1,2)] show "n \<in> set (in_column nms (row_names cs) c)" unfolding in_column_mem by metis
qed

lemma built_columns_ok:
  assumes b: "built s nms cs" and d: "distinct nms"
  shows "columns_ok s (set (header_nodes nms)) (in_column nms (row_names cs))"
  unfolding columns_ok_def
proof
  fix c assume "c \<in> set (header_nodes nms)"
  then have c: "1 \<le> c" "c \<le> length nms" by simp_all
  have bu: "building s nms (row_names cs)" using b by (simp add: built_def)
  then have ring: "lnk (ndown s) (nup s) c (in_column nms (row_names cs) c) c"
    "nsize s c = int (length (in_column nms (row_names cs) c))"
    and h: "ncol s c = c" using c unfolding building_def headers_ok_def by (auto dest: spec [of _ "c - 1"])
  have n: "n \<noteq> c \<and> ncol s n = c" if n: "n \<in> set (in_column nms (row_names cs) c)" for n
  proof -
    obtain k q where k: "k < length cs" "q < 4" "n = base nms k + q" "cand_names (cs ! k) ! q = nms ! (c - 1)"
      using n unfolding in_column_base by auto
    obtain j where j: "j < length nms" "ncol s n = Suc j" "nms ! j = cand_names (cs ! k) ! q"
      using built_node(2) [OF b d k(1,2)] k(3) by auto
    have "j = c - 1" using nth_eq_iff_index_eq [OF d j(1), of "c - 1"] j(3) k(4) c by simp
    then show ?thesis using j(2) k(3) c by (simp add: base_def)
  qed
  show "column_ok s c (in_column nms (row_names cs) c)"
    unfolding column_ok_def using ring h n distinct_in_column by auto
qed

lemma built_rows_ok:
  assumes b: "built s nms cs" and d: "distinct nms" and dc: "\<And>c. c \<in> set cs \<Longrightarrow> distinct (cand_names c)"
  shows "rows_ok (row_next nms) s (set (header_nodes nms)) (in_column nms (row_names cs))"
  unfolding rows_ok_def
proof (intro ballI)
  fix c n assume "c \<in> set (header_nodes nms)" "n \<in> set (in_column nms (row_names cs) c)"
  then obtain k q where k: "k < length cs" "q < 4" "n = base nms k + q" unfolding in_column_base by auto
  let ?R = "row_next nms" and ?b = "base nms k"
  have ring: "lnk (nright s) (nleft s) ?b [?b + 1, ?b + 2, ?b + 3] ?b" using b k(1) by (simp add: built_def)
  have col: "\<exists>j<length nms. ncol s (?b + p) = Suc j \<and> nms ! j = cand_names (cs ! k) ! p" if "p < 4" for p
    by (rule built_node(2) [OF b d k(1) that])
  have len: "length (cand_names (cs ! k)) = 4" by (simp add: cand_names_def split: prod.split)
  have ne: "ncol s (?b + p) \<noteq> ncol s (?b + p')" if p: "p < 4" "p' < 4" "p \<noteq> p'" for p p'
  proof -
    obtain j j' where j: "ncol s (?b + p) = Suc j" "nms ! j = cand_names (cs ! k) ! p"
      "ncol s (?b + p') = Suc j'" "nms ! j' = cand_names (cs ! k) ! p'"
      using col [OF p(1)] col [OF p(2)] by auto
    have "cand_names (cs ! k) ! p \<noteq> cand_names (cs ! k) ! p'"
      using dc [of "cs ! k"] k(1) p len by (simp add: nth_eq_iff_index_eq)
    then show ?thesis using j by auto
  qed
  have succ: "ncol s (?b + p) \<in> set (header_nodes nms) \<and> ?b + p \<in> set (in_column nms (row_names cs) (ncol s (?b + p)))"
    if "p < 4" for p
    using col [OF that] k(1) that unfolding in_column_base set_header_nodes by auto
  note nes = ne [of 0 1] ne [of 0 2] ne [of 0 3] ne [of 1 2] ne [of 1 3] ne [of 2 3]
  consider "n = ?b" | "n = ?b + 1" | "n = ?b + 2" | "n = ?b + 3" using k(2,3) unfolding less_4 by auto
  then show "row_ok ?R s n \<and> ncol s (?R n) \<in> set (header_nodes nms) \<and>
      ?R n \<in> set (in_column nms (row_names cs) (ncol s (?R n)))"
    by cases (use ring succ [of 0] succ [of 1] succ [of 2] succ [of 3] nes in
      \<open>simp_all add: row_ok_def others_def row_next_base [simplified]\<close>)
qed

lemma built_links_ok:
  assumes b: "built s (column_names board) (candidates board)"
  shows "links_ok (row_next (column_names board)) s (header_nodes (column_names board))
    (in_column (column_names board) (row_names (candidates board)))"
proof -
  have dc: "distinct (cand_names c)" if "c \<in> set (candidates board)" for c
    using distinct_cand_names [of "fst c" "snd c" board] that by simp
  have h: "root s = 0" "ncol s 0 = 0" "lnk (nright s) (nleft s) 0 (header_nodes (column_names board)) 0"
    using b unfolding built_def building_def headers_ok_def by auto
  show ?thesis
    unfolding links_ok_def
    using h built_columns_ok [OF b distinct_column_names] built_rows_ok [OF b distinct_column_names dc] by simp
qed

lemma built_nodes:
  assumes "built s nms cs" "distinct nms"
  shows "n \<in> nodes (header_nodes nms) (in_column nms (row_names cs)) \<longleftrightarrow> (\<exists>k<length cs. \<exists>q<4. n = base nms k + q)"
proof
  assume "\<exists>k<length cs. \<exists>q<4. n = base nms k + q"
  then obtain k q where k: "k < length cs" "q < 4" "n = base nms k + q" by auto
  obtain j where j: "j < length nms" "nms ! j = cand_names (cs ! k) ! q" using built_node(2) [OF assms k(1,2)] by auto
  have "n \<in> set (in_column nms (row_names cs) (Suc j))" unfolding in_column_base using k j(2) by auto
  moreover have "Suc j \<in> set (header_nodes nms)" using j(1) by simp
  ultimately show "n \<in> nodes (header_nodes nms) (in_column nms (row_names cs))" unfolding nodes_def by blast
qed (auto simp: nodes_def in_column_base)

section \<open>Reading a row\<close>

definition cell_of :: "int list \<Rightarrow> nat \<Rightarrow> int" where
  "cell_of board n = int (fst (candidates board ! cand_of (column_names board) n))"

definition digit_of :: "int list \<Rightarrow> nat \<Rightarrow> int" where
  "digit_of board n = int (snd (candidates board ! cand_of (column_names board) n))"

lemma candidate_nth:
  "k < length (candidates board) \<Longrightarrow> candidates board ! k = (i, v) \<Longrightarrow>
   i < 81 \<and> board ! i = 0 \<and> 1 \<le> v \<and> v < 10 \<and> (\<forall>u<3. \<not> clue board u (unit_of u i) v)"
  using nth_mem [of k "candidates board"] candidates_mem [of i v board] by simp

lemma built_writable:
  assumes b: "built s (column_names board) (candidates board)" and io: "length (inout s) = 81"
    and n: "n \<in> nodes (header_nodes (column_names board)) (in_column (column_names board) (row_names (candidates board)))"
  shows "writable (row_next (column_names board)) (cell_of board) (digit_of board) s n"
proof -
  let ?nms = "column_names board" and ?cs = "candidates board"
  let ?R = "row_next ?nms"
  obtain k q where k: "k < length ?cs" "q < 4" "n = base ?nms k + q"
    using n unfolding built_nodes [OF b distinct_column_names] by auto
  let ?b = "base ?nms k"
  obtain i v where iv: "?cs ! k = (i, v)" by (cases "?cs ! k") auto
  note c = candidate_nth [OF k(1) iv]
  have cd: "cell_of board n = int i" "digit_of board n = int v"
    using cand_of_base [OF k(2)] k(3) iv by (simp_all add: cell_of_def digit_of_def)
  have ring: "lnk (nright s) (nleft s) ?b [?b + 1, ?b + 2, ?b + 3] ?b" using b k(1) by (simp add: built_def)
  have rs: "row_set ?R n = {?b, ?b + 1, ?b + 2, ?b + 3}" unfolding k(3) by (rule row_set_base [OF k(2)])
  have col: "ncol s (?b + p) \<noteq> ?b + p" if "p < 4" for p
    using built_node(2) [OF b distinct_column_names k(1) that] by (auto simp: base_def)
  have nm: "nname s (?b + p) = cand_names (i, v) ! p" if "p < 4" for p
    using built_node(1) [OF b distinct_column_names k(1) that] by (simp add: iv)
  have nms: "nname s ?b = int i" "nname s (?b + 1) = unit_name 0 (unit_of 0 i) v"
    "nname s (?b + 2) = unit_name 1 (unit_of 1 i) v" "nname s (?b + 3) = unit_name 2 (unit_of 2 i) v"
    using nm [of 0] nm [of 1] nm [of 2] nm [of 3] cand_names_nth(1) [of i v] cand_names_nth(2) [of 0 i v]
      cand_names_nth(2) [of 1 i v] cand_names_nth(2) [of 2 i v] by (simp_all add: numeral_2_eq_2 numeral_3_eq_3)
  have u: "\<not> unit_name u' i' v < 100 \<and> c_mod (unit_name u' i' v) 10 = int v" for u' i'
  proof -
    have e: "unit_name u' i' v = int v + (10 * (int u' + 1) + int i') * 10" by (simp add: unit_name_def)
    have "unit_name u' i' v mod 10 = int v" unfolding e using c by (simp only: mod_mult_self1) simp
    moreover have "100 \<le> unit_name u' i' v" by (simp add: unit_name_def)
    ultimately show ?thesis by simp
  qed
  have "named ?R (nname s) n (int i) (int v)"
    unfolding named_def rs using nms u c by simp
  moreover have "\<forall>x\<in>row_set ?R n. ncol s x \<noteq> x \<and> nright s x = ?R x"
    unfolding rs using col [of 0] col [of 1] col [of 2] col [of 3] ring row_next_base [of ?nms k] by simp
  ultimately show ?thesis unfolding writable_def cd using c io by simp
qed

section \<open>Completions of a board\<close>

text \<open>
  A solved board: digits from 1 to 9, and each row, each column and each box holds all nine. A completion
  of a board keeps its clues, the cells that are not zero.
\<close>

definition solved_board :: "int list \<Rightarrow> bool" where
  "solved_board g \<longleftrightarrow> length g = 81 \<and> (\<forall>v\<in>set g. 1 \<le> v \<and> v \<le> 9) \<and>
     (\<forall>u<3. \<forall>i<9. \<forall>v. 1 \<le> v \<and> v < 10 \<longrightarrow> (\<exists>k<81. unit_of u k = i \<and> g ! k = int v))"

definition completes :: "int list \<Rightarrow> int list \<Rightarrow> bool" where
  "completes board g \<longleftrightarrow> solved_board g \<and> (\<forall>k<81. board ! k \<noteq> 0 \<longrightarrow> g ! k = board ! k)"

lemma box_cell:
  assumes "k < 81"
  shows "\<exists>j<9. k = 9 * (3 * (box_of k div 3) + j div 3) + (3 * (box_of k mod 3) + j mod 3)"
proof -
  let ?r = "k div 9" and ?c = "k mod 9"
  have c3: "?c div 3 < 3" by (simp add: less_mult_imp_div_less)
  have b: "box_of k div 3 = ?r div 3" "box_of k mod 3 = ?c div 3" using c3 by (simp_all add: box_of_def Let_def)
  let ?j = "3 * (?r mod 3) + ?c mod 3"
  have j: "?j div 3 = ?r mod 3" "?j mod 3 = ?c mod 3" by simp_all
  have "?r mod 3 < 3" "?c mod 3 < 3" by simp_all
  then have "?j < 9" by linarith
  moreover have "3 * (?r div 3) + ?r mod 3 = ?r" "3 * (?c div 3) + ?c mod 3 = ?c" "9 * ?r + ?c = k" by simp_all
  ultimately show ?thesis unfolding b by (intro exI [of _ ?j]) (simp only: j simp_thms)
qed

lemma unit_size:
  assumes "u < 3" "i < 9"
  shows "card {k. k < 81 \<and> unit_of u k = i} \<le> 9"
proof -
  have "\<exists>f :: nat \<Rightarrow> nat. {k. k < 81 \<and> unit_of u k = i} \<subseteq> f ` {..<9}"
    using assms(1) unfolding less_3
  proof (elim disjE)
    assume "u = 0"
    have "k \<in> (\<lambda>j. 9 * i + j) ` {..<9}" if "k div 9 = i" for k
      by (rule image_eqI [of _ _ "k mod 9"]) (use that in auto)
    with \<open>u = 0\<close> show ?thesis by (intro exI [of _ "\<lambda>j. 9 * i + j"]) (auto simp: unit_of_def)
  next
    assume "u = 1"
    have "k \<in> (\<lambda>j. 9 * j + i) ` {..<9}" if "k mod 9 = i" "k < 81" for k
      by (rule image_eqI [of _ _ "k div 9"]) (use that in \<open>auto simp: less_mult_imp_div_less\<close>)
    with \<open>u = 1\<close> show ?thesis by (intro exI [of _ "\<lambda>j. 9 * j + i"]) (auto simp: unit_of_def)
  next
    assume u: "u = 2"
    have "k \<in> (\<lambda>j. 9 * (3 * (i div 3) + j div 3) + (3 * (i mod 3) + j mod 3)) ` {..<9}" if "box_of k = i" "k < 81" for k
      using box_cell [OF that(2)] unfolding that(1) by auto
    with u show ?thesis
      by (intro exI [of _ "\<lambda>j. 9 * (3 * (i div 3) + j div 3) + (3 * (i mod 3) + j mod 3)"]) (auto simp: unit_of_def)
  qed
  then obtain f :: "nat \<Rightarrow> nat" where "{k. k < 81 \<and> unit_of u k = i} \<subseteq> f ` {..<9}" by blast
  then have "card {k. k < 81 \<and> unit_of u k = i} \<le> card {..<9 :: nat}" by (rule surj_card_le [OF finite_lessThan])
  then show ?thesis by simp
qed

lemma solved_unit_inj:
  assumes g: "solved_board g" and u: "u < 3" and k: "k < 81" "k' < 81" "unit_of u k = unit_of u k'" "g ! k = g ! k'"
  shows "k = k'"
proof -
  let ?A = "{j. j < 81 \<and> unit_of u j = unit_of u k}"
  have fin: "finite ?A" by simp
  have i: "unit_of u k < 9" by (rule unit_of_less [OF k(1)])
  have "int ` {1..<10} \<subseteq> (\<lambda>j. g ! j) ` ?A"
  proof (rule image_subsetI)
    fix v :: nat assume v: "v \<in> {1..<10}"
    have "\<exists>j<81. unit_of u j = unit_of u k \<and> g ! j = int v"
      using g u i v unfolding solved_board_def by auto
    then show "int v \<in> (\<lambda>j. g ! j) ` ?A" by force
  qed
  then have "card (int ` {1..<10 :: nat}) \<le> card ((\<lambda>j. g ! j) ` ?A)" by (rule card_mono [rotated]) simp
  moreover have "card (int ` {1..<10 :: nat}) = 9" by (simp add: card_image)
  moreover have "card ((\<lambda>j. g ! j) ` ?A) \<le> card ?A" by (rule card_image_le [OF fin])
  ultimately have "card ((\<lambda>j. g ! j) ` ?A) = card ?A" using unit_size [OF u i] by simp
  then have "inj_on (\<lambda>j. g ! j) ?A" by (rule eq_card_imp_inj_on [OF fin])
  then show ?thesis using k by (auto simp: inj_on_def)
qed

section \<open>Exact covers are completions\<close>

lemma cover_name:
  assumes b: "built s nms cs" and d: "distinct nms"
    and e: "exact_cover (row_next nms) (ncol s) (set (header_nodes nms)) (nodes (header_nodes nms) (in_column nms (row_names cs))) S"
  shows "x \<in> set nms \<Longrightarrow> \<exists>k<length cs. \<exists>q<4. base nms k + q \<in> S \<and> cand_names (cs ! k) ! q = x"
    "k < length cs \<Longrightarrow> q < 4 \<Longrightarrow> base nms k + q \<in> S \<Longrightarrow> k' < length cs \<Longrightarrow> q' < 4 \<Longrightarrow> base nms k' + q' \<in> S \<Longrightarrow>
     cand_names (cs ! k) ! q = cand_names (cs ! k') ! q' \<Longrightarrow> k = k'"
    "q < 4 \<Longrightarrow> base nms k + q \<in> S \<Longrightarrow> base nms k \<in> S"
proof -
  note ed = exact_coverD [OF e]
  have node: "\<exists>k<length cs. \<exists>q<4. n = base nms k + q" if "n \<in> S" for n using ed(1) that built_nodes [OF b d] by auto
  {
    assume "x \<in> set nms"
    then obtain j where j: "j < length nms" "x = nms ! j" by (auto simp: in_set_conv_nth)
    have "Suc j \<in> set (header_nodes nms)" using j(1) by simp
    from ed(3) [OF this] obtain n where n: "n \<in> S" "ncol s n = Suc j" by auto
    obtain k q where k: "k < length cs" "q < 4" "n = base nms k + q" using node [OF n(1)] by auto
    with built_node(2) [OF b d k(1,2)] n(2) j(2) have "cand_names (cs ! k) ! q = x" by auto
    with k n(1) show "\<exists>k<length cs. \<exists>q<4. base nms k + q \<in> S \<and> cand_names (cs ! k) ! q = x" by auto
  next
    assume k: "k < length cs" "q < 4" "base nms k + q \<in> S" "k' < length cs" "q' < 4" "base nms k' + q' \<in> S"
      and n: "cand_names (cs ! k) ! q = cand_names (cs ! k') ! q'"
    obtain j where j: "j < length nms" "ncol s (base nms k + q) = Suc j" "nms ! j = cand_names (cs ! k) ! q"
      using built_node(2) [OF b d k(1,2)] by auto
    obtain j' where j': "j' < length nms" "ncol s (base nms k' + q') = Suc j'" "nms ! j' = cand_names (cs ! k') ! q'"
      using built_node(2) [OF b d k(4,5)] by auto
    have "j = j'" using nth_eq_iff_index_eq [OF d j(1) j'(1)] j(3) j'(3) n by simp
    have "base nms k + q = base nms k' + q'"
      by (rule ed(4)) (use j j' k \<open>j = j'\<close> in simp_all)
    with cand_of_base [OF k(2), of nms k] cand_of_base [OF k(5), of nms k'] show "k = k'" by simp
  next
    assume q: "q < 4" "base nms k + q \<in> S"
    have "row_set (row_next nms) (base nms k + q) \<subseteq> S" by (rule closed_row_set [OF ed(2) q(2)])
    then show "base nms k \<in> S" using row_set_base [OF q(1), of nms k] by simp
  }
qed

lemma length_write_rows [simp]: "length (write_rows ci va ns io) = length io"
  unfolding write_rows_def by (induction ns rule: rev_induct) auto

lemma write_rows_nth:
  "i < length io \<Longrightarrow> (\<And>n. n \<in> set ns \<Longrightarrow> 0 \<le> ci n) \<Longrightarrow> (\<And>n. n \<in> set ns \<Longrightarrow> ci n = int i \<Longrightarrow> va n = v) \<Longrightarrow>
   write_rows ci va ns io ! i = (if \<exists>n\<in>set ns. ci n = int i then v else io ! i)"
proof (induction ns rule: rev_induct)
  case (snoc n ns)
  have "write_rows ci va (ns @ [n]) io = (write_rows ci va ns io)[nat (ci n) := va n]" by (simp add: write_rows_def)
  moreover have "nat (ci n) = i \<longleftrightarrow> ci n = int i" using snoc.prems(2) [of n] by auto
  ultimately show ?case using snoc by (auto simp: nth_list_update)
qed (simp add: write_rows_def)

text \<open>The exact cover problem of a board.\<close>

definition board_cover :: "int list \<Rightarrow> solver \<Rightarrow> nat set \<Rightarrow> bool" where
  "board_cover board s S \<longleftrightarrow>
     exact_cover (row_next (column_names board)) (ncol s) (set (header_nodes (column_names board)))
       (nodes (header_nodes (column_names board)) (in_column (column_names board) (row_names (candidates board)))) S"

lemma cover_writes:
  assumes b: "built s (column_names board) (candidates board)" and l: "length board = 81"
    and c: "board_cover board s (\<Union>n\<in>set ns. row_set (row_next (column_names board)) n)"
    and ns: "set ns \<subseteq> nodes (header_nodes (column_names board)) (in_column (column_names board) (row_names (candidates board)))"
  defines "S \<equiv> \<Union>n\<in>set ns. row_set (row_next (column_names board)) n"
    and "g \<equiv> write_rows (cell_of board) (digit_of board) ns board"
  shows "k < length (candidates board) \<Longrightarrow> base (column_names board) k \<in> S \<Longrightarrow> candidates board ! k = (i, v) \<Longrightarrow> g ! i = int v"
    "i < 81 \<Longrightarrow> board ! i \<noteq> 0 \<Longrightarrow> g ! i = board ! i"
proof -
  let ?nms = "column_names board" and ?cs = "candidates board"
  note cn = cover_name [OF b distinct_column_names c [unfolded board_cover_def]]
  have blk: "\<exists>k<length ?cs. \<exists>q<4. n = base ?nms k + q \<and> cand_of ?nms n = k \<and> base ?nms k \<in> S" if n: "n \<in> set ns" for n
  proof -
    have "n \<in> nodes (header_nodes ?nms) (in_column ?nms (row_names ?cs))" using ns n by blast
    then obtain k q where k: "k < length ?cs" "q < 4" "n = base ?nms k + q"
      unfolding built_nodes [OF b distinct_column_names] by blast
    have "n \<in> S" unfolding S_def using n by (rule UN_I) simp
    then have "base ?nms k \<in> S" using cn(3) [OF k(2)] k(3) by (simp add: S_def)
    then show ?thesis using k cand_of_base [OF k(2)] by auto
  qed
  {
    assume k: "k < length ?cs" "base ?nms k \<in> S" "?cs ! k = (i, v)"
    have i: "i < length board" using candidate_nth [OF k(1,3)] l by simp
    have same: "digit_of board n = int v" if n: "n \<in> set ns" "cell_of board n = int i" for n
    proof -
      obtain k' where k': "k' < length ?cs" "cand_of ?nms n = k'" "base ?nms k' \<in> S" using blk [OF n(1)] by auto
      obtain i' v' where iv': "?cs ! k' = (i', v')" by (cases "?cs ! k'") auto
      have "i' = i" using n(2) k'(2) iv' by (simp add: cell_of_def)
      then have "cand_names (?cs ! k) ! 0 = cand_names (?cs ! k') ! 0" by (simp add: k(3) iv' cand_names_nth(1))
      with cn(2) [of k 0 k' 0] k k' have "k = k'" by (simp add: S_def)
      with k(3) k'(2) show ?thesis by (simp add: digit_of_def)
    qed
    obtain n where n: "n \<in> set ns" "base ?nms k \<in> row_set (row_next ?nms) n" using k(2) by (auto simp: S_def)
    obtain k' q where k': "q < 4" "n = base ?nms k' + q" "cand_of ?nms n = k'" using blk [OF n(1)] by auto
    have "base ?nms k \<in> {base ?nms k', base ?nms k' + 1, base ?nms k' + 2, base ?nms k' + 3}"
      using n(2) row_set_base [OF k'(1)] k'(2) by simp
    then have "k = k'" by (auto simp: base_def)
    then have "cell_of board n = int i" using k(3) k'(3) by (simp add: cell_of_def)
    with n(1) write_rows_nth [OF i, of ns "cell_of board" "digit_of board" "int v"] same show "g ! i = int v"
      by (auto simp: g_def cell_of_def)
  next
    assume i: "i < 81" "board ! i \<noteq> 0"
    have "cell_of board n \<noteq> int i" if n: "n \<in> set ns" for n
    proof -
      obtain k where k: "k < length ?cs" "cand_of ?nms n = k" using blk [OF n] by auto
      obtain i' v' where iv': "?cs ! k = (i', v')" by (cases "?cs ! k") auto
      with candidate_nth [OF k(1) iv'] i k(2) show ?thesis by (auto simp: cell_of_def)
    qed
    with write_rows_nth [of i board ns "cell_of board" "digit_of board" 0] i l show "g ! i = board ! i"
      by (auto simp: g_def cell_of_def)
  }
qed

theorem cover_sound:
  assumes b: "built s (column_names board) (candidates board)" and l: "length board = 81" "\<forall>v\<in>set board. 0 \<le> v \<and> v \<le> 9"
    and c: "board_cover board s (\<Union>n\<in>set ns. row_set (row_next (column_names board)) n)"
    and ns: "set ns \<subseteq> nodes (header_nodes (column_names board)) (in_column (column_names board) (row_names (candidates board)))"
  shows "completes board (write_rows (cell_of board) (digit_of board) ns board)"
proof -
  let ?nms = "column_names board" and ?cs = "candidates board"
  let ?g = "write_rows (cell_of board) (digit_of board) ns board"
  let ?S = "\<Union>n\<in>set ns. row_set (row_next ?nms) n"
  note w = cover_writes [OF b l(1) c ns]
  note cn = cover_name [OF b distinct_column_names c [unfolded board_cover_def]]
  have named: "\<exists>k<length ?cs. \<exists>q<4. \<exists>i v. ?cs ! k = (i, v) \<and> ?g ! i = int v \<and> cand_names (i, v) ! q = x" if x: "x \<in> set ?nms" for x
  proof -
    obtain k q where k: "k < length ?cs" "q < 4" "base ?nms k + q \<in> ?S" "cand_names (?cs ! k) ! q = x" using cn(1) [OF x] by blast
    obtain i v where iv: "?cs ! k = (i, v)" by (cases "?cs ! k") auto
    with w(1) [OF k(1) cn(3) [OF k(2,3)] iv] k show ?thesis by auto
  qed
  have dig: "1 \<le> ?g ! i \<and> ?g ! i \<le> 9" if i: "i < 81" for i
  proof (cases "board ! i = 0")
    case True
    then have "int i \<in> set ?nms" unfolding column_names_mem using i by blast
    then obtain k q i' v where k: "k < length ?cs" "q < 4" "?cs ! k = (i', v)" "?g ! i' = int v" "cand_names (i', v) ! q = int i"
      using named by blast
    have "q = 0"
    proof (rule ccontr)
      assume "q \<noteq> 0"
      then obtain u where "q = Suc u" "u < 3" using k(2) by (cases q) auto
      with k(5) i show False by (simp add: cand_names_nth(2) unit_name_def)
    qed
    with k(5) have "i' = i" by (simp add: cand_names_nth(1))
    with k(4) candidate_nth [OF k(1,3)] show ?thesis by simp
  next
    case False
    moreover have "board ! i \<in> set board" using i l(1) by simp
    ultimately show ?thesis using w(2) [OF i False] l(2) by force
  qed
  have unit: "\<exists>j<81. unit_of u j = i \<and> ?g ! j = int v" if u: "u < 3" "i < 9" "1 \<le> v \<and> v < 10" for u i v
  proof (cases "clue board u i v")
    case True
    then obtain j where "j < 81" "unit_of u j = i" "board ! j = int v" by (auto simp: clue_def)
    with w(2) [of j] u(3) show ?thesis by auto
  next
    case False
    then have "unit_name u i v \<in> set ?nms" unfolding column_names_mem using u by blast
    then obtain k q i' v' where k: "k < length ?cs" "q < 4" "?cs ! k = (i', v')" "?g ! i' = int v'" "cand_names (i', v') ! q = unit_name u i v"
      using named by blast
    note c' = candidate_nth [OF k(1,3)]
    have "q \<noteq> 0"
    proof
      assume "q = 0"
      with k(5) c' show False by (simp add: cand_names_nth(1) unit_name_def)
    qed
    then obtain u' where u': "q = Suc u'" "u' < 3" using k(2) by (cases q) auto
    with k(5) have "unit_name u' (unit_of u' i') v' = unit_name u i v" by (simp add: cand_names_nth(2))
    with unit_name_eq [of "unit_of u' i'" i v' v u' u] u u' c' unit_of_less [of i' u']
    have "u' = u" "unit_of u' i' = i" "v' = v" by auto
    with k(4) c' show ?thesis by auto
  qed
  have "solved_board ?g"
    unfolding solved_board_def using l(1) dig unit by (auto simp: in_set_conv_nth)
  then show ?thesis unfolding completes_def using w(2) by blast
qed

lemma completion_candidate:
  assumes g: "completes board g" and k: "k < 81" "board ! k = 0" and v: "g ! k = int v"
  obtains m where "m < length (candidates board)" "candidates board ! m = (k, v)"
proof -
  have s: "solved_board g" and keep: "\<forall>k<81. board ! k \<noteq> 0 \<longrightarrow> g ! k = board ! k" using g by (auto simp: completes_def)
  have "g ! k \<in> set g" using s k(1) by (simp add: solved_board_def)
  then have vr: "1 \<le> v" "v < 10" using s v unfolding solved_board_def by force+
  have "\<not> clue board u (unit_of u k) v" if "u < 3" for u
  proof
    assume "clue board u (unit_of u k) v"
    then obtain j where j: "j < 81" "unit_of u j = unit_of u k" "board ! j = int v" by (auto simp: clue_def)
    then have "g ! j = g ! k" using keep vr v by auto
    from solved_unit_inj [OF s that j(1) k(1) j(2) this] j(3) k(2) vr show False by simp
  qed
  then have "(k, v) \<in> set (candidates board)" unfolding candidates_mem using k vr by blast
  then show thesis using that by (auto simp: in_set_conv_nth)
qed

definition cover_of :: "int list \<Rightarrow> int list \<Rightarrow> nat set" where
  "cover_of board g = {n \<in> nodes (header_nodes (column_names board)) (in_column (column_names board) (row_names (candidates board))).
     g ! nat (cell_of board n) = digit_of board n}"

lemma cover_of_mem:
  assumes b: "built s (column_names board) (candidates board)"
  shows "n \<in> cover_of board g \<longleftrightarrow> (\<exists>k<length (candidates board). \<exists>q<4. \<exists>i v. n = base (column_names board) k + q \<and>
     candidates board ! k = (i, v) \<and> g ! i = int v)"
proof -
  have "g ! nat (cell_of board n) = digit_of board n \<longleftrightarrow> (\<exists>i v. candidates board ! k = (i, v) \<and> g ! i = int v)"
    if "q < 4" "n = base (column_names board) k + q" for k q
    using that cand_of_base [OF that(1), of "column_names board" k] by (cases "candidates board ! k") (auto simp: cell_of_def digit_of_def)
  then show ?thesis unfolding cover_of_def built_nodes [OF b distinct_column_names] mem_Collect_eq by blast
qed

lemma cover_of_meets:
  assumes b: "built s (column_names board) (candidates board)" and g: "completes board g" and x: "x \<in> set (column_names board)"
  shows "\<exists>k<length (candidates board). \<exists>q<4. base (column_names board) k + q \<in> cover_of board g \<and> cand_names (candidates board ! k) ! q = x"
proof -
  have s: "solved_board g" and keep: "\<forall>k<81. board ! k \<noteq> 0 \<longrightarrow> g ! k = board ! k" using g by (auto simp: completes_def)
  have dig: "1 \<le> g ! k" if "k < 81" for k
  proof -
    have "g ! k \<in> set g" using s that by (simp add: solved_board_def)
    then show ?thesis using s by (auto simp: solved_board_def)
  qed
  from x consider (cell) k where "k < 81" "board ! k = 0" "x = int k"
    | (unit) u i v where "u < 3" "i < 9" "1 \<le> v \<and> v < 10" "\<not> clue board u i v" "x = unit_name u i v"
    unfolding column_names_mem by blast
  then show ?thesis
  proof cases
    case cell
    have v: "g ! k = int (nat (g ! k))" using dig [OF cell(1)] by simp
    obtain m where m: "m < length (candidates board)" "candidates board ! m = (k, nat (g ! k))"
      by (rule completion_candidate [OF g cell(1,2) v])
    have "base (column_names board) m + 0 \<in> cover_of board g" unfolding cover_of_mem [OF b] using m v by (metis zero_less_numeral)
    then show ?thesis using m cell(3) by (intro exI [of _ m] conjI exI [of _ "0 :: nat"]) (simp_all add: cand_names_nth(1))
  next
    case unit
    obtain k where k: "k < 81" "unit_of u k = i" "g ! k = int v" using s unit unfolding solved_board_def by blast
    have k0: "board ! k = 0" using keep k unit(4) by (auto simp: clue_def)
    obtain m where m: "m < length (candidates board)" "candidates board ! m = (k, v)"
      by (rule completion_candidate [OF g k(1) k0 k(3)])
    have u4: "Suc u < 4" using unit(1) by simp
    have "base (column_names board) m + Suc u \<in> cover_of board g" unfolding cover_of_mem [OF b] using m k(3) u4 by blast
    then show ?thesis using m u4 k(2) unit(1,5) by (intro exI [of _ m] conjI exI [of _ "Suc u"]) (simp_all add: cand_names_nth(2))
  qed
qed

lemma cover_of_unique:
  assumes g: "completes board g"
    and k: "k < length (candidates board)" "q < 4" "candidates board ! k = (i, v)" "g ! i = int v"
    and k': "k' < length (candidates board)" "q' < 4" "candidates board ! k' = (i', v')" "g ! i' = int v'"
    and n: "cand_names (i, v) ! q = cand_names (i', v') ! q'"
  shows "k = k' \<and> q = q'"
proof -
  have s: "solved_board g" using g by (simp add: completes_def)
  note c = candidate_nth [OF k(1,3)] candidate_nth [OF k'(1,3)]
  have "q = q' \<and> i = i'"
  proof (cases q)
    case 0
    have "q' = 0"
    proof (cases q')
      case (Suc u')
      with k'(2) 0 n c show ?thesis by (simp add: cand_names_nth unit_name_def)
    qed
    with 0 n show ?thesis by (simp add: cand_names_nth)
  next
    case (Suc u)
    then have u: "u < 3" using k(2) by simp
    have "q' \<noteq> 0"
    proof
      assume "q' = 0"
      with n c Suc u show False by (simp add: cand_names_nth unit_name_def)
    qed
    then obtain u' where u': "q' = Suc u'" "u' < 3" using k'(2) by (cases q') auto
    have "unit_name u (unit_of u i) v = unit_name u' (unit_of u' i') v'" using n Suc u u' by (simp add: cand_names_nth(2))
    with unit_name_eq [of "unit_of u i" "unit_of u' i'" v v' u u'] c u u' unit_of_less [of i u] unit_of_less [of i' u']
    have e: "u = u'" "unit_of u i = unit_of u' i'" "v = v'" by auto
    have "i = i'" by (rule solved_unit_inj [OF s u]) (use c e k(4) k'(4) in simp_all)
    with Suc u' e show ?thesis by simp
  qed
  moreover from this have "v = v'" using k(4) k'(4) by simp
  ultimately show ?thesis using k k' nth_eq_iff_index_eq [OF distinct_candidates k(1) k'(1)] by simp
qed

theorem cover_complete:
  assumes b: "built s (column_names board) (candidates board)" and g: "completes board g"
  shows "board_cover board s (cover_of board g)"
  unfolding board_cover_def
proof (rule exact_coverI)
  let ?nms = "column_names board" and ?cs = "candidates board"
  note d = distinct_column_names [of board]
  show "cover_of board g \<subseteq> nodes (header_nodes ?nms) (in_column ?nms (row_names ?cs))" by (auto simp: cover_of_def)
  show "row_next ?nms n \<in> cover_of board g" if n: "n \<in> cover_of board g" for n
  proof -
    obtain k q i v where k: "k < length ?cs" "q < 4" "n = base ?nms k + q" "?cs ! k = (i, v)" "g ! i = int v"
      using n unfolding cover_of_mem [OF b] by blast
    have "\<exists>q'<4. row_next ?nms n = base ?nms k + q'"
      using k(2,3) unfolding less_4 by (elim disjE) (simp_all only: row_next_base add_0_right, auto)
    then show ?thesis unfolding cover_of_mem [OF b] using k by blast
  qed
  show "\<exists>n\<in>cover_of board g. ncol s n = c" if c: "c \<in> set (header_nodes ?nms)" for c
  proof -
    define j where "j = c - 1"
    have j: "c = Suc j" "j < length ?nms" using c by (auto simp: j_def)
    obtain k q where k: "k < length ?cs" "q < 4" "base ?nms k + q \<in> cover_of board g" "cand_names (?cs ! k) ! q = ?nms ! j"
      using cover_of_meets [OF b g nth_mem [OF j(2)]] by blast
    obtain j' where j': "j' < length ?nms" "ncol s (base ?nms k + q) = Suc j'" "?nms ! j' = cand_names (?cs ! k) ! q"
      using built_node(2) [OF b d k(1,2)] by auto
    have "j' = j" using nth_eq_iff_index_eq [OF d j'(1) j(2)] j'(3) k(4) by simp
    with j j' k(3) show ?thesis by auto
  qed
  show "x = y" if xy: "x \<in> cover_of board g" "y \<in> cover_of board g" "ncol s x = ncol s y" for x y
  proof -
    obtain k q i v where k: "k < length ?cs" "q < 4" "x = base ?nms k + q" "?cs ! k = (i, v)" "g ! i = int v"
      using xy(1) unfolding cover_of_mem [OF b] by blast
    obtain k' q' i' v' where k': "k' < length ?cs" "q' < 4" "y = base ?nms k' + q'" "?cs ! k' = (i', v')" "g ! i' = int v'"
      using xy(2) unfolding cover_of_mem [OF b] by blast
    have "cand_names (i, v) ! q = cand_names (i', v') ! q'"
      using built_node(2) [OF b d k(1,2)] built_node(2) [OF b d k'(1,2)] xy(3) k k' by auto
    from cover_of_unique [OF g k(1,2,4,5) k'(1,2,4,5) this] k(3) k'(3) show ?thesis by simp
  qed
qed

section \<open>The solver is correct\<close>

theorem solve_built:
  assumes b: "built s (column_names board) (candidates board)" and l: "length board = 81" "\<forall>v\<in>set board. 0 \<le> v \<and> v \<le> 9"
    and io: "inout s = board" "stack s = []"
  shows "\<exists>b s'. solve s = Some (b, s') \<and> (if b then completes board (inout s') else s' = s \<and> (\<forall>g. \<not> completes board g))"
proof -
  let ?nms = "column_names board" and ?cs = "candidates board"
  let ?N = "nodes (header_nodes ?nms) (in_column ?nms (row_names ?cs))"
  have "\<forall>n\<in>?N \<union> set (stack s). writable (row_next ?nms) (cell_of board) (digit_of board) s n"
    using built_writable [OF b] io l(1) by simp
  from solve_at_spec [OF built_links_ok [OF b] this] obtain r s' where
    r: "solve_at None s = Some (r, s')"
      "outcome (row_next ?nms) (cell_of board) (digit_of board) s (header_nodes ?nms) (in_column ?nms (row_names ?cs)) r s'"
    by blast
  show ?thesis
  proof (cases r)
    case True
    then obtain ns where ns: "set ns \<subseteq> ?N" "board_cover board s (\<Union>n\<in>set ns. row_set (row_next ?nms) n)"
      "inout s' = write_rows (cell_of board) (digit_of board) ns board"
      using r(2) io unfolding outcome_def board_cover_def by auto
    from cover_sound [OF b l ns(2,1)] ns(3) r(1) True show ?thesis by (auto simp: solve_def)
  next
    case False
    then have "s' = s" "\<And>S. \<not> board_cover board s S" using r(2) unfolding outcome_def board_cover_def by auto
    moreover from this have "\<not> completes board g" for g using cover_complete [OF b, of g] by auto
    ultimately show ?thesis using r(1) False by (auto simp: solve_def)
  qed
qed

text \<open>The digits of a puzzle or of an answer, and what it means that an answer completes a puzzle.\<close>

definition digit_values :: "string \<Rightarrow> int list" where
  "digit_values p = map (\<lambda>c. char_value c - 48) p"

definition completion :: "string \<Rightarrow> string \<Rightarrow> bool" where
  "completion p g \<longleftrightarrow> completes (digit_values p) (digit_values g)"

lemma char_value_digit: "n < 128 \<Longrightarrow> char_value (char_of n) = int n"
proof -
  assume "n < 128"
  then have "signed_take_bit 7 (int n) = int n" by (intro signed_take_bit_int_eq_self) simp_all
  then show ?thesis using \<open>n < 128\<close> by (simp add: char_value_def signed_of_nat)
qed

lemma solved_board_text:
  assumes "solved_board g"
  shows "digit_values (map (\<lambda>v. char_of (nat (v + 48))) g) = g"
proof -
  have "char_value (char_of (nat (v + 48))) - 48 = v" if "v \<in> set g" for v
  proof -
    have "1 \<le> v \<and> v \<le> 9" using assms that by (simp add: solved_board_def)
    then show ?thesis using char_value_digit [of "nat (v + 48)"] by auto
  qed
  then show ?thesis by (simp add: digit_values_def map_idI)
qed

section \<open>A solved board\<close>

text \<open>The board whose row \<open>r\<close> counts up from \<open>3 * (r mod 3) + r div 3 + 1\<close>: it shows that solved boards exist.\<close>

definition sample_board :: "int list" where
  "sample_board = map (\<lambda>k. int ((3 * (k div 9 mod 3) + k div 9 div 3 + k mod 9) mod 9) + 1) [0..<81]"

lemma sample_board_nth:
  "r < 9 \<Longrightarrow> c < 9 \<Longrightarrow> sample_board ! (9 * r + c) = int ((3 * (r mod 3) + r div 3 + c) mod 9) + 1"
proof -
  assume "r < 9" "c < 9"
  then have "9 * r + c < 81" "(9 * r + c) div 9 = r" "(9 * r + c) mod 9 = c" by simp_all
  then show ?thesis unfolding sample_board_def by (simp only: nth_map length_upt nth_upt diff_zero add_0)
qed

lemma mod_9_shift: "a \<le> 9 \<Longrightarrow> w < 9 \<Longrightarrow> (a + (w + 9 - a) mod 9) mod 9 = (w :: nat)"
  by (simp add: mod_simps)

lemma digit_swap:
  fixes x :: nat
  assumes "x < 9"
  shows "\<exists>r<9. 3 * (r mod 3) + r div 3 = x"
proof -
  have d: "x div 3 < 3" "x mod 3 < 3" using assms by (simp_all add: less_mult_imp_div_less)
  then have "(3 * (x mod 3) + x div 3) mod 3 = x div 3" "(3 * (x mod 3) + x div 3) div 3 = x mod 3" by simp_all
  moreover have "3 * (x mod 3) + x div 3 < 9" using d by linarith
  ultimately show ?thesis by (intro exI [of _ "3 * (x mod 3) + x div 3"]) simp
qed

lemma box_of_cell:
  assumes "R < 3" "C < 3" "a < 3" "b < 3"
  shows "box_of (9 * (3 * R + a) + (3 * C + b)) = 3 * R + C" "(3 * R + a) mod 3 = a" "(3 * R + a) div 3 = R"
    "3 * R + a < 9" "3 * C + b < 9"
proof -
  have c: "3 * C + b < 9" using assms by linarith
  have "(9 * x + y) div 9 = x" "(9 * x + y) mod 9 = y" if "y < 9" for x y :: nat using that by simp_all
  from this [OF c, of "3 * R + a"]
  have "(9 * (3 * R + a) + (3 * C + b)) div 9 = 3 * R + a" "(9 * (3 * R + a) + (3 * C + b)) mod 9 = 3 * C + b" .
  moreover have "(3 * R + a) div 3 = R" "(3 * C + b) div 3 = C" using assms by simp_all
  ultimately show "box_of (9 * (3 * R + a) + (3 * C + b)) = 3 * R + C" by (simp only: box_of_def Let_def mult.commute)
  show "(3 * R + a) mod 3 = a" "(3 * R + a) div 3 = R" "3 * R + a < 9" "3 * C + b < 9" using assms by simp_all
qed

lemma sample_board_unit:
  assumes u: "u < 3" and i: "i < 9" and v: "1 \<le> v" "v < 10"
  shows "\<exists>k<81. unit_of u k = i \<and> sample_board ! k = int v"
proof -
  define w where "w = v - 1"
  have w: "w < 9" "int v = int w + 1" using v by (auto simp: w_def)
  have x: "\<exists>x<9. (a + x) mod 9 = w" if "a \<le> 9" for a
    using mod_9_shift [OF that w(1)] by (intro exI [of _ "(w + 9 - a) mod 9"]) simp
  have i3: "i mod 3 < 3" "i div 3 < 3" using i by (simp_all add: less_mult_imp_div_less)
  have "\<exists>r<9. \<exists>c<9. unit_of u (9 * r + c) = i \<and> (3 * (r mod 3) + r div 3 + c) mod 9 = w"
    using u unfolding less_3
  proof (elim disjE)
    assume "u = 0"
    obtain c where "c < 9" "(3 * (i mod 3) + i div 3 + c) mod 9 = w" using x [of "3 * (i mod 3) + i div 3"] i3 by auto
    with \<open>u = 0\<close> i show ?thesis by (intro exI [of _ i] exI [of _ c] conjI) (simp_all add: unit_of_def)
  next
    assume "u = 1"
    obtain y where y: "y < 9" "(i + y) mod 9 = w" using x [of i] i by auto
    obtain r where r: "r < 9" "3 * (r mod 3) + r div 3 = y" using digit_swap [OF y(1)] by auto
    with y i \<open>u = 1\<close> show ?thesis by (intro exI [of _ r] exI [of _ i] conjI) (simp_all add: unit_of_def add.commute)
  next
    assume "u = 2"
    obtain y where y: "y < 9" "(i div 3 + 3 * (i mod 3) + y) mod 9 = w" using x [of "i div 3 + 3 * (i mod 3)"] i3 by auto
    have y3: "y div 3 < 3" "y mod 3 < 3" "3 * (y div 3) + y mod 3 = y" using y(1) by (simp_all add: less_mult_imp_div_less)
    note bc = box_of_cell [OF i3(2,1) y3(1,2)]
    have "3 * (y div 3) + i div 3 + (3 * (i mod 3) + y mod 3) = i div 3 + 3 * (i mod 3) + y" using y3(3) by linarith
    moreover have "3 * (i div 3) + i mod 3 = i" by simp
    ultimately show ?thesis using y(2) bc \<open>u = 2\<close>
      by (intro exI [of _ "3 * (i div 3) + y div 3"] exI [of _ "3 * (i mod 3) + y mod 3"] conjI)
        (simp_all only: unit_of_def, simp_all)
  qed
  then obtain r c where rc: "r < 9" "c < 9" "unit_of u (9 * r + c) = i" "(3 * (r mod 3) + r div 3 + c) mod 9 = w" by blast
  have "9 * r + c < 81" using rc(1,2) by simp
  with rc sample_board_nth [OF rc(1,2)] w show ?thesis by (intro exI [of _ "9 * r + c"]) simp
qed

lemma sample_board_solved: "solved_board sample_board"
proof -
  have "\<forall>v\<in>set sample_board. 1 \<le> v \<and> v \<le> 9"
  proof
    fix v assume "v \<in> set sample_board"
    then obtain m :: nat where "v = int (m mod 9) + 1" unfolding sample_board_def set_map by blast
    moreover have "m mod 9 < 9" by simp
    ultimately show "1 \<le> v \<and> v \<le> 9" by linarith
  qed
  moreover have "length sample_board = 81" unfolding sample_board_def by (simp only: length_map length_upt)
  ultimately show ?thesis unfolding solved_board_def using sample_board_unit by blast
qed

section \<open>The properties\<close>

text \<open>
  C36: the search of the Sudoku solver ends. For every board of 81 digits the constructor returns, no assertion
  failing and at most \<open>kMaxNodes\<close> nodes taken, and \<open>solve\<close> returns on what it has built; if it returns
  false then every link, size and stack entry of the object is what it was before the call.
\<close>

theorem solve_terminates:
  assumes "length board = 81" "\<forall>v\<in>set board. 0 \<le> v \<and> v \<le> 9"
  shows "\<exists>s b s'. SudokuSolver mem board = Some s \<and> cur_node s \<le> kMaxNodes \<and> solve s = Some (b, s') \<and> (b \<or> s' = s)"
proof -
  obtain s where s: "SudokuSolver mem board = Some s" "built s (column_names board) (candidates board)"
    "inout s = board" "stack s = []" using SudokuSolver_builds [OF assms] by blast
  have "cur_node s = Suc (length (column_names board)) + 4 * length (candidates board)"
    using s(2) by (simp add: built_def building_def)
  then have "cur_node s \<le> kMaxNodes"
    using length_column_names [of board] length_candidates [of board] by (simp add: kMaxNodes_def)
  with solve_built [OF s(2) assms s(3,4)] s(1) show ?thesis by (auto split: if_splits)
qed

text \<open>The empty board, in memory that holds ones.\<close>

definition fresh_memory :: solver where
  "fresh_memory = \<lparr>nleft = (\<lambda>_. 1), nright = (\<lambda>_. 1), nup = (\<lambda>_. 1), ndown = (\<lambda>_. 1), ncol = (\<lambda>_. 1), nname = (\<lambda>_. 1),
     nsize = (\<lambda>_. 1), root = 1, inout = [], columns = (\<lambda>_. Some 1), stack = [1], cur_node = 1\<rparr>"

theorem solve_terminates_witness:
  "length (replicate 81 (0 :: int)) = 81 \<and> set (replicate 81 (0 :: int)) \<subseteq> {0..9} \<and>
   (\<exists>s b s'. SudokuSolver fresh_memory (replicate 81 0) = Some s \<and> cur_node s \<le> kMaxNodes \<and>
      solve s = Some (b, s') \<and> (b \<or> s' = s))"
proof -
  have "length (replicate 81 (0 :: int)) = 81" "\<forall>v\<in>set (replicate 81 (0 :: int)). 0 \<le> v \<and> v \<le> 9"
    by (simp_all only: length_replicate set_replicate_conv_if ball_simps) simp_all
  with solve_terminates [OF this, of fresh_memory] show ?thesis by auto
qed

lemma solve_result:
  assumes "length puzzle = 81"
  shows "\<exists>r. solveSudoku mem puzzle = Some r \<and>
    (if \<exists>g. completion puzzle g then completion puzzle r else r = kNoSolution)"
proof (cases "\<forall>v\<in>set (digit_values puzzle). 0 \<le> v \<and> v \<le> 9")
  case True
  let ?b = "digit_values puzzle"
  have l: "length ?b = 81" using assms by (simp add: digit_values_def)
  obtain s where s: "SudokuSolver mem ?b = Some s" "built s (column_names ?b) (candidates ?b)"
    "inout s = ?b" "stack s = []" using SudokuSolver_builds [OF l True] by blast
  obtain b s' where r: "solve s = Some (b, s')" "if b then completes ?b (inout s') else s' = s \<and> (\<forall>g. \<not> completes ?b g)"
    using solve_built [OF s(2) l True s(3,4)] by blast
  have "list_all (\<lambda>v. 0 \<le> v \<and> v \<le> 9) ?b" using True by (simp add: list_all_iff)
  then have e: "solveSudoku mem puzzle = Some (if b then map (\<lambda>v. char_of (nat (v + 48))) (inout s') else kNoSolution)"
    using assms s(1) r(1) by (simp add: solveSudoku_def kCells_def digit_values_def)
  show ?thesis
  proof (cases b)
    case True
    with r(2) have c: "completes ?b (inout s')" by simp
    then have "completion puzzle (map (\<lambda>v. char_of (nat (v + 48))) (inout s'))"
      by (simp add: completion_def solved_board_text completes_def)
    with e True show ?thesis by auto
  next
    case False
    with r(2) e show ?thesis by (auto simp: completion_def)
  qed
next
  case False
  then have "\<not> list_all (\<lambda>v. 0 \<le> v \<and> v \<le> 9) (digit_values puzzle)" by (simp add: list_all_iff)
  then have e: "solveSudoku mem puzzle = Some kNoSolution"
    using assms by (simp add: solveSudoku_def kCells_def digit_values_def)
  obtain k where k: "k < 81" "\<not> (0 \<le> digit_values puzzle ! k \<and> digit_values puzzle ! k \<le> 9)"
    using False assms by (auto simp: in_set_conv_nth digit_values_def)
  have "\<not> completion puzzle g" for g
  proof
    assume c: "completion puzzle g"
    have "digit_values g ! k \<in> set (digit_values g)" using c k(1) by (simp add: completion_def completes_def solved_board_def)
    then have "1 \<le> digit_values g ! k \<and> digit_values g ! k \<le> 9" using c by (simp add: completion_def completes_def solved_board_def)
    moreover have "digit_values g ! k = digit_values puzzle ! k"
      using c k by (auto simp: completion_def completes_def)
    ultimately show False using k(2) by simp
  qed
  with e show ?thesis by auto
qed

text \<open>
  C35: \<open>solveSudoku\<close> is correct. On every puzzle of 81 characters it returns a string, whatever the memory of the
  solver held before: a completion of the puzzle if the puzzle has one (also when it has several), and the text
  \<open>NoSolution\<close> if it has none, which includes puzzles with other characters than digits and puzzles whose clues
  contradict each other.
\<close>

theorem solveSudoku_correct:
  assumes "length puzzle = 81"
  shows "\<exists>r. solveSudoku mem puzzle = Some r \<and>
    (if \<exists>g. completion puzzle g then completion puzzle r else r = kNoSolution)"
  using assms by (rule solve_result)

lemma empty_completed: "completion (replicate 81 (CHR ''0'')) (map (\<lambda>v. char_of (nat (v + 48))) sample_board)"
proof -
  have "CHR ''0'' = char_of (48 :: nat)" by code_simp
  then have "char_value (CHR ''0'') - 48 = 0" using char_value_digit [of 48] by simp
  then have "digit_values (replicate 81 (CHR ''0'')) = replicate 81 0"
    unfolding digit_values_def by (simp only: map_replicate)
  then show ?thesis
    unfolding completion_def completes_def solved_board_text [OF sample_board_solved]
    using sample_board_solved by (simp only: nth_replicate simp_thms) simp
qed

theorem solveSudoku_correct_witness:
  "length (replicate 81 (CHR ''0'')) = 81 \<and>
   (\<exists>r. solveSudoku fresh_memory (replicate 81 (CHR ''0'')) = Some r \<and> completion (replicate 81 (CHR ''0'')) r)"
proof -
  have l: "length (replicate 81 (CHR ''0'')) = 81" by (simp only: length_replicate)
  from solveSudoku_correct [OF l, of fresh_memory] empty_completed
  have "\<exists>r. solveSudoku fresh_memory (replicate 81 (CHR ''0'')) = Some r \<and> completion (replicate 81 (CHR ''0'')) r"
    by (auto split: if_splits)
  with l show ?thesis by blast
qed

end
