(* ===== verification/SudokuStat.thy ===== *)
theory SudokuStat
  imports Timestamp LogStream
begin

text \<open>
  \<open>SudokuStat\<close> (\<open>src/excercises/sudoku/stat.h\<close>): counters of the sudoku servers and, for the last
  \<open>kSeconds\<close> seconds, requests and latencies per second in two \<open>boost::circular_buffer\<close>s. The buffer is a
  parameter: \<open>push\<close> is its \<open>push_back\<close>, and \<open>circular_push\<close> states what Boost documents of it. Also
  \<open>getPercentile\<close> and the constructor of \<open>Percentile\<close> (\<open>percentile.h\<close>), which the clients report with.

  \<open>stat_run\<close> are the states that calls can lead to, with the log of the responses counted since the last
  reset; the lemmas say that the members keep their shape, that no assertion fails, and that the numbers per
  second are those of the log.
\<close>

section \<open>The class SudokuStat\<close>

definition kSeconds :: nat where
  "kSeconds = 60"

record stat =
  lastSecond :: int
  requests :: "int list"
  latencies :: "int list"
  totalRequests :: int
  totalResponses :: int
  totalSolved :: int
  badRequests :: int
  droppedRequests :: int
  totalLatency :: int
  badLatency :: int

type_synonym push_back = "int list \<Rightarrow> int \<Rightarrow> int list"

text \<open>A full buffer overwrites its first element.\<close>

definition circular_push :: "push_back \<Rightarrow> bool" where
  "circular_push push \<longleftrightarrow>
     (\<forall>xs x. length xs \<le> kSeconds \<longrightarrow> push xs x = (if length xs < kSeconds then xs @ [x] else tl xs @ [x]))"

definition SudokuStat_new :: stat where
  "SudokuStat_new = \<lparr>lastSecond = 0, requests = [], latencies = [], totalRequests = 0, totalResponses = 0,
     totalSolved = 0, badRequests = 0, droppedRequests = 0, totalLatency = 0, badLatency = 0\<rparr>"

definition stat_reset :: "stat \<Rightarrow> string \<times> stat" where
  "stat_reset st = (''reset done.'', st\<lparr>lastSecond := 0, requests := [], latencies := [], totalRequests := 0,
     totalResponses := 0, totalSolved := 0, badRequests := 0, totalLatency := 0, badLatency := 0\<rparr>)"

definition recordRequest :: "stat \<Rightarrow> stat" where
  "recordRequest st = st\<lparr>totalRequests := totalRequests st + 1\<rparr>"

definition recordBadRequest :: "stat \<Rightarrow> stat" where
  "recordBadRequest st = st\<lparr>badRequests := badRequests st + 1\<rparr>"

definition recordDroppedRequest :: "stat \<Rightarrow> stat" where
  "recordDroppedRequest st = st\<lparr>droppedRequests := droppedRequests st + 1\<rparr>"

text \<open>\<open>++requests_[idx]; latencies_[idx] += elapsed_us\<close>; \<open>back()\<close> is the last index of a buffer that is not empty.\<close>

definition count_at :: "stat \<Rightarrow> nat \<Rightarrow> int \<Rightarrow> stat option" where
  "count_at st idx elapsed_us = do {
     ensure (idx < length (requests st));
     ensure (idx < length (latencies st));
     Some (st\<lparr>requests := (requests st)[idx := requests st ! idx + 1],
              latencies := (latencies st)[idx := latencies st ! idx + elapsed_us]\<rparr>)
   }"

definition count_back :: "stat \<Rightarrow> int \<Rightarrow> stat option" where
  "count_back st elapsed_us = do {
     ensure (requests st \<noteq> [] \<and> latencies st \<noteq> []);
     count_at st (length (requests st) - 1) elapsed_us
   }"

definition push_zero :: "push_back \<Rightarrow> stat \<Rightarrow> stat" where
  "push_zero push st = st\<lparr>requests := push (requests st) 0, latencies := push (latencies st) 0\<rparr>"

function advance :: "push_back \<Rightarrow> stat \<Rightarrow> int \<Rightarrow> stat" where
  "advance push st second =
     (if lastSecond st < second
      then let st = push_zero push st in advance push (st\<lparr>lastSecond := lastSecond st + 1\<rparr>) second
      else st)"
  by pat_completeness auto
termination
  by (relation "measure (\<lambda>(push, st, second). nat (second - lastSecond st))") (auto simp: push_zero_def)

declare advance.simps [simp del]

definition recordResponse :: "push_back \<Rightarrow> stat \<Rightarrow> Timestamp \<Rightarrow> Timestamp \<Rightarrow> bool \<Rightarrow> stat option" where
  "recordResponse push st now receive solved = do {
     let second = secondsSinceEpoch now;
     let elapsed_us = microSecondsSinceEpoch now - microSecondsSinceEpoch receive;
     ensure (length (requests st) = length (latencies st));
     let st = st\<lparr>totalResponses := totalResponses st + 1\<rparr>;
     let st = (if solved then st\<lparr>totalSolved := totalSolved st + 1\<rparr> else st);
     if elapsed_us < 0 then Some (st\<lparr>badLatency := badLatency st + 1\<rparr>)
     else do {
       let st = st\<lparr>totalLatency := totalLatency st + elapsed_us\<rparr>;
       let firstSecond = lastSecond st - int (length (requests st)) + 1;
       st \<leftarrow>
         (if lastSecond st = second then count_back st elapsed_us
          else if lastSecond st + 1 = second \<or> lastSecond st = 0
          then count_back (push_zero push (st\<lparr>lastSecond := second\<rparr>)) elapsed_us
          else if second > lastSecond st then
            count_back
              (if second < lastSecond st + int kSeconds then advance push st second
               else push_zero push (st\<lparr>requests := [], latencies := [], lastSecond := second\<rparr>)) elapsed_us
          else if second \<ge> firstSecond then count_at st (nat (second - firstSecond)) elapsed_us
          else Some st);
       ensure (length (requests st) = length (latencies st));
       Some st
     }
   }"

text \<open>\<open>report\<close> as the items it inserts into a \<open>LogStream\<close>; \<open>queueSize\<close> is that of the thread pool.\<close>

definition report_items :: "stat \<Rightarrow> nat \<Rightarrow> stream_item list" where
  "report_items st queueSize =
     (let line = (\<lambda>label v. [S_cstring (Some label), S_int v, S_char (CHR 0x0A)]);
          total = sum_list (requests st);
          latency = sum_list (latencies st)
      in line ''task_queue_size '' (int queueSize)
       @ line ''total_requests '' (totalRequests st) @ line ''total_responses '' (totalResponses st)
       @ line ''total_solved '' (totalSolved st) @ line ''bad_requests '' (badRequests st)
       @ line ''dropped_requests '' (droppedRequests st) @ line ''latency_sum_us '' (totalLatency st)
       @ (if badLatency st > 0 then line ''bad_latency'' (badLatency st) else [])
       @ line ''last_second '' (lastSecond st)
       @ [S_cstring (Some ''requests_per_second'')]
       @ concat (map (\<lambda>r. [S_char (CHR '' ''), S_int r]) (requests st)) @ [S_char (CHR 0x0A)]
       @ line ''requests_60s '' total
       @ [S_cstring (Some ''latency_sum_us_per_second'')]
       @ concat (map (\<lambda>r. [S_char (CHR '' ''), S_int r]) (latencies st)) @ [S_char (CHR 0x0A)]
       @ line ''latency_sum_us_60s '' latency
       @ line ''latency_us_60s '' (if total = 0 then 0 else c_div latency total)
       @ line ''latency_us_avg '' (if totalResponses st = 0 then 0 else c_div (totalLatency st) (totalResponses st)))"

definition report :: "bytes \<Rightarrow> stat \<Rightarrow> nat \<Rightarrow> string option" where
  "report garbage st queueSize = map_option fb_toString (put_items (FixedBuffer_new garbage) (report_items st queueSize))"

section \<open>Percentiles\<close>

definition getPercentile :: "int list \<Rightarrow> int \<Rightarrow> int option" where
  "getPercentile lats percent = do {
     ensure (length lats > 0);
     idx \<leftarrow> (if percent > 0 then do {
               let idx = (length lats * nat percent + 99) div 100 - 1;
               ensure (idx < length lats);
               Some idx
             } else Some 0);
     Some (lats ! idx)
   }"

text \<open>The constructor sorts the vector in place; the text of \<open>Fmt("%6zd", n)\<close> is \<open>pad_left 6\<close>.\<close>

definition Percentile_new :: "int list \<Rightarrow> int \<Rightarrow> (stream_item list \<times> int list) option" where
  "Percentile_new lats infly = do {
     let head = [S_cstring (Some ''recv ''), S_formatted (pad_left 6 (CHR '' '') (show_nat (length lats))),
                 S_cstring (Some '' in-fly ''), S_int infly];
     if lats \<noteq> [] then do {
       let lats = sort lats;
       let mean = c_div (sum_list lats) (int (length lats));
       median \<leftarrow> getPercentile lats 50;
       p90 \<leftarrow> getPercentile lats 90;
       p99 \<leftarrow> getPercentile lats 99;
       Some (head @ [S_cstring (Some '' min ''), S_int (hd lats), S_cstring (Some '' max ''), S_int (last lats),
         S_cstring (Some '' avg ''), S_int mean, S_cstring (Some '' median ''), S_int median,
         S_cstring (Some '' p90 ''), S_int p90, S_cstring (Some '' p99 ''), S_int p99], lats)
     }
     else Some (head, lats)
   }"

text \<open>
  \<open>save\<close> writes a histogram with buckets of five microseconds: a row has the lower bound of the bucket, the number of
  latencies in it and the sum so far, from which the file shows the percentage.
\<close>

fun save_loop :: "int \<Rightarrow> int \<Rightarrow> int \<Rightarrow> int list \<Rightarrow> ((int \<times> int \<times> int) list \<times> int \<times> int \<times> int) option" where
  "save_loop low count acc [] = Some ([], low, count, acc)"
| "save_loop low count acc (l # ls) =
     (if l < low + 5 then save_loop low (count + 1) acc ls
      else do {
        let acc' = acc + count;
        let low' = c_div l 5 * 5;
        ensure (l < low' + 5);
        (rows, r) \<leftarrow> save_loop low' 1 acc' ls;
        Some ((low, count, acc') # rows, r)
      })"

definition Percentile_save :: "int list \<Rightarrow> (int \<times> int \<times> int) list option" where
  "Percentile_save lats =
     (case lats of
        [] \<Rightarrow> Some []
      | l # ls \<Rightarrow> do {
          (rows, low, count, acc) \<leftarrow> save_loop (c_div l 5 * 5) 0 0 lats;
          let acc = acc + count;
          ensure (acc = int (length lats));
          Some (rows @ [(low, count, acc)])
        })"

section \<open>Windows of seconds\<close>

text \<open>The seconds that a buffer of \<open>n\<close> entries stands for when \<open>l\<close> is the last.\<close>

definition window :: "int \<Rightarrow> nat \<Rightarrow> int list" where
  "window l n = [l - int n + 1..l]"

lemma length_window [simp]: "length (window l n) = n"
  by (simp add: window_def)

lemma set_window [simp]: "t \<in> set (window l n) \<longleftrightarrow> l - int n < t \<and> t \<le> l"
  by (auto simp: window_def)

lemma window_nth: "i < n \<Longrightarrow> window l n ! i = l - int n + 1 + int i"
  by (simp add: window_def nth_upto)

lemma window_snoc: "window l n @ [l + 1] = window (l + 1) (Suc n)"
  using upto_rec2 [of "l - int n + 1" "l + 1"] by (simp add: window_def)

lemma window_tl: "0 < n \<Longrightarrow> tl (window l n) = window l (n - 1)"
  using upto_rec1 [of "l - int n + 1" l] by (simp add: window_def of_nat_diff)

lemma window_push:
  assumes "circular_push push" "n \<le> kSeconds" "c (l + 1) = 0"
  shows "push (map c (window l n)) 0 = map c (window (l + 1) (min kSeconds (Suc n)))"
proof (cases "n < kSeconds")
  case True
  then show ?thesis using assms by (simp add: circular_push_def window_snoc [symmetric])
next
  case False
  then have n: "n = kSeconds" "0 < n" using assms(2) by (auto simp: kSeconds_def)
  then have "push (map c (window l n)) 0 = map c (tl (window l n) @ [l + 1])"
    using assms(1,3) by (simp add: circular_push_def map_tl)
  also have "tl (window l n) @ [l + 1] = window (l + 1) n" using n window_tl [of n l] window_snoc [of l "n - 1"] by simp
  finally show ?thesis using n by simp
qed

lemma window_update:
  assumes "t \<in> set (window l n)"
  shows "(map c (window l n))[nat (t - (l - int n + 1)) := d] = map (c(t := d)) (window l n)"
proof (rule nth_equalityI)
  fix i assume "i < length ((map c (window l n))[nat (t - (l - int n + 1)) := d])"
  then have i: "i < n" by simp
  have "nat (t - (l - int n + 1)) = i \<longleftrightarrow> window l n ! i = t" using assms i by (auto simp: window_nth)
  with i show "(map c (window l n))[nat (t - (l - int n + 1)) := d] ! i = map (c(t := d)) (window l n) ! i"
    by (auto simp: nth_list_update)
qed simp

section \<open>The log of responses\<close>

text \<open>How many responses of the log fall on a second, and the sum of their latencies.\<close>

definition responses_at :: "(int \<times> int) list \<Rightarrow> int \<Rightarrow> int" where
  "responses_at rs t = int (length (filter (\<lambda>(s, e). s = t) rs))"

definition latency_at :: "(int \<times> int) list \<Rightarrow> int \<Rightarrow> int" where
  "latency_at rs t = sum_list (map snd (filter (\<lambda>(s, e). s = t) rs))"

lemma log_snoc:
  "responses_at (rs @ [(t, e)]) = (responses_at rs)(t := responses_at rs t + 1)"
  "latency_at (rs @ [(t, e)]) = (latency_at rs)(t := latency_at rs t + e)"
  by (auto simp: responses_at_def latency_at_def)

lemma log_none:
  "(\<And>s e. (s, e) \<in> set rs \<Longrightarrow> s < t) \<Longrightarrow> responses_at rs t = 0 \<and> latency_at rs t = 0"
proof -
  assume "\<And>s e. (s, e) \<in> set rs \<Longrightarrow> s < t"
  then have "filter (\<lambda>(s, e). s = t) rs = []" by (fastforce simp: filter_empty_conv)
  then show ?thesis by (simp add: responses_at_def latency_at_def)
qed

text \<open>What the members are for a log: the two buffers hold the numbers of the seconds of the window.\<close>

definition stat_ok :: "stat \<Rightarrow> bool" where
  "stat_ok st \<longleftrightarrow> length (requests st) = length (latencies st) \<and> length (requests st) \<le> kSeconds \<and>
     0 \<le> lastSecond st \<and> (lastSecond st = 0 \<longleftrightarrow> requests st = [])"

definition counts :: "stat \<Rightarrow> (int \<times> int) list \<Rightarrow> bool" where
  "counts st rs \<longleftrightarrow> requests st = map (responses_at rs) (window (lastSecond st) (length (requests st))) \<and>
     latencies st = map (latency_at rs) (window (lastSecond st) (length (requests st))) \<and>
     (\<forall>(s, e)\<in>set rs. 0 < s \<and> s \<le> lastSecond st)"

lemma count_at_ok:
  assumes "requests st = map a (window l n)" "latencies st = map b (window l n)" "t \<in> set (window l n)"
  shows "count_at st (nat (t - (l - int n + 1))) e =
    Some (st\<lparr>requests := map (a(t := a t + 1)) (window l n), latencies := map (b(t := b t + e)) (window l n)\<rparr>)"
proof -
  let ?i = "nat (t - (l - int n + 1))"
  have i: "?i < n" "window l n ! ?i = t" using assms(3) by (auto simp: window_nth)
  with assms window_update [OF assms(3), of a "a t + 1"] window_update [OF assms(3), of b "b t + e"]
  show ?thesis by (simp add: count_at_def)
qed

lemma count_back_ok:
  assumes "requests st = map a (window l n)" "latencies st = map b (window l n)" "0 < n"
  shows "count_back st e =
    Some (st\<lparr>requests := map (a(l := a l + 1)) (window l n), latencies := map (b(l := b l + e)) (window l n)\<rparr>)"
proof -
  have "window l n \<noteq> []" "length (requests st) - 1 = nat (l - (l - int n + 1))"
    using assms length_window [of l n] by (auto simp del: length_window)
  with count_at_ok [OF assms(1,2), of l e] assms show ?thesis by (simp add: count_back_def)
qed

lemma push_zero_counts:
  assumes p: "circular_push push" and n: "n \<le> kSeconds"
    and st: "requests st = map (responses_at rs) (window l n)" "latencies st = map (latency_at rs) (window l n)"
    and new: "\<And>s e. (s, e) \<in> set rs \<Longrightarrow> s \<le> l"
  shows "requests (push_zero push st) = map (responses_at rs) (window (l + 1) (min kSeconds (Suc n)))"
    "latencies (push_zero push st) = map (latency_at rs) (window (l + 1) (min kSeconds (Suc n)))"
proof -
  have "s < l + 1" if "(s, e) \<in> set rs" for s e using new [OF that] by simp
  from log_none [of rs, OF this] have "responses_at rs (l + 1) = 0" "latency_at rs (l + 1) = 0" by auto
  with window_push [OF p n] st show "requests (push_zero push st) = map (responses_at rs) (window (l + 1) (min kSeconds (Suc n)))"
    "latencies (push_zero push st) = map (latency_at rs) (window (l + 1) (min kSeconds (Suc n)))"
    by (simp_all add: push_zero_def)
qed

text \<open>Everything but the window.\<close>

definition same_totals :: "stat \<Rightarrow> stat \<Rightarrow> bool" where
  "same_totals st st' \<longleftrightarrow> totalRequests st' = totalRequests st \<and> totalResponses st' = totalResponses st \<and>
     totalSolved st' = totalSolved st \<and> badRequests st' = badRequests st \<and> droppedRequests st' = droppedRequests st \<and>
     totalLatency st' = totalLatency st \<and> badLatency st' = badLatency st"

lemma advance_counts:
  assumes "circular_push push" "counts st rs" "stat_ok st" "0 < lastSecond st" "lastSecond st \<le> second"
  shows "counts (advance push st second) rs \<and> stat_ok (advance push st second) \<and>
    lastSecond (advance push st second) = second \<and> same_totals st (advance push st second)"
  using assms
proof (induction push st second rule: advance.induct)
  case (1 push st second)
  show ?case
  proof (cases "lastSecond st < second")
    case True
    let ?n = "length (requests st)" and ?l = "lastSecond st"
    let ?st = "(push_zero push st)\<lparr>lastSecond := lastSecond (push_zero push st) + 1\<rparr>"
    have l: "lastSecond (push_zero push st) = ?l" by (simp add: push_zero_def)
    have new: "s \<le> ?l" if "(s, e) \<in> set rs" for s e using "1.prems"(2) that by (auto simp: counts_def)
    have "requests st = map (responses_at rs) (window ?l ?n)" "latencies st = map (latency_at rs) (window ?l ?n)" "?n \<le> kSeconds"
      using "1.prems" by (auto simp: counts_def stat_ok_def)
    from push_zero_counts [OF "1.prems"(1) this(3,1,2) new]
    have w: "requests (push_zero push st) = map (responses_at rs) (window (?l + 1) (min kSeconds (Suc ?n)))"
      "latencies (push_zero push st) = map (latency_at rs) (window (?l + 1) (min kSeconds (Suc ?n)))" by auto
    have c: "counts ?st rs" using w "1.prems"(2) by (auto simp: counts_def l)
    have "window (?l + 1) (min kSeconds (Suc ?n)) \<noteq> []" by (simp add: window_def kSeconds_def)
    with w l "1.prems" have "stat_ok ?st" by (auto simp: stat_ok_def kSeconds_def)
    with "1.IH" [OF True refl "1.prems"(1) c] True l "1.prems"(4)
    have "counts (advance push ?st second) rs \<and> stat_ok (advance push ?st second) \<and>
        lastSecond (advance push ?st second) = second \<and> same_totals ?st (advance push ?st second)" by simp
    moreover have "advance push st second = advance push ?st second"
      using True by (subst advance.simps) (simp add: Let_def)
    moreover have "same_totals st st'" if "same_totals ?st st'" for st'
      using that by (auto simp: same_totals_def push_zero_def)
    ultimately show ?thesis by simp
  next
    case False
    with "1.prems" show ?thesis by (subst (1 2 3 4) advance.simps) (simp add: same_totals_def)
  qed
qed

text \<open>The result \<open>r\<close> of counting, from \<open>st\<close>, a response on second \<open>t\<close> that took \<open>e\<close> microseconds.\<close>

definition counted :: "stat \<Rightarrow> (int \<times> int) list \<Rightarrow> int \<Rightarrow> int \<Rightarrow> stat option \<Rightarrow> bool" where
  "counted st rs t e r \<longleftrightarrow>
     (\<exists>st'. r = Some st' \<and> counts st' (rs @ [(t, e)]) \<and> stat_ok st' \<and> same_totals st st')"

lemma counted_back:
  assumes st1: "requests st1 = map (responses_at rs) (window t m)" "latencies st1 = map (latency_at rs) (window t m)"
      "0 < m" "m \<le> kSeconds" "lastSecond st1 = t" "same_totals st st1" "0 < t"
    and rs: "\<forall>(s, e)\<in>set rs. 0 < s \<and> s \<le> t"
  shows "counted st rs t e (count_back st1 e)"
proof -
  let ?st = "st1\<lparr>requests := map (responses_at (rs @ [(t, e)])) (window t m), latencies := map (latency_at (rs @ [(t, e)])) (window t m)\<rparr>"
  have "count_back st1 e = Some ?st" using count_back_ok [OF st1(1-3)] by (simp add: log_snoc)
  moreover have "counts ?st (rs @ [(t, e)])" using st1(5,7) rs by (simp add: counts_def)
  moreover have "window t m \<noteq> []" using st1(3) length_window [of t m] by (auto simp del: length_window)
  then have "stat_ok ?st" using st1(4,5,7) by (simp add: stat_ok_def)
  ultimately show ?thesis using st1(6) by (simp add: counted_def same_totals_def)
qed

lemma counted_push:
  assumes p: "circular_push push"
    and st1: "requests st1 = map (responses_at rs) (window (t - 1) m)" "latencies st1 = map (latency_at rs) (window (t - 1) m)"
      "m \<le> kSeconds" "lastSecond st1 = t" "same_totals st st1" "0 < t"
    and rs: "\<forall>(s, e)\<in>set rs. 0 < s \<and> s < t"
  shows "counted st rs t e (count_back (push_zero push st1) e)"
proof (rule counted_back [where m = "min kSeconds (Suc m)"])
  have new: "s \<le> t - 1" if "(s, d) \<in> set rs" for s d using bspec [OF rs that] by simp
  show "requests (push_zero push st1) = map (responses_at rs) (window t (min kSeconds (Suc m)))"
    "latencies (push_zero push st1) = map (latency_at rs) (window t (min kSeconds (Suc m)))"
    using push_zero_counts [OF p st1(3,1,2) new] by simp_all
  show "\<forall>(s, e)\<in>set rs. 0 < s \<and> s \<le> t" using rs by auto
qed (use st1 in \<open>auto simp: push_zero_def kSeconds_def same_totals_def\<close>)

lemma counted_inside:
  assumes c: "counts st rs" and ok: "stat_ok st" and t: "0 < t" "t \<in> set (window (lastSecond st) (length (requests st)))"
  shows "counted st rs t e (count_at st (nat (t - (lastSecond st - int (length (requests st)) + 1))) e)"
proof -
  let ?l = "lastSecond st" and ?n = "length (requests st)"
  let ?st = "st\<lparr>requests := map (responses_at (rs @ [(t, e)])) (window ?l ?n), latencies := map (latency_at (rs @ [(t, e)])) (window ?l ?n)\<rparr>"
  have w: "requests st = map (responses_at rs) (window ?l ?n)" "latencies st = map (latency_at rs) (window ?l ?n)"
    using c unfolding counts_def by blast+
  have "count_at st (nat (t - (?l - int ?n + 1))) e = Some ?st" using count_at_ok [OF w t(2)] by (simp add: log_snoc)
  moreover have "counts ?st (rs @ [(t, e)])" using c t by (simp add: counts_def)
  moreover have "window ?l ?n \<noteq> []" using t(2) by (auto simp del: set_window)
  then have "stat_ok ?st" using ok t by (auto simp: stat_ok_def)
  ultimately show ?thesis by (simp add: counted_def same_totals_def)
qed

lemma counted_old:
  assumes c: "counts st rs" and ok: "stat_ok st" and t: "0 < t" "t \<le> lastSecond st" "t \<notin> set (window (lastSecond st) (length (requests st)))"
  shows "counted st rs t e (Some st)"
proof -
  let ?w = "window (lastSecond st) (length (requests st))"
  have "requests st = map (responses_at rs) ?w" "latencies st = map (latency_at rs) ?w"
    using c unfolding counts_def by blast+
  moreover have "map (responses_at (rs @ [(t, e)])) ?w = map (responses_at rs) ?w" "map (latency_at (rs @ [(t, e)])) ?w = map (latency_at rs) ?w"
    using t(3) by (auto simp only: log_snoc map_eq_conv fun_upd_apply split: if_splits)
  ultimately have "counts st (rs @ [(t, e)])" using c t by (simp add: counts_def)
  with ok show ?thesis by (simp add: counted_def same_totals_def)
qed

lemma counted_advance:
  assumes "circular_push push" "counts st rs" "stat_ok st" "0 < lastSecond st" "lastSecond st \<le> t"
  shows "counted st rs t e (count_back (advance push st t) e)"
proof -
  let ?st = "advance push st t"
  have a: "counts ?st rs" "stat_ok ?st" "lastSecond ?st = t" "same_totals st ?st"
    using advance_counts [OF assms] by auto
  have "requests ?st = map (responses_at rs) (window t (length (requests ?st)))"
    "latencies ?st = map (latency_at rs) (window t (length (requests ?st)))" "\<forall>(s, e)\<in>set rs. 0 < s \<and> s \<le> t"
    using a(1) unfolding counts_def a(3) by blast+
  moreover have "0 < length (requests ?st)" "length (requests ?st) \<le> kSeconds" "0 < t"
    using a(2,3) assms(4,5) by (auto simp: stat_ok_def)
  ultimately show ?thesis using counted_back [OF _ _ _ _ a(3,4)] by blast
qed

lemma count_response:
  assumes p: "circular_push push" and c: "counts st rs" and ok: "stat_ok st" and t: "0 < t"
  shows "counted st rs t e (if lastSecond st = t then count_back st e
     else if lastSecond st + 1 = t \<or> lastSecond st = 0 then count_back (push_zero push (st\<lparr>lastSecond := t\<rparr>)) e
     else if t > lastSecond st then
       count_back (if t < lastSecond st + int kSeconds then advance push st t
          else push_zero push (st\<lparr>requests := [], latencies := [], lastSecond := t\<rparr>)) e
     else if t \<ge> lastSecond st - int (length (requests st)) + 1
     then count_at st (nat (t - (lastSecond st - int (length (requests st)) + 1))) e
     else Some st)"
proof -
  let ?l = "lastSecond st" and ?n = "length (requests st)"
  have w: "requests st = map (responses_at rs) (window ?l ?n)" "latencies st = map (latency_at rs) (window ?l ?n)"
    and rs: "\<forall>(s, e)\<in>set rs. 0 < s \<and> s \<le> ?l"
    using c unfolding counts_def by blast+
  have n: "?n \<le> kSeconds" "0 \<le> ?l" "?l = 0 \<longleftrightarrow> ?n = 0" using ok by (auto simp: stat_ok_def)
  have lt: "\<forall>(s, e)\<in>set rs. 0 < s \<and> s < t" if "?l < t" using rs that by auto
  consider (same) "?l = t" | (push) "?l + 1 = t" "?l \<noteq> 0" | (first) "?l = 0"
    | (ahead) "?l < t" "?l + 1 \<noteq> t" "?l \<noteq> 0" "t < ?l + int kSeconds" | (far) "?l < t" "?l + 1 \<noteq> t" "?l \<noteq> 0" "\<not> t < ?l + int kSeconds"
    | (behind) "t < ?l" "?l \<noteq> 0" "t \<ge> ?l - int ?n + 1" | (old) "t < ?l" "?l \<noteq> 0" "\<not> t \<ge> ?l - int ?n + 1"
    using t by linarith
  then show ?thesis
  proof cases
    case same
    have "0 < ?n" using same t n(3) by auto
    then show ?thesis using counted_back [of st rs t ?n st e] same w rs n(1) t by (simp add: same_totals_def)
  next
    case push
    then have "?l = t - 1" by simp
    with push show ?thesis
      using counted_push [OF p, of "st\<lparr>lastSecond := t\<rparr>" rs t ?n st e] w n(1) lt t by (simp add: same_totals_def)
  next
    case first
    then have "requests st = []" "latencies st = []" using n(3) w(2) by (auto simp: window_def)
    with first t show ?thesis
      using counted_push [OF p, of "st\<lparr>lastSecond := t\<rparr>" rs t 0 st e] lt by (simp add: same_totals_def window_def)
  next
    case ahead
    then show ?thesis using counted_advance [OF p c ok, of t e] n(2) by simp
  next
    case far
    then show ?thesis
      using counted_push [OF p, of "st\<lparr>requests := [], latencies := [], lastSecond := t\<rparr>" rs t 0 st e] lt t
      by (simp add: same_totals_def window_def)
  next
    case behind
    then show ?thesis using counted_inside [OF c ok t, of e] by simp
  next
    case old
    then show ?thesis using counted_old [OF c ok t, of e] by simp
  qed
qed

section \<open>Sequences of calls\<close>

text \<open>The states that calls lead to, each with the log of the responses counted since the last reset.\<close>

inductive stat_run :: "push_back \<Rightarrow> stat \<Rightarrow> (int \<times> int) list \<Rightarrow> bool" for push where
  run_new: "stat_run push SudokuStat_new []"
| run_request: "stat_run push st rs \<Longrightarrow> stat_run push (recordRequest st) rs"
| run_bad: "stat_run push st rs \<Longrightarrow> stat_run push (recordBadRequest st) rs"
| run_dropped: "stat_run push st rs \<Longrightarrow> stat_run push (recordDroppedRequest st) rs"
| run_reset: "stat_run push st rs \<Longrightarrow> stat_run push (snd (stat_reset st)) []"
| run_response: "stat_run push st rs \<Longrightarrow> recordResponse push st now receive solved = Some st' \<Longrightarrow> 0 < secondsSinceEpoch now \<Longrightarrow>
    elapsed = microSecondsSinceEpoch now - microSecondsSinceEpoch receive \<Longrightarrow>
    stat_run push st' (if elapsed < 0 then rs else rs @ [(secondsSinceEpoch now, elapsed)])"

definition totals_ok :: "stat \<Rightarrow> (int \<times> int) list \<Rightarrow> bool" where
  "totals_ok st rs \<longleftrightarrow> totalLatency st = sum_list (map snd rs) \<and> totalResponses st = int (length rs) + badLatency st \<and>
     0 \<le> badLatency st \<and> 0 \<le> totalSolved st \<and> totalSolved st \<le> totalResponses st"

lemma recordResponse_ok:
  fixes receive
  assumes p: "circular_push push" and c: "counts st rs" "stat_ok st" "totals_ok st rs" and t: "0 < secondsSinceEpoch now"
  defines "elapsed \<equiv> microSecondsSinceEpoch now - microSecondsSinceEpoch receive"
  shows "\<exists>st'. recordResponse push st now receive solved = Some st' \<and> stat_ok st' \<and>
    (let rs' = (if elapsed < 0 then rs else rs @ [(secondsSinceEpoch now, elapsed)]) in counts st' rs' \<and> totals_ok st' rs')"
proof -
  let ?st = "st\<lparr>totalResponses := totalResponses st + 1, totalSolved := totalSolved st + (if solved then 1 else 0)\<rparr>"
  have st: "(if solved then st\<lparr>totalResponses := totalResponses st + 1, totalSolved := totalSolved st + 1\<rparr>
      else st\<lparr>totalResponses := totalResponses st + 1\<rparr>) = ?st" by simp
  have len: "length (requests st) = length (latencies st)" using c(2) by (simp add: stat_ok_def)
  show ?thesis
  proof (cases "elapsed < 0")
    case True
    then have "recordResponse push st now receive solved = Some (?st\<lparr>badLatency := badLatency st + 1\<rparr>)"
      using len by (simp add: recordResponse_def elapsed_def Let_def)
    with True c show ?thesis by (simp add: counts_def stat_ok_def totals_ok_def)
  next
    case False
    let ?s1 = "?st\<lparr>totalLatency := totalLatency st + elapsed\<rparr>"
    have s1: "counts ?s1 rs" "stat_ok ?s1" using c by (simp_all add: counts_def stat_ok_def)
    obtain r where r: "counted ?s1 rs (secondsSinceEpoch now) elapsed r" and
      eq: "recordResponse push st now receive solved = do { st \<leftarrow> r; ensure (length (requests st) = length (latencies st)); Some st }"
    proof (rule that [OF count_response [OF p s1 t, of elapsed]])
      show "recordResponse push st now receive solved = do {
          st \<leftarrow> (if lastSecond ?s1 = secondsSinceEpoch now then count_back ?s1 elapsed
            else if lastSecond ?s1 + 1 = secondsSinceEpoch now \<or> lastSecond ?s1 = 0
            then count_back (push_zero push (?s1\<lparr>lastSecond := secondsSinceEpoch now\<rparr>)) elapsed
            else if secondsSinceEpoch now > lastSecond ?s1 then
              count_back (if secondsSinceEpoch now < lastSecond ?s1 + int kSeconds then advance push ?s1 (secondsSinceEpoch now)
                else push_zero push (?s1\<lparr>requests := [], latencies := [], lastSecond := secondsSinceEpoch now\<rparr>)) elapsed
            else if secondsSinceEpoch now \<ge> lastSecond ?s1 - int (length (requests ?s1)) + 1
            then count_at ?s1 (nat (secondsSinceEpoch now - (lastSecond ?s1 - int (length (requests ?s1)) + 1))) elapsed
            else Some ?s1);
          ensure (length (requests st) = length (latencies st)); Some st }"
        using False len by (cases solved) (simp_all add: recordResponse_def elapsed_def Let_def)
    qed
    from r obtain st' where "r = Some st'" "counts st' (rs @ [(secondsSinceEpoch now, elapsed)])" "stat_ok st'" "same_totals ?s1 st'"
      by (auto simp: counted_def)
    with False c(3) show ?thesis by (auto simp: eq totals_ok_def same_totals_def stat_ok_def)
  qed
qed

lemma counts_counters [simp]:
  "counts (recordRequest st) rs = counts st rs" "counts (recordBadRequest st) rs = counts st rs"
  "counts (recordDroppedRequest st) rs = counts st rs"
  by (simp_all add: counts_def recordRequest_def recordBadRequest_def recordDroppedRequest_def)

lemma counts_empty: "requests st = [] \<Longrightarrow> latencies st = [] \<Longrightarrow> counts st []"
  by (simp add: counts_def window_def)

lemma stat_run_counts:
  assumes p: "circular_push push"
  shows "stat_run push st rs \<Longrightarrow> counts st rs \<and> stat_ok st \<and> totals_ok st rs"
proof (induction rule: stat_run.induct)
  case (run_response st rs now receive solved st' elapsed)
  then show ?case using recordResponse_ok [OF p, of st rs now receive solved] by (simp add: Let_def split: if_splits)
qed (simp_all add: counts_empty stat_ok_def totals_ok_def SudokuStat_new_def stat_reset_def,
    simp_all add: recordRequest_def recordBadRequest_def recordDroppedRequest_def)

text \<open>
  C38: the members of the statistics keep their shape. Whatever calls have been made, the two buffers have the
  same length, at most \<open>kSeconds\<close>; they are empty exactly while no second has been recorded; and no assertion of
  the next \<open>recordResponse\<close> fails, whether its clock runs on, stands still, jumps ahead or jumps back.
\<close>

theorem stat_shape:
  assumes "circular_push push" "stat_run push st rs" "0 < secondsSinceEpoch now"
  shows "length (requests st) = length (latencies st) \<and> length (requests st) \<le> 60 \<and>
    (requests st = [] \<longleftrightarrow> lastSecond st = 0) \<and> recordResponse push st now receive solved \<noteq> None"
proof -
  have c: "counts st rs" "stat_ok st" "totals_ok st rs" using stat_run_counts [OF assms(1,2)] by auto
  then have "recordResponse push st now receive solved \<noteq> None"
    using recordResponse_ok [OF assms(1) _ _ _ assms(3), of st rs receive solved] by blast
  with c(2) show ?thesis by (simp add: stat_ok_def kSeconds_def)
qed

text \<open>A concrete \<open>push_back\<close>, and a run whose clock jumps ahead by two seconds and then back by one.\<close>

definition sample_push :: push_back where
  "sample_push xs x = (if length xs < kSeconds then xs @ [x] else tl xs @ [x])"

lemma sample_push_circular: "circular_push sample_push"
  by (simp add: circular_push_def sample_push_def)

definition sample_stat :: stat where
  "sample_stat = SudokuStat_new\<lparr>lastSecond := 12, requests := [1, 1, 1], latencies := [500000, 250000, 1000000],
     totalResponses := 3, totalSolved := 2, totalLatency := 1750000\<rparr>"

lemma sample_stat_run:
  "stat_run sample_push sample_stat [(10, 500000), (12, 1000000), (11, 250000)]"
proof -
  note defs = recordResponse_def secondsSinceEpoch_def SudokuStat_new_def kMicroSecondsPerSecond_def c_div_def
    count_back_def count_at_def push_zero_def sample_push_def kSeconds_def sample_stat_def advance.simps Let_def
  let ?t = Timestamp and ?s0 = SudokuStat_new
  let ?s1 = "?s0\<lparr>lastSecond := 10, requests := [1], latencies := [500000], totalResponses := 1, totalSolved := 1, totalLatency := 500000\<rparr>"
  let ?s2 = "?s1\<lparr>lastSecond := 12, requests := [1, 0, 1], latencies := [500000, 0, 1000000], totalResponses := 2, totalLatency := 1500000\<rparr>"
  have "recordResponse sample_push ?s0 (?t 10500000) (?t 10000000) True = Some ?s1" by (simp add: defs)
  from run_response [OF run_new this] have 1: "stat_run sample_push ?s1 [(10, 500000)]" by (simp add: defs)
  have "recordResponse sample_push ?s1 (?t 12000000) (?t 11000000) False = Some ?s2" by (simp add: defs)
  from run_response [OF 1 this] have 2: "stat_run sample_push ?s2 [(10, 500000), (12, 1000000)]" by (simp add: defs)
  have "recordResponse sample_push ?s2 (?t 11250000) (?t 11000000) True = Some sample_stat" by (simp add: defs)
  from run_response [OF 2 this] show ?thesis by (simp add: defs)
qed

theorem stat_shape_witness:
  "length (requests sample_stat) = 3 \<and> recordResponse sample_push sample_stat (Timestamp 99000000) (Timestamp 0) True \<noteq> None"
  using stat_shape [OF sample_push_circular sample_stat_run, of "Timestamp 99000000" "Timestamp 0" True]
  by (simp add: secondsSinceEpoch_def kMicroSecondsPerSecond_def c_div_def sample_stat_def)

text \<open>
  C37: the numbers per second are right. Entry \<open>i\<close> of the two buffers belongs to the second
  \<open>lastSecond_ - size + 1 + i\<close>: it is the number of responses that were recorded for this second since the last
  reset, and the sum of their latencies, also after jumps of the clock. The totals are those of all responses,
  the ones with a negative latency being counted in \<open>badLatency_\<close>.
\<close>

theorem stat_numbers:
  assumes "circular_push push" "stat_run push st rs" "i < length (requests st)"
  shows "requests st ! i = responses_at rs (lastSecond st - int (length (requests st)) + 1 + int i) \<and>
    latencies st ! i = latency_at rs (lastSecond st - int (length (requests st)) + 1 + int i) \<and>
    totalLatency st = sum_list (map snd rs) \<and> totalResponses st = int (length rs) + badLatency st"
proof -
  have c: "counts st rs" "totals_ok st rs" using stat_run_counts [OF assms(1,2)] by auto
  have "requests st = map (responses_at rs) (window (lastSecond st) (length (requests st)))"
    "latencies st = map (latency_at rs) (window (lastSecond st) (length (requests st)))"
    using c(1) unfolding counts_def by blast+
  from this [THEN arg_cong, of "\<lambda>xs. xs ! i"] show ?thesis using c(2) assms(3) by (simp add: window_nth totals_ok_def)
qed

theorem stat_numbers_witness:
  "requests sample_stat ! 1 = 1 \<and> latencies sample_stat ! 1 = 250000 \<and> totalLatency sample_stat = 1750000"
  using stat_numbers [OF sample_push_circular sample_stat_run, of 1]
  by (simp add: sample_stat_def responses_at_def latency_at_def)

section \<open>Nearest ranks\<close>

text \<open>The index of \<open>getPercentile\<close> is the nearest rank: at least \<open>percent\<close> of the sorted values are not above the result.\<close>

lemma getPercentile_rank:
  assumes "lats \<noteq> []" "0 < percent" "percent \<le> 100"
  shows "\<exists>idx<length lats. getPercentile lats percent = Some (lats ! idx) \<and>
    int (length lats) * percent \<le> 100 * int (idx + 1) \<and> 100 * int idx < int (length lats) * percent"
proof -
  obtain k where k: "percent = int k" "0 < k" "k \<le> 100" using assms(2,3) by (metis nat_0_le nat_le_iff zero_less_imp_eq_int of_nat_0_less_iff of_nat_le_iff of_nat_numeral)
  let ?n = "length lats" and ?q = "(length lats * k + 99) div 100"
  have n: "0 < ?n" using assms(1) by simp
  have p: "0 < ?n * k" using n k by simp
  have q: "?n * k \<le> 100 * ?q" "100 * ?q \<le> ?n * k + 99" by linarith+
  have "?n * k \<le> ?n * 100" using k(3) by simp
  then have "0 < ?q" "?q \<le> ?n" using p q by linarith+
  then obtain r where r: "?q = Suc r" "r < ?n" by (metis Suc_le_lessD gr0_conv_Suc)
  have "?n * k \<le> 100 * (r + 1)" "100 * r < ?n * k" using q unfolding r(1) by simp_all
  then have "int (?n * k) \<le> int (100 * (r + 1))" "int (100 * r) < int (?n * k)"
    by (simp_all only: of_nat_le_iff of_nat_less_iff)
  then have "int ?n * percent \<le> 100 * int (r + 1)" "100 * int r < int ?n * percent" by (simp_all add: k(1))
  moreover have "getPercentile lats percent = Some (lats ! r)"
    using k n r by (simp add: getPercentile_def Let_def)
  ultimately show ?thesis using r(2) by blast
qed

lemma Percentile_total: "\<exists>items lats'. Percentile_new lats infly = Some (items, lats') \<and> lats' = sort lats"
proof (cases "lats = []")
  case False
  then have "sort lats \<noteq> []" by (metis length_0_conv length_sort)
  then have "\<exists>v. getPercentile (sort lats) k = Some v" if "0 < k" "k \<le> 100" for k
    using getPercentile_rank that by blast
  from this [of 50] this [of 90] this [of 99] False show ?thesis by (auto simp: Percentile_new_def Let_def)
qed (simp add: Percentile_new_def Let_def)

lemma c_div_5: "l < c_div l 5 * 5 + 5"
proof (cases "0 \<le> l")
  case True
  then show ?thesis by simp
next
  case False
  then show ?thesis by (simp add: c_div_neg)
qed

text \<open>The assertions of \<open>save\<close> hold for every list of latencies, sorted or not, and its rows count all of them.\<close>

lemma save_loop_total:
  "\<exists>rows low' c' s'. save_loop low count acc ls = Some (rows, low', c', s') \<and> s' + c' = acc + count + int (length ls) \<and>
     s' = acc + sum_list (map (\<lambda>(low, c, s). c) rows)"
proof (induction ls arbitrary: low count acc)
  case (Cons l ls)
  show ?case
  proof (cases "l < low + 5")
    case True
    then show ?thesis using Cons.IH [of low "count + 1" acc] by auto
  next
    case False
    obtain rows low' c' s' where "save_loop (c_div l 5 * 5) 1 (acc + count) ls = Some (rows, low', c', s')"
        "s' + c' = acc + count + 1 + int (length ls)" "s' = acc + count + sum_list (map (\<lambda>(low, c, s). c) rows)"
      using Cons.IH [of "c_div l 5 * 5" 1 "acc + count"] by auto
    with False c_div_5 [of l] show ?thesis by (simp add: Let_def)
  qed
qed simp

lemma Percentile_save_counts:
  "\<exists>rows. Percentile_save lats = Some rows \<and> sum_list (map (\<lambda>(low, c, s). c) rows) = int (length lats)"
proof (cases lats)
  case Nil
  then show ?thesis by (simp add: Percentile_save_def)
next
  case (Cons l ls)
  obtain rows low c s where "save_loop (c_div l 5 * 5) 0 0 lats = Some (rows, low, c, s)" "s + c = int (length lats)"
      "s = sum_list (map (\<lambda>(low, c, s). c) rows)"
    using save_loop_total [of "c_div l 5 * 5" 0 0 lats] by auto
  with Cons show ?thesis by (auto simp: Percentile_save_def)
qed

end
