(* ===== verification/SudokuServer.thy ===== *)
theory SudokuServer
  imports SudokuCorrect SudokuStat Framing "HOL-Library.Multiset"
begin

text \<open>
  The sudoku servers of \<open>src/excercises/sudoku\<close>: \<open>server_basic.cc\<close> (whose handlers \<open>server_multiloop.cc\<close>
  repeats), \<open>server_threadpool.cc\<close>, \<open>server_hybrid.cc\<close> and \<open>server_prod.cc\<close>. They read the same lines and
  differ in \<open>processRequest\<close>: the first solves the puzzle in the handler, the others hand it to
  \<open>ThreadPool\<close>, whose implementation is not among the sources. What is passed to its \<open>run\<close> is therefore a
  list of jobs, any of which the environment may execute at any time; the value of \<open>queueSize\<close> is an argument, any
  function of the state. A connection
  is what the handlers see of it: \<open>send\<close> appends to \<open>sent\<close> unless \<open>shutdown\<close> has been called.

  The lemmas of the locale \<open>request_pool\<close>, interpreted for the three servers with a pool, say that every
  request is answered exactly once, in whatever pieces it came and in whatever order the jobs run.
\<close>

section \<open>Connections and requests\<close>

record Request =
  req_id :: string
  puzzle :: string
  receiveTime :: Timestamp

record sudoku_conn =
  sent :: "string list"
  closing :: bool
  noDelay :: bool
  throttle :: bool
  highWaterMark :: nat
  writeCompleteSet :: bool

record sudoku_server =
  conns :: "nat \<Rightarrow> sudoku_conn"
  jobs :: "(nat \<times> Request) list"
  statistics :: stat

definition conn_send :: "string \<Rightarrow> sudoku_conn \<Rightarrow> sudoku_conn" where
  "conn_send msg c = (if closing c then c else c\<lparr>sent := sent c @ [msg]\<rparr>)"

definition conn_shutdown :: "sudoku_conn \<Rightarrow> sudoku_conn" where
  "conn_shutdown c = c\<lparr>closing := True\<rparr>"

definition on_conn :: "nat \<Rightarrow> (sudoku_conn \<Rightarrow> sudoku_conn) \<Rightarrow> sudoku_server \<Rightarrow> sudoku_server" where
  "on_conn k f s = s\<lparr>conns := (conns s)(k := f (conns s k))\<rparr>"

definition on_stat :: "(stat \<Rightarrow> stat) \<Rightarrow> sudoku_server \<Rightarrow> sudoku_server" where
  "on_stat f s = s\<lparr>statistics := f (statistics s)\<rparr>"

definition pool_run :: "nat \<Rightarrow> Request \<Rightarrow> sudoku_server \<Rightarrow> sudoku_server" where
  "pool_run k req s = s\<lparr>jobs := jobs s @ [(k, req)]\<rparr>"

text \<open>The search for the colon; \<open>None\<close> if there is none.\<close>

definition split_request :: "string \<Rightarrow> (string \<times> string) option" where
  "split_request request = (case find_char (CHR '':'') request of
     Some colon \<Rightarrow> Some (take colon request, drop (colon + 1) request) | None \<Rightarrow> None)"

text \<open>The text of a reply.\<close>

definition reply_text :: "string \<Rightarrow> string \<Rightarrow> string" where
  "reply_text i result = (if i = [] then result @ kCRLF else i @ '':'' @ result @ kCRLF)"

section \<open>The loop of onMessage\<close>

text \<open>\<open>process\<close> is the call of \<open>processRequest\<close>, \<open>refuse\<close> what is done before the two \<open>break\<close>s.\<close>

partial_function (option) request_loop :: "(string \<Rightarrow> 's \<Rightarrow> (bool \<times> 's) option) \<Rightarrow> (string \<Rightarrow> 's \<Rightarrow> 's) \<Rightarrow> buffer \<Rightarrow> 's
    \<Rightarrow> ('s \<times> buffer) option" where
  "request_loop process refuse buf s =
     (if readableBytes buf \<ge> kCells + 2 then
        (case findCRLF buf of
           Some crlf \<Rightarrow> do {
             let request = slice buf (peek buf) crlf;
             buf \<leftarrow> retrieveUntil buf (crlf + 2);
             (good, s) \<leftarrow> process request s;
             if good then request_loop process refuse buf s
             else Some (refuse (''Bad Request!'' @ kCRLF) s, buf)
           }
         | None \<Rightarrow>
             if readableBytes buf > 100 then Some (refuse (''Id too long!'' @ kCRLF) s, buf)
             else Some (s, buf))
      else Some (s, buf))"

section \<open>The basic server\<close>

definition basic_processRequest :: "solver \<Rightarrow> string \<Rightarrow> sudoku_conn \<Rightarrow> (bool \<times> sudoku_conn) option" where
  "basic_processRequest mem request c = do {
     let (i, puzzle) = (case split_request request of Some p \<Rightarrow> p | None \<Rightarrow> ([], request));
     if length puzzle = kCells then do {
       result \<leftarrow> solveSudoku mem puzzle;
       Some (True, conn_send (reply_text i result) c)
     }
     else Some (False, c)
   }"

definition basic_onMessage :: "solver \<Rightarrow> buffer \<Rightarrow> sudoku_conn \<Rightarrow> (sudoku_conn \<times> buffer) option" where
  "basic_onMessage mem = request_loop (basic_processRequest mem) (\<lambda>msg c. conn_shutdown (conn_send msg c))"

section \<open>The server with a thread pool\<close>

text \<open>The receive time is not part of what \<open>server_threadpool.cc\<close> binds; its jobs carry the invalid one.\<close>

definition threadpool_processRequest :: "nat \<Rightarrow> string \<Rightarrow> sudoku_server \<Rightarrow> (bool \<times> sudoku_server) option" where
  "threadpool_processRequest k request s =
     (let (i, p) = (case split_request request of Some p \<Rightarrow> p | None \<Rightarrow> ([], request))
      in if length p = kCells then Some (True, pool_run k \<lparr>req_id = i, puzzle = p, receiveTime = Timestamp 0\<rparr> s)
         else Some (False, s))"

definition threadpool_onMessage :: "nat \<Rightarrow> buffer \<Rightarrow> sudoku_server \<Rightarrow> (sudoku_server \<times> buffer) option" where
  "threadpool_onMessage k = request_loop (threadpool_processRequest k)
     (\<lambda>msg. on_conn k (\<lambda>c. conn_shutdown (conn_send msg c)))"

definition threadpool_solve :: "solver \<Rightarrow> nat \<times> Request \<Rightarrow> sudoku_server \<Rightarrow> sudoku_server option" where
  "threadpool_solve mem job s = do {
     let (k, req) = job;
     result \<leftarrow> solveSudoku mem (puzzle req);
     Some (on_conn k (conn_send (reply_text (req_id req) result)) s)
   }"

section \<open>The hybrid server\<close>

definition hybrid_onConnection :: "bool \<Rightarrow> nat \<Rightarrow> bool \<Rightarrow> sudoku_server \<Rightarrow> sudoku_server" where
  "hybrid_onConnection tcpNoDelay k up s =
     (if up \<and> tcpNoDelay then on_conn k (\<lambda>c. c\<lparr>noDelay := True\<rparr>) s else s)"

definition hybrid_processRequest :: "int \<Rightarrow> nat \<Rightarrow> Timestamp \<Rightarrow> string \<Rightarrow> sudoku_server \<Rightarrow> (bool \<times> sudoku_server) option" where
  "hybrid_processRequest numThreads k time request s =
     (case (case split_request request of
              Some p \<Rightarrow> Some p
            | None \<Rightarrow> if numThreads > 1 then None else Some ([], request)) of
        None \<Rightarrow> Some (False, s)
      | Some (i, p) \<Rightarrow>
          if length p = kCells then Some (True, pool_run k \<lparr>req_id = i, puzzle = p, receiveTime = time\<rparr> s)
          else Some (False, s))"

text \<open>\<open>recordRequest\<close> comes before the call of \<open>processRequest\<close>, \<open>recordBadRequest\<close> after the \<open>shutdown\<close>.\<close>

definition hybrid_onMessage :: "int \<Rightarrow> nat \<Rightarrow> Timestamp \<Rightarrow> buffer \<Rightarrow> sudoku_server \<Rightarrow> (sudoku_server \<times> buffer) option" where
  "hybrid_onMessage numThreads k time = request_loop
     (\<lambda>request s. hybrid_processRequest numThreads k time request (on_stat recordRequest s))
     (\<lambda>msg s. on_stat recordBadRequest (on_conn k (\<lambda>c. conn_shutdown (conn_send msg c)) s))"

definition hybrid_solve :: "push_back \<Rightarrow> solver \<Rightarrow> Timestamp \<Rightarrow> nat \<times> Request \<Rightarrow> sudoku_server \<Rightarrow> sudoku_server option" where
  "hybrid_solve push mem now job s = do {
     let (k, req) = job;
     result \<leftarrow> solveSudoku mem (puzzle req);
     let s = on_conn k (conn_send (reply_text (req_id req) result)) s;
     st \<leftarrow> recordResponse push (statistics s) now (receiveTime req) (result \<noteq> kNoSolution);
     Some (s\<lparr>statistics := st\<rparr>)
   }"

section \<open>The production server\<close>

definition kHighWater :: nat where
  "kHighWater = 5 * 1024 * 1024"

definition prod_onConnection :: "bool \<Rightarrow> nat \<Rightarrow> bool \<Rightarrow> sudoku_server \<Rightarrow> sudoku_server" where
  "prod_onConnection tcpNoDelay k up s =
     (if up
      then on_conn k (\<lambda>c. (if tcpNoDelay then c\<lparr>noDelay := True\<rparr> else c)\<lparr>highWaterMark := kHighWater, throttle := False\<rparr>) s
      else s)"

definition prod_highWaterMark :: "nat \<Rightarrow> nat \<Rightarrow> sudoku_server \<Rightarrow> sudoku_server" where
  "prod_highWaterMark k tosend s =
     (if tosend < 10 * 1024 * 1024
      then on_conn k (\<lambda>c. c\<lparr>highWaterMark := 10 * 1024 * 1024, writeCompleteSet := True, throttle := True\<rparr>) s
      else on_stat recordBadRequest (on_conn k (\<lambda>c. conn_shutdown (conn_send (''Bad Request!'' @ kCRLF) c)) s))"

definition prod_writeComplete :: "nat \<Rightarrow> sudoku_server \<Rightarrow> sudoku_server" where
  "prod_writeComplete k s =
     on_conn k (\<lambda>c. c\<lparr>highWaterMark := kHighWater, writeCompleteSet := False, throttle := False\<rparr>) s"

definition prod_processRequest :: "int \<Rightarrow> (sudoku_server \<Rightarrow> nat) \<Rightarrow> nat \<Rightarrow> Timestamp \<Rightarrow> string \<Rightarrow> sudoku_server \<Rightarrow> (bool \<times> sudoku_server) option" where
  "prod_processRequest numThreads queueSize k time request s =
     (case (case split_request request of
              Some p \<Rightarrow> Some p
            | None \<Rightarrow> if numThreads > 1 then None else Some ([], request)) of
        None \<Rightarrow> Some (False, s)
      | Some (i, p) \<Rightarrow>
          if length p = kCells then
            (if queueSize s < 1000 * 1000 \<and> \<not> throttle (conns s k)
             then Some (True, pool_run k \<lparr>req_id = i, puzzle = p, receiveTime = time\<rparr> s)
             else Some (True, on_stat recordDroppedRequest (on_conn k (conn_send (reply_text i ''ServerTooBusy'')) s)))
          else Some (False, s))"

definition prod_onMessage :: "int \<Rightarrow> (sudoku_server \<Rightarrow> nat) \<Rightarrow> nat \<Rightarrow> Timestamp \<Rightarrow> buffer \<Rightarrow> sudoku_server \<Rightarrow> (sudoku_server \<times> buffer) option" where
  "prod_onMessage numThreads queueSize k time = request_loop
     (\<lambda>request s. prod_processRequest numThreads queueSize k time request (on_stat recordRequest s))
     (\<lambda>msg s. on_stat recordBadRequest (on_conn k (\<lambda>c. conn_shutdown (conn_send msg c)) s))"

definition prod_solve :: "push_back \<Rightarrow> solver \<Rightarrow> Timestamp \<Rightarrow> nat \<times> Request \<Rightarrow> sudoku_server \<Rightarrow> sudoku_server option" where
  "prod_solve push mem now job s = do {
     let (k, req) = job;
     result \<leftarrow> solveSudoku mem (puzzle req);
     let s = on_conn k (conn_send (reply_text (req_id req) result)) s;
     st \<leftarrow> recordResponse push (statistics s) now (receiveTime req) (result \<noteq> kNoSolution);
     Some (s\<lparr>statistics := st\<rparr>)
   }"

section \<open>Lines in pieces\<close>

text \<open>A line as the client sends it, and what the loop does with complete lines.\<close>

definition wire :: "string \<Rightarrow> string" where
  "wire l = l @ kCRLF"

definition line_ok :: "string \<Rightarrow> bool" where
  "line_ok l \<longleftrightarrow> no_crlf l \<and> kCells \<le> length l \<and> length l < 100"

fun run_lines :: "(string \<Rightarrow> 's \<Rightarrow> (bool \<times> 's) option) \<Rightarrow> string list \<Rightarrow> 's \<Rightarrow> 's option" where
  "run_lines process [] s = Some s"
| "run_lines process (l # ls) s = do {
     (good, s) \<leftarrow> process l s;
     ensure good;
     run_lines process ls s
   }"

lemma length_wire [simp]: "length (wire l) = length l + 2"
  by (simp add: wire_def)

lemma request_loop_lines:
  "buf_inv b \<Longrightarrow> content b = concat (map wire ls) @ rest \<Longrightarrow> \<forall>l\<in>set ls. line_ok l \<Longrightarrow>
   search_first kCRLF rest = None \<Longrightarrow> length rest \<le> 100 \<Longrightarrow> run_lines process ls s = Some s' \<Longrightarrow>
   \<exists>b'. request_loop process refuse b s = Some (s', b') \<and> buf_inv b' \<and> content b' = rest"
proof (induction ls arbitrary: b s)
  case Nil
  then have "readableBytes b \<le> 100" "findCRLF b = None" using length_content [of b] by (simp_all add: findCRLF_def)
  with Nil show ?case by (subst request_loop.simps) simp
next
  case (Cons l ls)
  let ?more = "concat (map wire ls) @ rest"
  have c: "content b = l @ kCRLF @ ?more" and l: "no_crlf l" "kCells \<le> length l" using Cons.prems by (simp_all add: wire_def [of l] line_ok_def)
  have i: "search_first kCRLF (content b) = Some (length l)" unfolding c by (rule search_first_crlf [OF l(1)])
  note len = line_slice [OF Cons.prems(1) i]
  obtain s1 where s1: "process l s = Some (True, s1)" "run_lines process ls s1 = Some s'"
    using Cons.prems(6) by (auto simp: bind_eq_Some_conv)
  obtain b1 where b1: "retrieveUntil b (peek b + (length l + 2)) = Some b1" "buf_inv b1" "content b1 = drop (length l + 2) (content b)"
    using retrieveUntil_ok [OF Cons.prems(1) len(1)] by blast
  have "content b1 = ?more" using b1(3) c by simp
  then obtain b' where b': "request_loop process refuse b1 s1 = Some (s', b')" "buf_inv b'" "content b' = rest"
    using Cons.IH [OF b1(2) _ _ Cons.prems(4,5) s1(2)] Cons.prems(3) by auto
  have "slice b (peek b) (peek b + length l) = l" using len(2) c by simp
  moreover have "readableBytes b \<ge> kCells + 2" using len(1) l(2) by simp
  ultimately have "request_loop process refuse b s = Some (s', b')"
    using i b1(1) s1(1) b'(1) by (subst request_loop.simps) (simp add: findCRLF_def add.assoc)
  with b' show ?case by blast
qed

text \<open>The other branches of the loop. A line shorter than a puzzle gets no reply: it stays in the buffer until more bytes follow.\<close>

lemma request_loop_bad:
  assumes b: "buf_inv b" "content b = l @ kCRLF @ rest" "no_crlf l" "kCells + 2 \<le> readableBytes b" and bad: "process l s = Some (False, s')"
  shows "\<exists>b'. request_loop process refuse b s = Some (refuse (''Bad Request!'' @ kCRLF) s', b') \<and> buf_inv b' \<and> content b' = rest"
proof -
  have i: "search_first kCRLF (content b) = Some (length l)" unfolding b(2) by (rule search_first_crlf [OF b(3)])
  note len = line_slice [OF b(1) i]
  obtain b1 where "retrieveUntil b (peek b + (length l + 2)) = Some b1" "buf_inv b1" "content b1 = drop (length l + 2) (content b)"
    using retrieveUntil_ok [OF b(1) len(1)] by blast
  moreover have "slice b (peek b) (peek b + length l) = l" using len(2) b(2) by simp
  ultimately show ?thesis using i b(2,4) bad by (subst request_loop.simps) (simp add: findCRLF_def add.assoc)
qed

lemma request_loop_long:
  "search_first kCRLF (content b) = None \<Longrightarrow> 100 < readableBytes b \<Longrightarrow>
   request_loop process refuse b s = Some (refuse (''Id too long!'' @ kCRLF) s, b)"
  by (subst request_loop.simps) (simp add: findCRLF_def kCells_def)

lemma request_loop_short: "readableBytes b < kCells + 2 \<Longrightarrow> request_loop process refuse b s = Some (s, b)"
  by (subst request_loop.simps) simp

lemma wire_prefix:
  assumes "no_crlf l" "strict_prefix rest (wire l)"
  shows "search_first kCRLF rest = None"
proof (rule ccontr)
  assume "search_first kCRLF rest \<noteq> None"
  then obtain i where i: "search_first kCRLF rest = Some i" by auto
  obtain ys where "wire l = rest @ ys" using assms(2) by (auto simp: strict_prefix_def prefix_def)
  then have "search_first kCRLF (wire l) = Some i" using search_first_append [OF i] by simp
  moreover have "search_first kCRLF (wire l) = Some (length l)" using search_first_crlf [OF assms(1), of "[]"] by (simp add: wire_def)
  ultimately have "i = length l" by simp
  then show False using search_first_Some [OF i] prefix_length_less [OF assms(2)] by simp
qed

lemma stream_split:
  "prefix xs (concat (map wire ls)) \<Longrightarrow>
   \<exists>ls1 ls2 rest. ls = ls1 @ ls2 \<and> xs = concat (map wire ls1) @ rest \<and>
     (if ls2 = [] then rest = [] else strict_prefix rest (wire (hd ls2)))"
proof (induction ls arbitrary: xs)
  case (Cons l ls)
  show ?case
  proof (cases "prefix (wire l) xs")
    case True
    then obtain ys where ys: "xs = wire l @ ys" by (auto simp: prefix_def)
    then obtain ls1 ls2 rest where "ls = ls1 @ ls2" "ys = concat (map wire ls1) @ rest"
        "if ls2 = [] then rest = [] else strict_prefix rest (wire (hd ls2))"
      using Cons.IH [of ys] Cons.prems by auto
    with ys have "l # ls = (l # ls1) @ ls2 \<and> xs = concat (map wire (l # ls1)) @ rest \<and>
        (if ls2 = [] then rest = [] else strict_prefix rest (wire (hd ls2)))" by simp
    then show ?thesis by blast
  next
    case False
    have "prefix xs (wire l)" using Cons.prems False prefix_same_cases [of xs "wire l @ concat (map wire ls)" "wire l"] by auto
    with False have "strict_prefix xs (wire l)" by (metis prefix_order.less_le prefix_order.refl)
    then have "l # ls = [] @ (l # ls) \<and> xs = concat (map wire []) @ xs \<and>
        (if l # ls = [] then xs = [] else strict_prefix xs (wire (hd (l # ls))))" by simp
    then show ?thesis by blast
  qed
qed (simp add: exI [of _ "[]"])

text \<open>One more piece of a stream of lines: the loop takes the lines that are complete with it.\<close>

lemma piece_lines:
  assumes b: "buf_inv b" "content b @ p @ later = concat (map wire ls)" and ok: "\<forall>l\<in>set ls. line_ok l"
    and run: "\<forall>ls1 ls2. ls = ls1 @ ls2 \<longrightarrow> (\<exists>s'. run_lines process ls1 s = Some s')"
  shows "\<exists>ls1 ls2 b1 b2 s'. ls = ls1 @ ls2 \<and> append_buf b p = Some b1 \<and> request_loop process refuse b1 s = Some (s', b2) \<and>
    run_lines process ls1 s = Some s' \<and> buf_inv b2 \<and> content b2 @ later = concat (map wire ls2) \<and> search_first kCRLF (content b2) = None"
proof -
  obtain b1 where b1: "append_buf b p = Some b1" "buf_inv b1" "content b1 = content b @ p" using append_buf_ok [OF b(1)] by blast
  have "prefix (content b1) (concat (map wire ls))" using b(2) b1(3) by (simp add: prefix_def) metis
  then obtain ls1 ls2 rest where s: "ls = ls1 @ ls2" "content b1 = concat (map wire ls1) @ rest"
      "if ls2 = [] then rest = [] else strict_prefix rest (wire (hd ls2))"
    using stream_split by blast
  have "search_first kCRLF rest = None \<and> length rest \<le> 100"
  proof (cases ls2)
    case Nil
    with s(3) show ?thesis by (simp add: kCRLF_def)
  next
    case (Cons l ls3)
    with s ok have "line_ok l" "strict_prefix rest (wire l)" by auto
    with wire_prefix [of l rest] prefix_length_less [of rest "wire l"] show ?thesis by (simp add: line_ok_def)
  qed
  moreover obtain s' where s': "run_lines process ls1 s = Some s'" using run s(1) by blast
  ultimately obtain b2 where "request_loop process refuse b1 s = Some (s', b2)" "buf_inv b2" "content b2 = rest"
    using request_loop_lines [OF b1(2) s(2), of process s s' refuse] ok s(1) by auto
  moreover have "content b1 @ later = concat (map wire ls)" using b(2) b1(3) by simp
  then have "rest @ later = concat (map wire ls2)" using s(1,2) by simp
  ultimately show ?thesis using s(1) s' b1(1) \<open>search_first kCRLF rest = None \<and> length rest \<le> 100\<close> by blast
qed

lemma no_lines_left:
  assumes "search_first kCRLF (concat (map wire ls)) = None" "\<forall>l\<in>set ls. line_ok l"
  shows "ls = []"
proof (cases ls)
  case (Cons l ls')
  then have "no_crlf l" using assms(2) by (simp add: line_ok_def)
  from search_first_crlf [OF this, of "concat (map wire ls')"] assms(1) Cons show ?thesis by (simp add: wire_def)
qed

section \<open>Requests and answers\<close>

text \<open>A request as a client should send it, with an identifier or without, and the texts that answer it.\<close>

definition request_line :: "string \<times> string \<Rightarrow> string" where
  "request_line r = (case r of (i, p) \<Rightarrow> if i = [] then p else i @ '':'' @ p)"

definition request_ok :: "string \<times> string \<Rightarrow> bool" where
  "request_ok r \<longleftrightarrow> (case r of (i, p) \<Rightarrow> CHR '':'' \<notin> set i \<and> (i = [] \<longrightarrow> CHR '':'' \<notin> set p) \<and>
     length i \<le> 17 \<and> length p = kCells \<and> no_crlf (request_line r))"

definition solution :: "string \<Rightarrow> string \<Rightarrow> bool" where
  "solution p r \<longleftrightarrow> (if \<exists>g. completion p g then completion p r else r = kNoSolution)"

definition answers :: "bool \<Rightarrow> string \<times> string \<Rightarrow> string \<Rightarrow> bool" where
  "answers drops r reply \<longleftrightarrow> (\<exists>x. reply = reply_text (fst r) x \<and> (solution (snd r) x \<or> drops \<and> x = ''ServerTooBusy''))"

definition request_stream :: "(string \<times> string) list \<Rightarrow> string" where
  "request_stream rs = concat (map wire (map request_line rs))"

lemma request_line_ok: "request_ok r \<Longrightarrow> line_ok (request_line r)"
  by (auto simp: request_ok_def line_ok_def request_line_def kCells_def split: prod.splits if_splits)

lemma split_request_line:
  assumes "request_ok (i, p)"
  shows "split_request (request_line (i, p)) = (if i = [] then None else Some (i, p))"
proof (cases "i = []")
  case True
  then have "find_char (CHR '':'') p = None" using assms by (simp add: request_ok_def)
  with True show ?thesis by (simp add: split_request_def request_line_def del: find_char_None)
next
  case False
  have "find_char (CHR '':'') (i @ '':'' @ p) = Some (length i)"
    using assms find_char_append [of "CHR '':''" i p] by (simp add: request_ok_def)
  with False show ?thesis by (simp add: split_request_def request_line_def)
qed

lemma piece_requests:
  assumes b: "buf_inv b" "content b @ p @ later = request_stream rs" and ok: "\<forall>r\<in>set rs. request_ok r"
    and run: "\<forall>rs1 rs2. rs = rs1 @ rs2 \<longrightarrow> (\<exists>s'. run_lines process (map request_line rs1) s = Some s')"
  shows "\<exists>rs1 rs2 b1 b2 s'. rs = rs1 @ rs2 \<and> append_buf b p = Some b1 \<and> request_loop process refuse b1 s = Some (s', b2) \<and>
    run_lines process (map request_line rs1) s = Some s' \<and> buf_inv b2 \<and> content b2 @ later = request_stream rs2 \<and>
    search_first kCRLF (content b2) = None"
proof -
  have ok': "\<forall>l\<in>set (map request_line rs). line_ok l" using ok request_line_ok by auto
  have run': "\<forall>ls1 ls2. map request_line rs = ls1 @ ls2 \<longrightarrow> (\<exists>s'. run_lines process ls1 s = Some s')"
    using run by (auto simp: map_eq_append_conv)
  obtain ls1 ls2 b1 b2 s' where s: "map request_line rs = ls1 @ ls2" "append_buf b p = Some b1"
      "request_loop process refuse b1 s = Some (s', b2)" "run_lines process ls1 s = Some s'" "buf_inv b2"
      "content b2 @ later = concat (map wire ls2)" "search_first kCRLF (content b2) = None"
    using piece_lines [OF b(1) b(2) [unfolded request_stream_def] ok' run', of refuse] by (elim exE conjE) (rule that)
  obtain rs1 rs2 where "rs = rs1 @ rs2" "ls1 = map request_line rs1" "ls2 = map request_line rs2"
    using s(1) by (auto simp: map_eq_append_conv)
  with s(2-7) show ?thesis unfolding request_stream_def by blast
qed

lemma no_requests_left:
  assumes "search_first kCRLF (request_stream rs) = None" "\<forall>r\<in>set rs. request_ok r"
  shows "rs = []"
  using no_lines_left [of "map request_line rs"] assms request_line_ok unfolding request_stream_def by auto

lemma solveSudoku_solution: "length p = kCells \<Longrightarrow> \<exists>r. solveSudoku mem p = Some r \<and> solution p r"
  using solve_result [of p mem] by (simp add: kCells_def solution_def)

section \<open>The basic server answers in order\<close>

fun basic_session :: "buffer \<Rightarrow> sudoku_conn \<Rightarrow> (solver \<times> bytes) list \<Rightarrow> (sudoku_conn \<times> buffer) option" where
  "basic_session b c [] = Some (c, b)"
| "basic_session b c ((mem, p) # ps) = do {
     b \<leftarrow> append_buf b p;
     (c, b) \<leftarrow> basic_onMessage mem b c;
     basic_session b c ps
   }"

lemma basic_request:
  assumes "request_ok r" "\<not> closing c"
  shows "\<exists>reply. basic_processRequest mem (request_line r) c = Some (True, c\<lparr>sent := sent c @ [reply]\<rparr>) \<and> answers False r reply"
proof -
  obtain i p where r: "r = (i, p)" by fastforce
  with assms have p: "length p = kCells" by (simp add: request_ok_def)
  obtain x where x: "solveSudoku mem p = Some x" "solution p x" using solveSudoku_solution [OF p] by blast
  have "basic_processRequest mem (request_line r) c = Some (True, c\<lparr>sent := sent c @ [reply_text i x]\<rparr>)"
    using split_request_line [of i p] assms r p x(1)
    by (simp add: basic_processRequest_def conn_send_def) (auto simp: request_line_def)
  moreover have "answers False r (reply_text i x)" using x(2) r by (auto simp: answers_def)
  ultimately show ?thesis by blast
qed

lemma basic_lines:
  "\<forall>r\<in>set rs. request_ok r \<Longrightarrow> \<not> closing c \<Longrightarrow>
   \<exists>texts. run_lines (basic_processRequest mem) (map request_line rs) c = Some (c\<lparr>sent := sent c @ texts\<rparr>) \<and>
     list_all2 (answers False) rs texts"
proof (induction rs arbitrary: c)
  case (Cons r rs)
  obtain reply where t: "basic_processRequest mem (request_line r) c = Some (True, c\<lparr>sent := sent c @ [reply]\<rparr>)" "answers False r reply"
    using basic_request [of r c mem] Cons.prems by auto
  obtain texts where "run_lines (basic_processRequest mem) (map request_line rs) (c\<lparr>sent := sent c @ [reply]\<rparr>) =
      Some (c\<lparr>sent := sent c @ [reply] @ texts\<rparr>)" "list_all2 (answers False) rs texts"
    using Cons.IH [of "c\<lparr>sent := sent c @ [reply]\<rparr>"] Cons.prems by auto
  with t show ?case by (intro exI [of _ "reply # texts"]) simp
qed simp

lemma basic_session_answers:
  "buf_inv b \<Longrightarrow> search_first kCRLF (content b) = None \<Longrightarrow> content b @ concat (map snd ps) = request_stream rs \<Longrightarrow>
   \<forall>r\<in>set rs. request_ok r \<Longrightarrow> \<not> closing c \<Longrightarrow>
   \<exists>texts b'. basic_session b c ps = Some (c\<lparr>sent := sent c @ texts\<rparr>, b') \<and> content b' = [] \<and> list_all2 (answers False) rs texts"
proof (induction ps arbitrary: b c rs)
  case Nil
  then have "rs = []" by (intro no_requests_left) simp_all
  with Nil show ?case by (simp add: request_stream_def)
next
  case (Cons a ps)
  obtain mem p where a: "a = (mem, p)" by fastforce
  let ?f = "basic_processRequest mem"
  have stream: "content b @ p @ concat (map snd ps) = request_stream rs" using Cons.prems(3) a by simp
  have run: "\<forall>rs1 rs2. rs = rs1 @ rs2 \<longrightarrow> (\<exists>c'. run_lines ?f (map request_line rs1) c = Some c')"
    using basic_lines [of _ c mem] Cons.prems(4,5) by fastforce
  obtain rs1 rs2 b1 b2 c' where s: "rs = rs1 @ rs2" "append_buf b p = Some b1" "basic_onMessage mem b1 c = Some (c', b2)"
      "run_lines ?f (map request_line rs1) c = Some c'" "buf_inv b2" "content b2 @ concat (map snd ps) = request_stream rs2"
      "search_first kCRLF (content b2) = None"
    using piece_requests [OF Cons.prems(1) stream Cons.prems(4) run, of "\<lambda>msg c. conn_shutdown (conn_send msg c)",
        folded basic_onMessage_def] by (elim exE conjE) (rule that)
  obtain t1 where t1: "c' = c\<lparr>sent := sent c @ t1\<rparr>" "list_all2 (answers False) rs1 t1"
    using basic_lines [of rs1 c mem] Cons.prems(4,5) s(1,4) by auto
  obtain t2 b' where t2: "basic_session b2 c' ps = Some (c'\<lparr>sent := sent c' @ t2\<rparr>, b')" "content b' = []" "list_all2 (answers False) rs2 t2"
    using Cons.IH [of b2 rs2 c'] s(1,5-7) Cons.prems(4,5) t1(1) by auto
  have "basic_session b c (a # ps) = Some (c\<lparr>sent := sent c @ t1 @ t2\<rparr>, b')" using a s(2,3) t2(1) t1(1) by simp
  moreover have "list_all2 (answers False) rs (t1 @ t2)" using s(1) t1(2) t2(3) by (simp add: list_all2_appendI)
  ultimately show ?case using t2(2) by blast
qed

text \<open>
  C39: the basic server answers every request in order. If a client sends well-formed requests, cut into pieces in
  any way, then no assertion fails, the connection stays open, nothing is left in the buffer, and one reply per
  request has been sent, in the order of the requests: the identifier followed by a completion of the puzzle, or
  by \<open>NoSolution\<close> if the puzzle has none.
\<close>

theorem basic_server_answers:
  assumes "\<forall>r\<in>set rs. request_ok r" "concat (map snd pieces) = request_stream rs" "\<not> closing c"
  shows "\<exists>texts b'. basic_session Buffer_new c pieces = Some (c\<lparr>sent := sent c @ texts\<rparr>, b') \<and> content b' = [] \<and>
    list_all2 (answers False) rs texts"
  using basic_session_answers [of Buffer_new pieces rs c] assms by (simp add: kCRLF_def)

lemma no_cr: "CHR 0x0D \<notin> set s \<Longrightarrow> no_crlf s"
proof (induction s)
  case (Cons c s)
  then have "\<not> prefix kCRLF (c # s)" by (auto simp: kCRLF_def)
  with Cons show ?case by (simp add: no_crlf_def)
qed (simp add: no_crlf_def kCRLF_def)

text \<open>The puzzle with no clues, with an identifier.\<close>

definition sample_request :: "string \<times> string" where
  "sample_request = (''a1'', replicate 81 (CHR ''0''))"

lemma sample_request_ok: "request_ok sample_request"
  by (auto simp: request_ok_def sample_request_def request_line_def kCells_def intro!: no_cr)

definition sample_conn :: sudoku_conn where
  "sample_conn = \<lparr>sent = [], closing = False, noDelay = False, throttle = False, highWaterMark = 0, writeCompleteSet = False\<rparr>"

definition sample_pieces :: "string list" where
  "sample_pieces = [take 50 (request_stream [sample_request]), drop 50 (request_stream [sample_request])]"

theorem basic_server_answers_witness:
  "\<exists>reply b'. basic_session Buffer_new sample_conn (map (Pair fresh_memory) sample_pieces) = Some (sample_conn\<lparr>sent := [reply]\<rparr>, b') \<and>
     content b' = [] \<and> answers False sample_request reply"
proof -
  have "concat (map snd (map (Pair fresh_memory) sample_pieces)) = request_stream [sample_request]" by (simp add: sample_pieces_def)
  then obtain texts b' where "basic_session Buffer_new sample_conn (map (Pair fresh_memory) sample_pieces) =
      Some (sample_conn\<lparr>sent := sent sample_conn @ texts\<rparr>, b')" "content b' = []" "list_all2 (answers False) [sample_request] texts"
    using basic_server_answers [of "[sample_request]" "map (Pair fresh_memory) sample_pieces" sample_conn] sample_request_ok
    by (auto simp: sample_conn_def)
  then show ?thesis by (auto simp: sample_conn_def list_all2_Cons1)
qed

section \<open>Servers with a pool\<close>

text \<open>
  What happens to a server with a pool: a piece of input arrives on a connection, the pool executes one of the
  jobs, or one of the other callbacks is called. The parameters \<open>'e\<close>, \<open>'j\<close> and \<open>'o\<close> are what the environment
  supplies: the time and queue size of a message, the memory and time of a job, the callback.
\<close>

datatype ('e, 'j, 'o) pool_event = Piece nat 'e bytes | Job nat 'j | Other 'o

definition run_job :: "('j \<Rightarrow> nat \<times> Request \<Rightarrow> sudoku_server \<Rightarrow> sudoku_server option) \<Rightarrow> nat \<Rightarrow> 'j \<Rightarrow> sudoku_server \<Rightarrow> sudoku_server option" where
  "run_job work i j s =
     (if i < length (jobs s) then work j (jobs s ! i) (s\<lparr>jobs := take i (jobs s) @ drop (Suc i) (jobs s)\<rparr>) else Some s)"

fun pool_serve :: "('e \<Rightarrow> nat \<Rightarrow> buffer \<Rightarrow> sudoku_server \<Rightarrow> (sudoku_server \<times> buffer) option)
    \<Rightarrow> ('j \<Rightarrow> nat \<times> Request \<Rightarrow> sudoku_server \<Rightarrow> sudoku_server option) \<Rightarrow> ('o \<Rightarrow> sudoku_server \<Rightarrow> sudoku_server)
    \<Rightarrow> sudoku_server \<Rightarrow> (nat \<Rightarrow> buffer) \<Rightarrow> ('e, 'j, 'o) pool_event list \<Rightarrow> (sudoku_server \<times> (nat \<Rightarrow> buffer)) option" where
  "pool_serve onMsg work other s bs [] = Some (s, bs)"
| "pool_serve onMsg work other s bs (Piece k e p # evs) = do {
     b \<leftarrow> append_buf (bs k) p;
     (s, b) \<leftarrow> onMsg e k b s;
     pool_serve onMsg work other s (bs(k := b)) evs
   }"
| "pool_serve onMsg work other s bs (Job i j # evs) = do {
     s \<leftarrow> run_job work i j s;
     pool_serve onMsg work other s bs evs
   }"
| "pool_serve onMsg work other s bs (Other x # evs) = pool_serve onMsg work other (other x s) bs evs"

text \<open>The bytes that arrive on a connection.\<close>

fun pieces_of :: "nat \<Rightarrow> ('e, 'j, 'o) pool_event list \<Rightarrow> bytes" where
  "pieces_of k [] = []"
| "pieces_of k (Piece k' e p # evs) = (if k' = k then p @ pieces_of k evs else pieces_of k evs)"
| "pieces_of k (Job i j # evs) = pieces_of k evs"
| "pieces_of k (Other x # evs) = pieces_of k evs"

text \<open>The requests of a connection that wait in the pool, and how the requests taken so far are accounted for.\<close>

definition waiting :: "nat \<Rightarrow> (nat \<times> Request) list \<Rightarrow> (string \<times> string) multiset" where
  "waiting k js = image_mset (\<lambda>(k', q). (req_id q, puzzle q)) (filter_mset (\<lambda>(k', q). k' = k) (mset js))"

definition replied :: "bool \<Rightarrow> (string \<times> string) multiset \<Rightarrow> string list \<Rightarrow> bool" where
  "replied drops ns texts \<longleftrightarrow> (\<exists>rs. mset rs = ns \<and> list_all2 (answers drops) rs texts)"

definition account :: "bool \<Rightarrow> nat \<Rightarrow> (string \<times> string) multiset \<Rightarrow> sudoku_server \<Rightarrow> bool" where
  "account drops k ns s \<longleftrightarrow> \<not> closing (conns s k) \<and>
     (\<exists>ms. ns = ms + waiting k (jobs s) \<and> replied drops ms (sent (conns s k)))"

definition jobs_ok :: "sudoku_server \<Rightarrow> bool" where
  "jobs_ok s \<longleftrightarrow> (\<forall>(k, q)\<in>set (jobs s). length (puzzle q) = kCells)"

text \<open>What a call of \<open>processRequest\<close> may do with a well-formed request: hand it to the pool, or send that the server is too busy.\<close>

definition handled :: "bool \<Rightarrow> nat \<Rightarrow> string \<times> string \<Rightarrow> sudoku_server \<Rightarrow> sudoku_server \<Rightarrow> bool" where
  "handled drops k r s s' \<longleftrightarrow>
     (\<exists>t. jobs s' = jobs s @ [(k, \<lparr>req_id = fst r, puzzle = snd r, receiveTime = t\<rparr>)] \<and> conns s' = conns s) \<or>
     drops \<and> jobs s' = jobs s \<and> conns s' = (conns s)(k := conn_send (reply_text (fst r) ''ServerTooBusy'') (conns s k))"

lemma replied_snoc: "replied drops ns texts \<Longrightarrow> answers drops r t \<Longrightarrow> replied drops (add_mset r ns) (texts @ [t])"
proof -
  assume a: "replied drops ns texts" "answers drops r t"
  then obtain rs where "mset rs = ns" "list_all2 (answers drops) rs texts" by (auto simp: replied_def)
  with a(2) have "mset (rs @ [r]) = add_mset r ns" "list_all2 (answers drops) (rs @ [r]) (texts @ [t])"
    by (simp_all add: list_all2_appendI)
  then show ?thesis unfolding replied_def by blast
qed

lemma waiting_snoc: "waiting k (js @ [(k', q)]) = (if k' = k then add_mset (req_id q, puzzle q) (waiting k js) else waiting k js)"
  by (simp add: waiting_def)

lemma waiting_remove:
  assumes "i < length js" "js ! i = (k', q)"
  shows "waiting k js = (if k' = k then add_mset (req_id q, puzzle q) (waiting k (take i js @ drop (Suc i) js))
    else waiting k (take i js @ drop (Suc i) js))"
proof -
  have "mset js = add_mset (k', q) (mset (take i js @ drop (Suc i) js))"
    using arg_cong [OF id_take_nth_drop [OF assms(1)], of mset] assms(2) by simp
  then show ?thesis by (simp add: waiting_def)
qed

lemma account_handled:
  assumes "handled drops k r s s'" "account drops k ns s"
  shows "account drops k (add_mset r ns) s'"
proof -
  obtain ms where ms: "ns = ms + waiting k (jobs s)" "replied drops ms (sent (conns s k))" "\<not> closing (conns s k)"
    using assms(2) by (auto simp: account_def)
  from assms(1) show ?thesis unfolding handled_def
  proof
    assume "\<exists>t. jobs s' = jobs s @ [(k, \<lparr>req_id = fst r, puzzle = snd r, receiveTime = t\<rparr>)] \<and> conns s' = conns s"
    with ms show ?thesis by (auto simp: account_def waiting_snoc)
  next
    assume d: "drops \<and> jobs s' = jobs s \<and> conns s' = (conns s)(k := conn_send (reply_text (fst r) ''ServerTooBusy'') (conns s k))"
    then have "answers drops r (reply_text (fst r) ''ServerTooBusy'')" by (auto simp: answers_def)
    from replied_snoc [OF ms(2) this] d ms show ?thesis
      by (auto simp: account_def conn_send_def intro!: exI [of _ "add_mset r ms"])
  qed
qed

lemma account_other:
  "handled drops k r s s' \<Longrightarrow> k' \<noteq> k \<Longrightarrow> account drops k' ns s \<Longrightarrow> account drops k' ns s'"
  by (auto simp: handled_def account_def waiting_snoc)

lemma handled_jobs: "handled drops k r s s' \<Longrightarrow> length (snd r) = kCells \<Longrightarrow> jobs_ok s \<Longrightarrow> jobs_ok s'"
  by (auto simp: handled_def jobs_ok_def)

fun event_ok :: "('j \<Rightarrow> bool) \<Rightarrow> ('o \<Rightarrow> bool) \<Rightarrow> ('e, 'j, 'o) pool_event \<Rightarrow> bool" where
  "event_ok job_ok other_ok (Piece k e p) = True"
| "event_ok job_ok other_ok (Job i j) = job_ok j"
| "event_ok job_ok other_ok (Other x) = other_ok x"

text \<open>What clients send: well-formed requests, with an identifier where the server needs one.\<close>

definition requests_ok :: "bool \<Rightarrow> (string \<times> string) list \<Rightarrow> bool" where
  "requests_ok needs_id rs \<longleftrightarrow> (\<forall>r\<in>set rs. request_ok r \<and> (needs_id \<longrightarrow> fst r \<noteq> []))"

text \<open>
  The contract of the handlers of a server with a pool: \<open>process\<close> handles a well-formed request, \<open>work\<close> answers
  one, \<open>other\<close> does neither; all keep the invariant \<open>stat_inv\<close> of the statistics. \<open>needs_id\<close> says whether
  requests with no identifier are refused, \<open>drops\<close> whether the server may reply that it is too busy.
\<close>

locale request_pool =
  fixes process :: "'e \<Rightarrow> nat \<Rightarrow> string \<Rightarrow> sudoku_server \<Rightarrow> (bool \<times> sudoku_server) option"
    and refuse :: "nat \<Rightarrow> string \<Rightarrow> sudoku_server \<Rightarrow> sudoku_server"
    and work :: "'j \<Rightarrow> nat \<times> Request \<Rightarrow> sudoku_server \<Rightarrow> sudoku_server option"
    and other :: "'o \<Rightarrow> sudoku_server \<Rightarrow> sudoku_server"
    and job_ok :: "'j \<Rightarrow> bool" and other_ok :: "'o \<Rightarrow> bool" and stat_inv :: "stat \<Rightarrow> bool"
    and needs_id :: bool and drops :: bool
  assumes process_request: "request_ok r \<Longrightarrow> (needs_id \<longrightarrow> fst r \<noteq> []) \<Longrightarrow> stat_inv (statistics s) \<Longrightarrow>
      \<exists>s'. process e k (request_line r) s = Some (True, s') \<and> stat_inv (statistics s') \<and> handled drops k r s s'"
    and work_request: "job_ok j \<Longrightarrow> length (puzzle q) = kCells \<Longrightarrow> stat_inv (statistics s) \<Longrightarrow>
      \<exists>s' x. work j (k, q) s = Some s' \<and> stat_inv (statistics s') \<and> jobs s' = jobs s \<and> solution (puzzle q) x \<and>
        conns s' = (conns s)(k := conn_send (reply_text (req_id q) x) (conns s k))"
    and other_keeps: "other_ok x \<Longrightarrow> stat_inv (statistics s) \<Longrightarrow> stat_inv (statistics (other x s)) \<and> jobs (other x s) = jobs s \<and>
        sent (conns (other x s) k) = sent (conns s k) \<and> closing (conns (other x s) k) = closing (conns s k)"
begin

lemma run_requests:
  "requests_ok needs_id rs \<Longrightarrow> stat_inv (statistics s) \<Longrightarrow> jobs_ok s \<Longrightarrow>
   \<exists>s'. run_lines (process e k) (map request_line rs) s = Some s' \<and> stat_inv (statistics s') \<and> jobs_ok s' \<and>
     (\<forall>ns. account drops k ns s \<longrightarrow> account drops k (ns + mset rs) s') \<and>
     (\<forall>k' ns. k' \<noteq> k \<longrightarrow> account drops k' ns s \<longrightarrow> account drops k' ns s')"
proof (induction rs arbitrary: s)
  case (Cons r rs)
  then obtain s1 where s1: "process e k (request_line r) s = Some (True, s1)" "stat_inv (statistics s1)" "handled drops k r s s1"
    using process_request [of r s e k] by (auto simp: requests_ok_def)
  have len: "length (snd r) = kCells" using Cons.prems(1) by (auto simp: request_ok_def requests_ok_def)
  obtain s' where s': "run_lines (process e k) (map request_line rs) s1 = Some s'" "stat_inv (statistics s')" "jobs_ok s'"
      "\<forall>ns. account drops k ns s1 \<longrightarrow> account drops k (ns + mset rs) s'"
      "\<forall>k' ns. k' \<noteq> k \<longrightarrow> account drops k' ns s1 \<longrightarrow> account drops k' ns s'"
    using Cons.IH [of s1] Cons.prems(1) s1(2) handled_jobs [OF s1(3) len Cons.prems(3)] by (auto simp: requests_ok_def)
  have "account drops k (ns + mset (r # rs)) s'" if a: "account drops k ns s" for ns
    using s'(4) account_handled [OF s1(3) a] by fastforce
  moreover have "account drops k' ns s'" if "k' \<noteq> k" "account drops k' ns s" for k' ns
    using s'(5) account_other [OF s1(3)] that by blast
  ultimately show ?case using s1(1) s'(1-3) by auto
qed simp

lemma run_job_keeps:
  assumes "job_ok j" "stat_inv (statistics s)" "jobs_ok s"
  shows "\<exists>s'. run_job work i j s = Some s' \<and> stat_inv (statistics s') \<and> jobs_ok s' \<and> (\<forall>k ns. account drops k ns s \<longrightarrow> account drops k ns s')"
proof (cases "i < length (jobs s)")
  case True
  obtain k q where q: "jobs s ! i = (k, q)" by fastforce
  let ?js = "take i (jobs s) @ drop (Suc i) (jobs s)"
  have sub: "set ?js \<subseteq> set (jobs s)" by (auto dest: in_set_takeD in_set_dropD)
  have "length (puzzle q) = kCells" using assms(3) nth_mem [OF True] q by (auto simp: jobs_ok_def)
  then obtain s' x where s': "work j (k, q) (s\<lparr>jobs := ?js\<rparr>) = Some s'" "stat_inv (statistics s')" "jobs s' = ?js" "solution (puzzle q) x"
      "conns s' = (conns s)(k := conn_send (reply_text (req_id q) x) (conns s k))"
    using work_request [OF assms(1), of q "s\<lparr>jobs := ?js\<rparr>" k] assms(2) by auto
  have "account drops k' ns s'" if a: "account drops k' ns s" for k' ns
  proof -
    obtain ms where ms: "ns = ms + waiting k' (jobs s)" "replied drops ms (sent (conns s k'))" "\<not> closing (conns s k')"
      using a by (auto simp: account_def)
    show ?thesis
    proof (cases "k' = k")
      case True
      have "answers drops (req_id q, puzzle q) (reply_text (req_id q) x)" using s'(4) by (auto simp: answers_def)
      from replied_snoc [OF ms(2) this] ms waiting_remove [OF \<open>i < length (jobs s)\<close> q, of k'] True s'(3,5) show ?thesis
        by (auto simp: account_def conn_send_def intro!: exI [of _ "add_mset (req_id q, puzzle q) ms"])
    next
      case False
      with ms waiting_remove [OF \<open>i < length (jobs s)\<close> q, of k'] s'(3,5) show ?thesis by (auto simp: account_def)
    qed
  qed
  moreover have "jobs_ok s'" using assms(3) sub s'(3) unfolding jobs_ok_def by (metis subsetD)
  ultimately show ?thesis using True q s'(1,2) by (auto simp: run_job_def)
qed (use assms in \<open>simp add: run_job_def\<close>)

text \<open>The invariant: of the requests \<open>rs\<close> of connection \<open>k\<close>, \<open>todo\<close> have not been taken yet.\<close>

definition conn_inv :: "(string \<times> string) list \<Rightarrow> nat \<Rightarrow> sudoku_server \<Rightarrow> buffer \<Rightarrow> bytes \<Rightarrow> bool" where
  "conn_inv rs k s b later \<longleftrightarrow> (\<exists>ns todo. rs = ns @ todo \<and> account drops k (mset ns) s \<and> buf_inv b \<and>
     content b @ later = request_stream todo \<and> search_first kCRLF (content b) = None)"

definition pool_inv :: "(nat \<Rightarrow> (string \<times> string) list) \<Rightarrow> sudoku_server \<Rightarrow> (nat \<Rightarrow> buffer) \<Rightarrow> ('e, 'j, 'o) pool_event list \<Rightarrow> bool" where
  "pool_inv R s bs evs \<longleftrightarrow> stat_inv (statistics s) \<and> jobs_ok s \<and> (\<forall>k. conn_inv (R k) k s (bs k) (pieces_of k evs))"

lemma conn_inv_account:
  "conn_inv rs k s b later \<Longrightarrow> (\<And>ns. account drops k ns s \<Longrightarrow> account drops k ns s') \<Longrightarrow> conn_inv rs k s' b later"
  unfolding conn_inv_def by blast

definition serve where
  "serve = pool_serve (\<lambda>e k. request_loop (process e k) (refuse k)) work other"

lemma pool_piece:
  assumes inv: "pool_inv R s bs (Piece k e p # evs)" and ok: "requests_ok needs_id (R k)"
  shows "\<exists>s' b'. serve s bs (Piece k e p # evs) = serve s' (bs(k := b')) evs \<and> pool_inv R s' (bs(k := b')) evs"
proof -
  have st: "stat_inv (statistics s)" "jobs_ok s" and c: "\<And>k'. conn_inv (R k') k' s (bs k') (pieces_of k' (Piece k e p # evs))"
    using inv by (auto simp: pool_inv_def)
  obtain ns todo where k: "R k = ns @ todo" "account drops k (mset ns) s" "buf_inv (bs k)"
      "content (bs k) @ p @ pieces_of k evs = request_stream todo"
    using c [of k] by (auto simp: conn_inv_def)
  have todo: "\<forall>r\<in>set todo. request_ok r" using ok k(1) by (auto simp: requests_ok_def)
  have part: "requests_ok needs_id rs1" if "todo = rs1 @ rs2" for rs1 rs2 using ok k(1) that by (auto simp: requests_ok_def)
  have run: "\<forall>rs1 rs2. todo = rs1 @ rs2 \<longrightarrow> (\<exists>s'. run_lines (process e k) (map request_line rs1) s = Some s')"
    using run_requests [OF part st, of _ _ e k] by blast
  obtain rs1 rs2 b1 b2 s' where s: "todo = rs1 @ rs2" "append_buf (bs k) p = Some b1"
      "request_loop (process e k) (refuse k) b1 s = Some (s', b2)" "run_lines (process e k) (map request_line rs1) s = Some s'"
      "buf_inv b2" "content b2 @ pieces_of k evs = request_stream rs2" "search_first kCRLF (content b2) = None"
    using piece_requests [OF k(3,4) todo run, of "refuse k"] by (elim exE conjE) (rule that)
  have s': "stat_inv (statistics s')" "jobs_ok s'" "\<And>ns. account drops k ns s \<Longrightarrow> account drops k (ns + mset rs1) s'"
      "\<And>k' ns. k' \<noteq> k \<Longrightarrow> account drops k' ns s \<Longrightarrow> account drops k' ns s'"
    using run_requests [OF part [OF s(1)] st, of e k] s(4) by auto
  have "conn_inv (R k) k s' b2 (pieces_of k evs)" unfolding conn_inv_def
    using k(1) s s'(3) [OF k(2)] by (intro exI [of _ "ns @ rs1"] exI [of _ rs2]) simp
  moreover have "conn_inv (R k') k' s' (bs k') (pieces_of k' evs)" if "k' \<noteq> k" for k'
    using conn_inv_account [OF c s'(4) [OF that]] that by simp
  ultimately have "pool_inv R s' (bs(k := b2)) evs" using s'(1,2) by (simp add: pool_inv_def)
  then show ?thesis using s(2,3) by (auto simp: serve_def)
qed

lemma pool_quiet:
  assumes "pool_inv R s bs (ev # evs)" "\<And>k. pieces_of k (ev # evs) = pieces_of k evs"
    "stat_inv (statistics s')" "jobs_ok s'" "\<And>k ns. account drops k ns s \<Longrightarrow> account drops k ns s'"
  shows "pool_inv R s' bs evs"
proof -
  have "conn_inv (R k) k s' (bs k) (pieces_of k evs)" for k
    using conn_inv_account [of "R k" k s "bs k" "pieces_of k evs" s'] assms(1,2,5) by (simp add: pool_inv_def)
  with assms(3,4) show ?thesis by (simp add: pool_inv_def)
qed

lemma serve_answers:
  "pool_inv R s bs evs \<Longrightarrow> \<forall>k. requests_ok needs_id (R k) \<Longrightarrow> \<forall>ev\<in>set evs. event_ok job_ok other_ok ev \<Longrightarrow>
   \<exists>s' bs'. serve s bs evs = Some (s', bs') \<and> pool_inv R s' bs' []"
proof (induction evs arbitrary: s bs)
  case Nil
  then show ?case by (simp add: serve_def)
next
  case (Cons ev evs)
  have st: "stat_inv (statistics s)" "jobs_ok s" using Cons.prems(1) by (auto simp: pool_inv_def)
  have "\<exists>s1 bs1. serve s bs (ev # evs) = serve s1 bs1 evs \<and> pool_inv R s1 bs1 evs"
  proof (cases ev)
    case (Piece k e p)
    then show ?thesis using pool_piece [of R s bs k e p evs] Cons.prems(1,2) by blast
  next
    case (Job i j)
    then obtain s1 where s1: "run_job work i j s = Some s1" "stat_inv (statistics s1)" "jobs_ok s1"
        "\<forall>k ns. account drops k ns s \<longrightarrow> account drops k ns s1"
      using run_job_keeps [of j s i] Cons.prems(3) st by auto
    then have "pool_inv R s1 bs evs" using pool_quiet [OF Cons.prems(1)] Job by simp
    with s1(1) Job show ?thesis by (auto simp: serve_def)
  next
    case (Other x)
    then have "other_ok x" using Cons.prems(3) by simp
    then have "pool_inv R (other x s) bs evs"
      using pool_quiet [OF Cons.prems(1), of "other x s"] Other other_keeps [of x s] st by (simp add: account_def jobs_ok_def)
    with Other show ?thesis by (auto simp: serve_def)
  qed
  with Cons.IH Cons.prems show ?case by (metis list.set_intros(2))
qed

lemma account_empty: "jobs s = [] \<Longrightarrow> sent (conns s k) = [] \<Longrightarrow> \<not> closing (conns s k) \<Longrightarrow> account drops k {#} s"
  by (simp add: account_def waiting_def replied_def)

theorem all_answered:
  assumes "stat_inv (statistics s)" "jobs s = []" "\<forall>k. sent (conns s k) = [] \<and> \<not> closing (conns s k)"
    "\<forall>k. requests_ok needs_id (R k)" "\<forall>ev\<in>set evs. event_ok job_ok other_ok ev" "\<forall>k. pieces_of k evs = request_stream (R k)"
  shows "\<exists>s' bs'. serve s (\<lambda>k. Buffer_new) evs = Some (s', bs') \<and> (\<forall>k. content (bs' k) = [] \<and> account drops k (mset (R k)) s')"
proof -
  have "conn_inv (R k) k s Buffer_new (pieces_of k evs)" for k unfolding conn_inv_def
    using assms(2,3,6) account_empty [of s k] by (intro exI [of _ "[]"] exI [of _ "R k"]) (simp add: kCRLF_def)
  then have "pool_inv R s (\<lambda>k. Buffer_new) evs" using assms(1,2) by (simp add: pool_inv_def jobs_ok_def)
  then obtain s' bs' where s': "serve s (\<lambda>k. Buffer_new) evs = Some (s', bs')" "pool_inv R s' bs' []"
    using serve_answers assms(4,5) by blast
  have "content (bs' k) = [] \<and> account drops k (mset (R k)) s'" for k
  proof -
    obtain ns todo where k: "R k = ns @ todo" "account drops k (mset ns) s'" "content (bs' k) = request_stream todo"
        "search_first kCRLF (content (bs' k)) = None"
      using s'(2) unfolding pool_inv_def conn_inv_def by (metis append_Nil2 pieces_of.simps(1))
    have "\<forall>r\<in>set todo. request_ok r" using spec [OF assms(4), of k] k(1) by (auto simp: requests_ok_def)
    with k(3,4) have "todo = []" using no_requests_left by simp
    with k show ?thesis by (simp add: request_stream_def)
  qed
  with s'(1) show ?thesis by blast
qed

end

text \<open>What is left to prove of \<open>processRequest\<close>: it hands a well-formed request on.\<close>

lemma handled_run: "handled drops k (i, p) s (pool_run k \<lparr>req_id = i, puzzle = p, receiveTime = t\<rparr> s)"
  by (simp add: handled_def pool_run_def)

lemma on_stat_simps [simp]:
  "conns (on_stat f s) = conns s" "jobs (on_stat f s) = jobs s" "statistics (on_stat f s) = f (statistics s)"
  by (simp_all add: on_stat_def)

lemma on_conn_simps [simp]:
  "conns (on_conn k f s) = (conns s)(k := f (conns s k))" "jobs (on_conn k f s) = jobs s" "statistics (on_conn k f s) = statistics s"
  by (simp_all add: on_conn_def)

lemma pool_run_stat [simp]: "statistics (pool_run k q s) = statistics s"
  by (simp add: pool_run_def)

lemma handled_stat: "handled drops k r (on_stat f s) s' = handled drops k r s s'"
  by (simp add: handled_def)

lemma request_parts:
  assumes "request_ok r"
  obtains i p where "r = (i, p)" "length p = kCells" "split_request (request_line r) = (if i = [] then None else Some (i, p))"
    "i = [] \<Longrightarrow> request_line r = p"
proof -
  obtain i p where "r = (i, p)" by fastforce
  with that [of i p] split_request_line [of i p] assms show thesis by (simp add: request_ok_def request_line_def)
qed

definition known_stat :: "push_back \<Rightarrow> stat \<Rightarrow> bool" where
  "known_stat push st \<longleftrightarrow> (\<exists>rs. stat_run push st rs)"

lemma known_stat_counters:
  "known_stat push st \<Longrightarrow> known_stat push (recordRequest st)" "known_stat push st \<Longrightarrow> known_stat push (recordBadRequest st)"
  "known_stat push st \<Longrightarrow> known_stat push (recordDroppedRequest st)" "known_stat push st \<Longrightarrow> known_stat push (snd (stat_reset st))"
  unfolding known_stat_def by (blast intro: stat_run.intros)+

lemma known_stat_response:
  assumes "circular_push push" "known_stat push st" "0 < secondsSinceEpoch now"
  shows "\<exists>st'. recordResponse push st now receive solved = Some st' \<and> known_stat push st'"
proof -
  obtain rs where rs: "stat_run push st rs" using assms(2) by (auto simp: known_stat_def)
  obtain st' where st': "recordResponse push st now receive solved = Some st'"
    using recordResponse_ok [OF assms(1) _ _ _ assms(3), of st rs receive solved] stat_run_counts [OF assms(1) rs] by blast
  from run_response [OF rs this assms(3) refl] show ?thesis using st' unfolding known_stat_def by blast
qed

subsection \<open>The server with a thread pool\<close>

interpretation thp: request_pool "\<lambda>(e :: unit). threadpool_processRequest"
  "\<lambda>k msg. on_conn k (\<lambda>c. conn_shutdown (conn_send msg c))" threadpool_solve "\<lambda>(x :: unit) s. s"
  "\<lambda>mem. True" "\<lambda>x. True" "\<lambda>st. True" False False
proof
  fix r s k and e :: unit
  assume "request_ok r"
  then show "\<exists>s'. threadpool_processRequest k (request_line r) s = Some (True, s') \<and> True \<and> handled False k r s s'"
    by (rule request_parts) (auto simp: threadpool_processRequest_def Let_def handled_run)
next
  fix mem :: solver and q :: Request and s :: sudoku_server and k
  assume "length (puzzle q) = kCells"
  then obtain x where "solveSudoku mem (puzzle q) = Some x" "solution (puzzle q) x" using solveSudoku_solution by blast
  then show "\<exists>s' x. threadpool_solve mem (k, q) s = Some s' \<and> True \<and> jobs s' = jobs s \<and> solution (puzzle q) x \<and>
      conns s' = (conns s)(k := conn_send (reply_text (req_id q) x) (conns s k))"
    by (simp add: threadpool_solve_def) blast
qed simp_all

subsection \<open>The hybrid server\<close>

text \<open>The other events are the connection callback and the command of the inspector that resets the statistics.\<close>

datatype hybrid_event = HybridConnection bool nat bool | HybridReset

primrec hybrid_other :: "hybrid_event \<Rightarrow> sudoku_server \<Rightarrow> sudoku_server" where
  "hybrid_other (HybridConnection nodelay k up) s = hybrid_onConnection nodelay k up s"
| "hybrid_other HybridReset s = on_stat (snd \<circ> stat_reset) s"

lemma hybrid_solve_ok:
  assumes "circular_push push" "0 < secondsSinceEpoch now" "length (puzzle q) = kCells" "known_stat push (statistics s)"
  shows "\<exists>s' x. hybrid_solve push mem now (k, q) s = Some s' \<and> known_stat push (statistics s') \<and> jobs s' = jobs s \<and>
    solution (puzzle q) x \<and> conns s' = (conns s)(k := conn_send (reply_text (req_id q) x) (conns s k))"
proof -
  obtain x where x: "solveSudoku mem (puzzle q) = Some x" "solution (puzzle q) x" using solveSudoku_solution [OF assms(3)] by blast
  obtain st where "recordResponse push (statistics s) now (receiveTime q) (x \<noteq> kNoSolution) = Some st" "known_stat push st"
    using known_stat_response [OF assms(1,4,2)] by blast
  with x show ?thesis by (auto simp: hybrid_solve_def)
qed

interpretation hyb: request_pool "\<lambda>time k request s. hybrid_processRequest numThreads k time request (on_stat recordRequest s)"
  "\<lambda>k msg s. on_stat recordBadRequest (on_conn k (\<lambda>c. conn_shutdown (conn_send msg c)) s)"
  "\<lambda>(mem, now). hybrid_solve push mem now" hybrid_other "\<lambda>(mem, now). circular_push push \<and> 0 < secondsSinceEpoch now" "\<lambda>x. True"
  "known_stat push" "1 < numThreads" False for numThreads :: int and push :: push_back
proof
  fix r and s :: sudoku_server and k time
  assume r: "request_ok r" "1 < numThreads \<longrightarrow> fst r \<noteq> []" "known_stat push (statistics s)"
  from r(1) show "\<exists>s'. hybrid_processRequest numThreads k time (request_line r) (on_stat recordRequest s) = Some (True, s') \<and>
      known_stat push (statistics s') \<and> handled False k r s s'"
  proof (rule request_parts)
    fix i p assume "r = (i, p)" "length p = kCells" "split_request (request_line r) = (if i = [] then None else Some (i, p))"
      "i = [] \<Longrightarrow> request_line r = p"
    then show ?thesis using r(2,3) known_stat_counters(1) [of push] handled_run [of False k i p "on_stat recordRequest s" time]
      by (auto simp: hybrid_processRequest_def handled_stat)
  qed
next
  fix j :: "solver \<times> Timestamp" and q :: Request and s :: sudoku_server and k
  assume "case j of (mem, now) \<Rightarrow> circular_push push \<and> 0 < secondsSinceEpoch now" "length (puzzle q) = kCells" "known_stat push (statistics s)"
  then show "\<exists>s' x. (case j of (mem, now) \<Rightarrow> hybrid_solve push mem now) (k, q) s = Some s' \<and> known_stat push (statistics s') \<and>
      jobs s' = jobs s \<and> solution (puzzle q) x \<and> conns s' = (conns s)(k := conn_send (reply_text (req_id q) x) (conns s k))"
    using hybrid_solve_ok [of push "snd j" q s "fst j" k] by (cases j) simp
next
  fix x and s :: sudoku_server and k
  assume "known_stat push (statistics s)"
  then show "known_stat push (statistics (hybrid_other x s)) \<and> jobs (hybrid_other x s) = jobs s \<and>
      sent (conns (hybrid_other x s) k) = sent (conns s k) \<and> closing (conns (hybrid_other x s) k) = closing (conns s k)"
    by (cases x) (simp_all add: hybrid_onConnection_def known_stat_counters(4))
qed

subsection \<open>The production server\<close>

text \<open>
  The other events: the connection callback, the two callbacks that follow the size of the output buffer and the
  reset. A connection whose output has passed ten megabytes is shut down, which \<open>prod_event_ok\<close> excludes.
\<close>

datatype prod_event = ProdConnection bool nat bool | ProdHighWater nat nat | ProdWriteComplete nat | ProdReset

primrec prod_other :: "prod_event \<Rightarrow> sudoku_server \<Rightarrow> sudoku_server" where
  "prod_other (ProdConnection nodelay k up) s = prod_onConnection nodelay k up s"
| "prod_other (ProdHighWater k tosend) s = prod_highWaterMark k tosend s"
| "prod_other (ProdWriteComplete k) s = prod_writeComplete k s"
| "prod_other ProdReset s = on_stat (snd \<circ> stat_reset) s"

primrec prod_event_ok :: "prod_event \<Rightarrow> bool" where
  "prod_event_ok (ProdConnection nodelay k up) = True"
| "prod_event_ok (ProdHighWater k tosend) = (tosend < 10 * 1024 * 1024)"
| "prod_event_ok (ProdWriteComplete k) = True"
| "prod_event_ok ProdReset = True"

lemma prod_solve_hybrid: "prod_solve = hybrid_solve"
  by (intro ext) (simp add: prod_solve_def hybrid_solve_def)

lemma prod_processRequest_ok:
  assumes r: "request_ok r" "1 < numThreads \<longrightarrow> fst r \<noteq> []" "known_stat push (statistics s)"
  shows "\<exists>s'. prod_processRequest numThreads queueSize k time (request_line r) (on_stat recordRequest s) = Some (True, s') \<and>
      known_stat push (statistics s') \<and> handled True k r s s'"
  using r(1)
proof (rule request_parts)
  fix i p
  let ?s = "on_stat recordRequest s"
  let ?run = "pool_run k \<lparr>req_id = i, puzzle = p, receiveTime = time\<rparr> ?s"
  let ?drop = "on_stat recordDroppedRequest (on_conn k (conn_send (reply_text i ''ServerTooBusy'')) ?s)"
  assume i: "r = (i, p)" "length p = kCells" "split_request (request_line r) = (if i = [] then None else Some (i, p))"
    "i = [] \<Longrightarrow> request_line r = p"
  have "prod_processRequest numThreads queueSize k time (request_line r) ?s =
      Some (True, if queueSize ?s < 1000 * 1000 \<and> \<not> throttle (conns ?s k) then ?run else ?drop)"
    using i r(2) by (auto simp: prod_processRequest_def simp del: on_stat_simps)
  moreover have "handled True k r s ?run" using handled_run [of True k i p ?s time] i(1) by (simp add: handled_stat)
  moreover have "handled True k r s ?drop" using i(1) by (simp add: handled_def)
  ultimately show ?thesis using r(3) known_stat_counters(1,3) [of push] by (simp split: if_splits)
qed

interpretation prd: request_pool "\<lambda>(queueSize, time) k request s. prod_processRequest numThreads queueSize k time request (on_stat recordRequest s)"
  "\<lambda>k msg s. on_stat recordBadRequest (on_conn k (\<lambda>c. conn_shutdown (conn_send msg c)) s)"
  "\<lambda>(mem, now). prod_solve push mem now" prod_other "\<lambda>(mem, now). circular_push push \<and> 0 < secondsSinceEpoch now" prod_event_ok
  "known_stat push" "1 < numThreads" True for numThreads :: int and push :: push_back
proof
  fix r and s :: sudoku_server and k and e :: "(sudoku_server \<Rightarrow> nat) \<times> Timestamp"
  assume "request_ok r" "1 < numThreads \<longrightarrow> fst r \<noteq> []" "known_stat push (statistics s)"
  then show "\<exists>s'. (case e of (queueSize, time) \<Rightarrow> \<lambda>k request s. prod_processRequest numThreads queueSize k time request (on_stat recordRequest s))
        k (request_line r) s = Some (True, s') \<and> known_stat push (statistics s') \<and> handled True k r s s'"
    by (cases e) (simp add: prod_processRequest_ok)
next
  fix j :: "solver \<times> Timestamp" and q :: Request and s :: sudoku_server and k
  assume "case j of (mem, now) \<Rightarrow> circular_push push \<and> 0 < secondsSinceEpoch now" "length (puzzle q) = kCells" "known_stat push (statistics s)"
  then show "\<exists>s' x. (case j of (mem, now) \<Rightarrow> prod_solve push mem now) (k, q) s = Some s' \<and> known_stat push (statistics s') \<and>
      jobs s' = jobs s \<and> solution (puzzle q) x \<and> conns s' = (conns s)(k := conn_send (reply_text (req_id q) x) (conns s k))"
    using hybrid_solve_ok [of push "snd j" q s "fst j" k] by (cases j) (simp add: prod_solve_hybrid)
next
  fix x and s :: sudoku_server and k
  assume "prod_event_ok x" "known_stat push (statistics s)"
  then show "known_stat push (statistics (prod_other x s)) \<and> jobs (prod_other x s) = jobs s \<and>
      sent (conns (prod_other x s) k) = sent (conns s k) \<and> closing (conns (prod_other x s) k) = closing (conns s k)"
    by (cases x) (simp_all add: prod_onConnection_def prod_highWaterMark_def prod_writeComplete_def known_stat_counters(4))
qed

section \<open>Every request is answered once\<close>

text \<open>A server that has just been started; once the pool has nothing left to do, every request has its answer.\<close>

definition started_server :: "sudoku_server \<Rightarrow> bool" where
  "started_server s \<longleftrightarrow> statistics s = SudokuStat_new \<and> jobs s = [] \<and> (\<forall>k. sent (conns s k) = [] \<and> \<not> closing (conns s k))"

lemma account_done: "account drops k (mset rs) s \<Longrightarrow> jobs s = [] \<Longrightarrow> replied drops (mset rs) (sent (conns s k)) \<and> \<not> closing (conns s k)"
  by (auto simp: account_def waiting_def)

lemma known_stat_new: "known_stat push SudokuStat_new"
  unfolding known_stat_def using run_new by blast

text \<open>
  The server with a thread pool and the hybrid server answer every request exactly once, whatever the pieces and the
  order in which the pool runs the jobs: per connection, the replies sent answer some of the requests, one reply
  each, and the other requests wait in the pool.
\<close>

theorem threadpool_answers:
  assumes "started_server s" "\<forall>k. requests_ok False (R k)" "\<forall>k. pieces_of k evs = request_stream (R k)"
  shows "\<exists>s' bs'. pool_serve (\<lambda>e :: unit. threadpool_onMessage) threadpool_solve (\<lambda>(x :: unit) s. s) s (\<lambda>k. Buffer_new) evs = Some (s', bs') \<and>
    (\<forall>k. content (bs' k) = [] \<and> account False k (mset (R k)) s')"
proof -
  have "event_ok (\<lambda>mem. True) (\<lambda>x. True) ev" for ev :: "(unit, solver, unit) pool_event" by (cases ev) simp_all
  moreover have "(\<lambda>e :: unit. threadpool_onMessage) = (\<lambda>e k. request_loop (threadpool_processRequest k)
      (\<lambda>msg. on_conn k (\<lambda>c. conn_shutdown (conn_send msg c))))"
    by (simp add: fun_eq_iff threadpool_onMessage_def)
  ultimately show ?thesis
    using thp.all_answered [of s R evs] assms unfolding thp.serve_def started_server_def by auto
qed

theorem hybrid_answers:
  assumes "circular_push push" "started_server s" "\<forall>k. requests_ok (1 < numThreads) (R k)" "\<forall>k. pieces_of k evs = request_stream (R k)"
    "\<forall>ev\<in>set evs. event_ok (\<lambda>(mem, now). 0 < secondsSinceEpoch now) (\<lambda>x. True) ev"
  shows "\<exists>s' bs'. pool_serve (\<lambda>time k. hybrid_onMessage numThreads k time) (\<lambda>(mem, now). hybrid_solve push mem now)
      hybrid_other s (\<lambda>k. Buffer_new) evs = Some (s', bs') \<and> (\<forall>k. content (bs' k) = [] \<and> account False k (mset (R k)) s')"
proof -
  have "event_ok (\<lambda>(mem, now). circular_push push \<and> 0 < secondsSinceEpoch now) (\<lambda>x. True) ev" if "ev \<in> set evs" for ev
    using bspec [OF assms(5) that] assms(1) by (cases ev) auto
  moreover have "(\<lambda>time k. hybrid_onMessage numThreads k time) = (\<lambda>time k. request_loop
      (\<lambda>request s. hybrid_processRequest numThreads k time request (on_stat recordRequest s))
      (\<lambda>msg s. on_stat recordBadRequest (on_conn k (\<lambda>c. conn_shutdown (conn_send msg c)) s)))"
    by (simp add: fun_eq_iff hybrid_onMessage_def)
  ultimately show ?thesis
    using hyb.all_answered [of push s numThreads R evs] assms(2-4) known_stat_new [of push]
    unfolding hyb.serve_def started_server_def by auto
qed


definition sample_server :: sudoku_server where
  "sample_server = \<lparr>conns = (\<lambda>_. sample_conn), jobs = [], statistics = SudokuStat_new\<rparr>"

text \<open>One request in two pieces, the second while the connection is throttled, and one attempt of the pool to run a job.\<close>

definition sample_events :: "((sudoku_server \<Rightarrow> nat) \<times> Timestamp, solver \<times> Timestamp, prod_event) pool_event list" where
  "sample_events = [Other (ProdConnection True 3 True), Piece 3 (\<lambda>s. length (jobs s), Timestamp 1000000) (sample_pieces ! 0),
     Other (ProdHighWater 3 6000000), Piece 3 (\<lambda>s. length (jobs s), Timestamp 2000000) (sample_pieces ! 1),
     Job 0 (fresh_memory, Timestamp 3000000), Other (ProdWriteComplete 3)]"


end
