(* ===== verification/SudokuClients.thy ===== *)
theory SudokuClients
  imports SudokuServer "HOL-Library.AList"
begin

text \<open>
  The clients of the sudoku servers: \<open>batch.cc\<close> sends a whole file of puzzles and waits for all the replies, \<open>pipeline.cc\<close>
  keeps a fixed number of requests in flight, \<open>loadtest.cc\<close> sends at a fixed rate. The last two keep the time of every
  request that has no reply yet in the hash table \<open>sendTime_\<close>, here an association list.
\<close>

section \<open>The client of pipeline.cc and loadtest.cc\<close>

record SudokuClient =
  cl_name :: string
  cl_input :: "string list"
  cl_conn :: bool
  cl_closing :: bool
  cl_requests :: string
  cl_sent :: "string list"
  cl_count :: int
  sendTime :: "(int \<times> Timestamp) list"
  latencies :: "int list"

definition SudokuClient_new :: "string list \<Rightarrow> string \<Rightarrow> SudokuClient" where
  "SudokuClient_new input name =
     \<lparr>cl_name = name, cl_input = input, cl_conn = False, cl_closing = False, cl_requests = [], cl_sent = [], cl_count = 0,
      sendTime = [], latencies = []\<rparr>"

text \<open>
  \<open>readInput\<close> keeps the lines of 81 characters; \<open>push_back(line.c_str())\<close> cuts a line at its first zero byte.
\<close>

definition readInput :: "string list \<Rightarrow> string list" where
  "readInput lines = map (takeWhile (\<lambda>c. c \<noteq> CHR 0x00)) (filter (\<lambda>line. length line = kCells) lines)"

text \<open>The line of a request, as \<open>snprintf\<close> writes it.\<close>

definition client_line :: "string \<Rightarrow> int \<Rightarrow> string \<Rightarrow> string" where
  "client_line name i req = name @ ''-'' @ show_int0 8 i @ '':'' @ req @ kCRLF"

text \<open>
  The loop of \<open>send\<close>. An empty input makes \<open>count_ % input_->size()\<close> a division by zero. \<open>snprintf\<close> writes at most
  255 characters and a zero byte into \<open>buf\<close> but returns the length of the whole line: the bytes after \<open>buf\<close> are read
  if it is longer than \<open>buf\<close>.
\<close>

fun send_loop :: "Timestamp \<Rightarrow> nat \<Rightarrow> SudokuClient \<Rightarrow> SudokuClient option" where
  "send_loop now 0 c = Some c"
| "send_loop now (Suc n) c = do {
     ensure (cl_input c \<noteq> []);
     let req = cl_input c ! nat (cl_count c mod int (length (cl_input c)));
     let line = client_line (cl_name c) (cl_count c) req;
     ensure (length line \<le> 256);
     let text = (if length line = 256 then butlast line @ [CHR 0x00] else line);
     send_loop now n (c\<lparr>cl_requests := cl_requests c @ text, sendTime := AList.update (cl_count c) now (sendTime c),
       cl_count := cl_count c + 1\<rparr>)
   }"

text \<open>
  \<open>conn_->send(&requests)\<close>: the connection takes all the bytes unless it is shutting down, when it leaves them in the
  buffer.
\<close>

definition send_buffer :: "SudokuClient \<Rightarrow> SudokuClient" where
  "send_buffer c = (if cl_closing c then c else c\<lparr>cl_sent := cl_sent c @ [cl_requests c], cl_requests := []\<rparr>)"

text \<open>In \<open>pipeline.cc\<close> the buffer is a local variable, and \<open>conn_\<close> is used without a test.\<close>

definition pipeline_send :: "Timestamp \<Rightarrow> int \<Rightarrow> SudokuClient \<Rightarrow> SudokuClient option" where
  "pipeline_send now n c = do {
     c \<leftarrow> send_loop now (nat n) (c\<lparr>cl_requests := []\<rparr>);
     ensure (cl_conn c);
     Some (send_buffer c\<lparr>cl_requests := []\<rparr>)
   }"

definition loadtest_send :: "Timestamp \<Rightarrow> int \<Rightarrow> SudokuClient \<Rightarrow> SudokuClient option" where
  "loadtest_send now n c = do {
     ensure (n > 0);
     if \<not> cl_conn c then Some c
     else do { c \<leftarrow> send_loop now (nat n) c; Some (send_buffer c) }
   }"

definition pipeline_onConnection :: "int \<Rightarrow> Timestamp \<Rightarrow> bool \<Rightarrow> SudokuClient \<Rightarrow> SudokuClient option" where
  "pipeline_onConnection pipelines now up c =
     (if up then pipeline_send now pipelines (c\<lparr>cl_conn := True\<rparr>) else Some (c\<lparr>cl_conn := False\<rparr>))"

definition loadtest_onConnection :: "bool \<Rightarrow> SudokuClient \<Rightarrow> SudokuClient" where
  "loadtest_onConnection up c = c\<lparr>cl_conn := up\<rparr>"

text \<open>\<open>static_cast<int>\<close> of a 64-bit difference keeps the low 32 bits.\<close>

definition to_int :: "int \<Rightarrow> int" where
  "to_int x = sint (word_of_int x :: 32 word)"

definition client_verify :: "string \<Rightarrow> Timestamp \<Rightarrow> SudokuClient \<Rightarrow> bool \<times> SudokuClient" where
  "client_verify response recvTime c =
     (case find_char (CHR '':'') response of
        None \<Rightarrow> (True, c)
      | Some colon \<Rightarrow>
          (case find_char (CHR ''-'') response of
             None \<Rightarrow> (True, c)
           | Some dash \<Rightarrow>
               if dash < colon then
                 (let i = atol (drop (dash + 1) response)
                  in case map_of (sendTime c) i of
                       Some t \<Rightarrow>
                         (True, c\<lparr>latencies := latencies c @ [to_int (microSecondsSinceEpoch recvTime - microSecondsSinceEpoch t)],
                                  sendTime := AList.delete i (sendTime c)\<rparr>)
                     | None \<Rightarrow> (True, c))
               else (True, c)))"

definition pipeline_onMessage :: "Timestamp \<Rightarrow> Timestamp \<Rightarrow> buffer \<Rightarrow> SudokuClient \<Rightarrow> (SudokuClient \<times> buffer) option" where
  "pipeline_onMessage recvTime now =
     request_loop
       (\<lambda>response c. let (good, c) = client_verify response recvTime c
                     in if good then do { c \<leftarrow> pipeline_send now 1 c; Some (True, c) } else Some (False, c))
       (\<lambda>_ c. c\<lparr>cl_closing := True\<rparr>)"

definition loadtest_onMessage :: "Timestamp \<Rightarrow> buffer \<Rightarrow> SudokuClient \<Rightarrow> (SudokuClient \<times> buffer) option" where
  "loadtest_onMessage recvTime =
     request_loop (\<lambda>response c. Some (client_verify response recvTime c)) (\<lambda>_ c. c\<lparr>cl_closing := True\<rparr>)"

text \<open>\<open>report\<close> moves the latencies to the caller and adds the number of requests in flight.\<close>

definition client_report :: "int list \<times> int \<Rightarrow> SudokuClient \<Rightarrow> (int list \<times> int) \<times> SudokuClient" where
  "client_report acc c =
     ((fst acc @ latencies c, snd acc + int (length (sendTime c))), c\<lparr>latencies := []\<rparr>)"

fun report_loop :: "int list \<times> int \<Rightarrow> SudokuClient list \<Rightarrow> (int list \<times> int) \<times> SudokuClient list" where
  "report_loop acc [] = (acc, [])"
| "report_loop acc (c # cs) =
     (let (acc, c') = client_report acc c; (acc, cs') = report_loop acc cs in (acc, c' # cs'))"

section \<open>The rate of loadtest.cc\<close>

record loadtest =
  lt_clients :: "SudokuClient list"
  ticks :: int
  sofar :: int

definition kHz :: int where
  "kHz = 100"

fun send_all :: "Timestamp \<Rightarrow> int \<Rightarrow> SudokuClient list \<Rightarrow> SudokuClient list option" where
  "send_all now n [] = Some []"
| "send_all now n (c # cs) = do { c \<leftarrow> loadtest_send now n c; cs \<leftarrow> send_all now n cs; Some (c # cs) }"

definition tick :: "int \<Rightarrow> Timestamp \<Rightarrow> loadtest \<Rightarrow> loadtest option" where
  "tick rps now t = do {
     let t = t\<lparr>ticks := ticks t + 1\<rparr>;
     let reqs = c_div (rps * ticks t) kHz - sofar t;
     let t = t\<lparr>sofar := sofar t + reqs\<rparr>;
     if reqs > 0 then do { cs \<leftarrow> send_all now reqs (lt_clients t); Some (t\<lparr>lt_clients := cs\<rparr>) } else Some t
   }"

section \<open>The client of batch.cc\<close>

text \<open>The lines come from \<open>readInput\<close> and have at most 81 characters, so they fit the 4000 bytes of the \<open>LogStream\<close>.\<close>

record batch_client =
  bc_input :: "string list"
  bc_count :: int
  bc_sent :: "string list"
  bc_done :: nat
  bc_closing :: bool

definition batch_onConnection :: "bool \<Rightarrow> batch_client \<Rightarrow> batch_client" where
  "batch_onConnection up c =
     (if up
      then c\<lparr>bc_sent := bc_sent c @
             map (\<lambda>i. show_nat (i + 1) @ '':'' @ bc_input c ! i @ kCRLF) [0..<length (bc_input c)]\<rparr>
      else c)"

definition batch_onMessage :: "buffer \<Rightarrow> batch_client \<Rightarrow> (batch_client \<times> buffer) option" where
  "batch_onMessage buf c = do {
     (c, buf) \<leftarrow> request_loop (\<lambda>response c. Some (True, c\<lparr>bc_count := bc_count c + 1\<rparr>)) (\<lambda>_ c. c\<lparr>bc_closing := True\<rparr>) buf c;
     if bc_count c = int (length (bc_input c))
     then Some (c\<lparr>bc_done := bc_done c + 1, bc_closing := True\<rparr>, buf)
     else Some (c, buf)
   }"

section \<open>Requests in flight\<close>

text \<open>
  Every request ever sent is in one of three places: reported, among the latencies to report, or in the table of
  requests in flight. The table has one entry per number, and only numbers that were given out.
\<close>

definition client_inv :: "int \<Rightarrow> SudokuClient \<Rightarrow> bool" where
  "client_inv reported c \<longleftrightarrow>
     distinct (map fst (sendTime c)) \<and> fst ` set (sendTime c) \<subseteq> {0..<cl_count c} \<and> 0 \<le> cl_count c \<and>
     cl_count c = reported + int (length (latencies c)) + int (length (sendTime c))"

lemma length_update_fresh: "k \<notin> fst ` set al \<Longrightarrow> AList.update k v al = al @ [(k, v)]"
  by (induction al) auto

lemma length_delete_key:
  "distinct (map fst al) \<Longrightarrow> map_of al k = Some v \<Longrightarrow> Suc (length (AList.delete k al)) = length al"
proof (induction al)
  case (Cons a al)
  show ?case
  proof (cases "fst a = k")
    case True
    with Cons.prems have "AList.delete k al = al" by (auto simp: AList.delete_eq image_iff intro!: filter_True)
    with True show ?thesis by (cases a) simp
  next
    case False
    with Cons show ?thesis by (cases a) auto
  qed
qed simp

lemma send_loop_inv: "send_loop now n c = Some c' \<Longrightarrow> client_inv r c \<Longrightarrow> client_inv r c'"
proof (induction n arbitrary: c)
  case (Suc n)
  let ?c = "\<lambda>t. c\<lparr>cl_requests := cl_requests c @ t, sendTime := AList.update (cl_count c) now (sendTime c), cl_count := cl_count c + 1\<rparr>"
  have "cl_count c \<notin> fst ` set (sendTime c)" using Suc.prems(2) by (auto simp: client_inv_def)
  then have "client_inv r (?c t)" for t
    using Suc.prems(2) by (auto simp: client_inv_def length_update_fresh)
  then show ?case using Suc by (auto simp: Let_def split: if_splits)
qed simp

lemma client_inv_frame [simp]:
  "client_inv r (c\<lparr>cl_conn := u\<rparr>) = client_inv r c" "client_inv r (c\<lparr>cl_closing := u\<rparr>) = client_inv r c"
  "client_inv r (c\<lparr>cl_requests := t\<rparr>) = client_inv r c" "client_inv r (send_buffer c) = client_inv r c"
  by (simp_all add: client_inv_def send_buffer_def)

lemma pipeline_send_inv: "pipeline_send now n c = Some c' \<Longrightarrow> client_inv r c \<Longrightarrow> client_inv r c'"
  by (auto simp: pipeline_send_def Option.bind_eq_Some_conv dest!: send_loop_inv [where r = r])

lemma loadtest_send_inv: "loadtest_send now n c = Some c' \<Longrightarrow> client_inv r c \<Longrightarrow> client_inv r c'"
  by (auto simp: loadtest_send_def Option.bind_eq_Some_conv split: if_splits dest!: send_loop_inv [where r = r])

lemma client_inv_reply:
  assumes "client_inv r c" "map_of (sendTime c) i = Some t"
  shows "client_inv r (c\<lparr>latencies := latencies c @ [l], sendTime := AList.delete i (sendTime c)\<rparr>)"
proof -
  have d: "distinct (map fst (sendTime c))" using assms(1) by (simp add: client_inv_def)
  have "distinct (map fst (AList.delete i (sendTime c)))" using d by (rule AList.distinct_delete)
  moreover have "fst ` set (AList.delete i (sendTime c)) \<subseteq> fst ` set (sendTime c)" by (auto simp: AList.delete_eq)
  then have "fst ` set (AList.delete i (sendTime c)) \<subseteq> {0..<cl_count c}" using assms(1) unfolding client_inv_def by (meson order_trans)
  ultimately show ?thesis using assms(1) length_delete_key [OF d assms(2)] by (simp add: client_inv_def)
qed

lemma client_verify_inv: "client_inv r c \<Longrightarrow> client_inv r (snd (client_verify response time c))"
  by (auto simp: client_verify_def Let_def intro!: client_inv_reply split: option.splits)

text \<open>What the handler of a line keeps, the loop of \<open>onMessage\<close> keeps.\<close>

lemma request_loop_cases:
  assumes "(if readableBytes buf \<ge> kCells + 2 then
        (case findCRLF buf of
           Some crlf \<Rightarrow> do {
             let request = slice buf (peek buf) crlf;
             buf \<leftarrow> retrieveUntil buf (crlf + 2);
             (good, s) \<leftarrow> process request s;
             if good then loop process refuse buf s
             else Some (refuse (''Bad Request!'' @ kCRLF) s, buf)
           }
         | None \<Rightarrow>
             if readableBytes buf > 100 then Some (refuse (''Id too long!'' @ kCRLF) s, buf)
             else Some (s, buf))
      else Some (s, buf)) = Some y"
  obtains (stop) "fst y = s"
  | (long) m where "fst y = refuse m s"
  | (bad) l s' m where "process l s = Some (False, s')" "fst y = refuse m s'"
  | (again) l s' buf' where "process l s = Some (True, s')" "loop process refuse buf' s' = Some y"
  using assms by (auto simp: Let_def Option.bind_eq_Some_conv split: if_splits option.splits)

lemma request_loop_keeps:
  assumes "request_loop process refuse b s = Some y" "\<forall>l s g s'. process l s = Some (g, s') \<longrightarrow> P s \<longrightarrow> P s'"
    "\<forall>m s. P s \<longrightarrow> P (refuse m s)" "P s"
  shows "P (fst y)"
proof -
  let ?Q = "\<lambda>process refuse b s y. (\<forall>l s g s'. process l s = Some (g, s') \<longrightarrow> P s \<longrightarrow> P s') \<longrightarrow>
    (\<forall>m s. P s \<longrightarrow> P (refuse m s)) \<longrightarrow> P s \<longrightarrow> P (fst y)"
  from assms(1) have "?Q process refuse b s y"
  proof (rule request_loop.raw_induct [where P = ?Q, rotated], goal_cases)
    case (1 loop process refuse buf s y)
    from 1(2) show ?case
    proof (cases rule: request_loop_cases)
      case (again l s' buf')
      then show ?thesis using 1(1) [OF again(2)] by metis
    qed metis+
  qed
  then show ?thesis using assms(2-) by blast
qed

text \<open>The events of a client; \<open>R\<close> are the latencies reported so far.\<close>

inductive client_run :: "SudokuClient \<Rightarrow> int list \<Rightarrow> SudokuClient \<Rightarrow> bool" where
  start: "client_run (SudokuClient_new input name) [] (SudokuClient_new input name)"
| pipeline_connection: "client_run c0 R c \<Longrightarrow> pipeline_onConnection n now up c = Some c' \<Longrightarrow> client_run c0 R c'"
| pipeline_message: "client_run c0 R c \<Longrightarrow> pipeline_onMessage recv now b c = Some (c', b') \<Longrightarrow> client_run c0 R c'"
| loadtest_connection: "client_run c0 R c \<Longrightarrow> client_run c0 R (loadtest_onConnection up c)"
| loadtest_request: "client_run c0 R c \<Longrightarrow> loadtest_send now n c = Some c' \<Longrightarrow> client_run c0 R c'"
| loadtest_message: "client_run c0 R c \<Longrightarrow> loadtest_onMessage recv b c = Some (c', b') \<Longrightarrow> client_run c0 R c'"
| report: "client_run c0 R c \<Longrightarrow> client_report (R, 0) c = ((R', k), c') \<Longrightarrow> client_run c0 R' c'"

lemma pipeline_onMessage_inv:
  assumes "pipeline_onMessage recv now b c = Some (c', b')" "client_inv r c"
  shows "client_inv r c'"
proof -
  have "client_inv r (fst (c', b'))"
    using assms(1) unfolding pipeline_onMessage_def
  proof (rule request_loop_keeps [where P = "client_inv r"])
    show "\<forall>l c g c'. (let (good, c) = client_verify l recv c
        in if good then do { c \<leftarrow> pipeline_send now 1 c; Some (True, c) } else Some (False, c)) = Some (g, c') \<longrightarrow>
        client_inv r c \<longrightarrow> client_inv r c'"
    proof (intro allI impI)
      fix l :: string and c g c'
      assume "(let (good, c) = client_verify l recv c
        in if good then do { c \<leftarrow> pipeline_send now 1 c; Some (True, c) } else Some (False, c)) = Some (g, c')" "client_inv r c"
      then show "client_inv r c'"
        using client_verify_inv [of r c l recv] pipeline_send_inv [of now 1 "snd (client_verify l recv c)" c' r]
        by (cases "client_verify l recv c") (auto simp: Option.bind_eq_Some_conv split: if_splits)
    qed
  qed (simp_all add: assms(2))
  then show ?thesis by simp
qed

lemma loadtest_onMessage_inv:
  assumes "loadtest_onMessage recv b c = Some (c', b')" "client_inv r c"
  shows "client_inv r c'"
proof -
  have "client_inv r (fst (c', b'))"
    using assms(1) unfolding loadtest_onMessage_def
  proof (rule request_loop_keeps [where P = "client_inv r"])
    show "\<forall>l c g c'. Some (client_verify l recv c) = Some (g, c') \<longrightarrow> client_inv r c \<longrightarrow> client_inv r c'"
      using client_verify_inv by (metis option.inject snd_conv)
  qed (simp_all add: assms(2))
  then show ?thesis by simp
qed

text \<open>Whatever the server sends, no request is lost and none is counted twice.\<close>

theorem requests_accounted: "client_run c0 R c \<Longrightarrow> client_inv (int (length R)) c"
proof (induction rule: client_run.induct)
  case (start input name)
  show ?case by (simp add: SudokuClient_new_def client_inv_def)
next
  case (pipeline_connection c0 R c n now up c')
  then show ?case by (auto simp: pipeline_onConnection_def split: if_splits dest: pipeline_send_inv [where r = "int (length R)"])
next
  case (report c0 R c R' k c')
  then have "R' = R @ latencies c" "c' = c\<lparr>latencies := []\<rparr>" by (simp_all add: client_report_def)
  moreover have "client_inv (int (length R)) c" by (rule report.IH)
  ultimately show ?case unfolding client_inv_def by (elim conjE) (intro conjI, simp_all only: length_append of_nat_add, simp_all)
qed (auto simp: loadtest_onConnection_def intro: pipeline_onMessage_inv loadtest_onMessage_inv loadtest_send_inv)

section \<open>Replies\<close>

text \<open>
  A reply to a request starts with the text \<open>name-number\<close> of the request, and \<open>verify\<close> reads the number back.
\<close>

lemma read_client_id:
  assumes "0 \<le> i"
  shows "atol (show_int0 8 i @ CHR '':'' # rest) = i"
proof -
  let ?d = "show_int0 8 i"
  have d: "?d = replicate (8 - length (show_nat (nat i))) (CHR ''0'') @ show_nat (nat i)"
    using assms by (simp add: show_int0_def pad_left_def)
  then have "?d \<noteq> []" "\<forall>c\<in>set ?d. is_digit c" using show_nat_digits by (auto simp: is_digit_def)
  then have "atol (?d @ CHR '':'' # rest) = int (read_nat 0 ?d)" by (rule atol_digits) (simp add: is_digit_def)
  then show ?thesis using assms by (simp add: d read_nat_zeroes)
qed

lemma digits_no_mark: "0 \<le> i \<Longrightarrow> CHR '':'' \<notin> set (show_int0 8 i)"
  using show_nat_digits [of "CHR '':''" "nat i"] by (auto simp: show_int0_def pad_left_def is_digit_def)

lemma verify_known:
  assumes "0 \<le> i" "CHR ''-'' \<notin> set name" "CHR '':'' \<notin> set name" "map_of (sendTime c) i = Some t"
  shows "client_verify (name @ ''-'' @ show_int0 8 i @ '':'' @ result) recv c =
    (True, c\<lparr>latencies := latencies c @ [to_int (microSecondsSinceEpoch recv - microSecondsSinceEpoch t)],
             sendTime := AList.delete i (sendTime c)\<rparr>)"
proof -
  have "find_char (CHR ''-'') (name @ CHR ''-'' # show_int0 8 i @ CHR '':'' # result) = Some (length name)"
    using assms(2) by simp
  moreover have "find_char (CHR '':'') ((name @ CHR ''-'' # show_int0 8 i) @ CHR '':'' # result) =
      Some (length (name @ CHR ''-'' # show_int0 8 i))"
    using assms(3) digits_no_mark [OF assms(1)] by (intro find_char_append) auto
  ultimately show ?thesis using assms(4) read_client_id [OF assms(1)] by (simp add: client_verify_def)
qed

text \<open>
  The pipeline client keeps its window: a reply to a request in flight is answered with exactly one new request.
\<close>

lemma pipeline_window:
  assumes "client_inv r c" "map_of (sendTime c) i = Some t" "pipeline_send now 1 (c\<lparr>latencies := l, sendTime := AList.delete i (sendTime c)\<rparr>) = Some c'"
  shows "length (sendTime c') = length (sendTime c) \<and> cl_count c' = cl_count c + 1"
proof -
  have d: "distinct (map fst (sendTime c))" and k: "cl_count c \<notin> fst ` set (AList.delete i (sendTime c))"
    using assms(1) by (auto simp: client_inv_def AList.delete_eq)
  show ?thesis
    using assms(3) length_delete_key [OF d assms(2)] length_update_fresh [OF k]
    by (auto simp: pipeline_send_def send_buffer_def Let_def Option.bind_eq_Some_conv)
qed

text \<open>
  But the clients read a reply only when 83 bytes have come, and the reply to a puzzle with no solution is shorter. With
  one request in flight the client waits for a reply that is already in its buffer, and sends no more; the batch client
  does not finish if its last reply is such a reply.
\<close>

theorem short_reply_stalls:
  assumes "buf_inv b" "content b = reply_text (name @ ''-'' @ show_int0 8 i) ''NoSolution''" "length name \<le> 40" "length (show_int0 8 i) \<le> 20"
  shows "pipeline_onMessage recv now b c = Some (c, b)" "loadtest_onMessage recv b c = Some (c, b)"
    "bc_count bc \<noteq> int (length (bc_input bc)) \<Longrightarrow> batch_onMessage b bc = Some (bc, b)"
proof -
  have "length (content b) < kCells + 2" using assms by (simp add: reply_text_def kCells_def kCRLF_def)
  then have "readableBytes b < kCells + 2" using assms(1) by simp
  then show "pipeline_onMessage recv now b c = Some (c, b)" "loadtest_onMessage recv b c = Some (c, b)"
    "bc_count bc \<noteq> int (length (bc_input bc)) \<Longrightarrow> batch_onMessage b bc = Some (bc, b)"
    by (simp_all add: pipeline_onMessage_def loadtest_onMessage_def batch_onMessage_def request_loop_short)
qed

text \<open>If all the puzzles have solutions, the batch client finishes when the last reply is there.\<close>

lemma run_lines_count:
  "run_lines (\<lambda>response c. Some (True, c\<lparr>bc_count := bc_count c + 1\<rparr>)) ls bc = Some (bc\<lparr>bc_count := bc_count bc + int (length ls)\<rparr>)"
  by (induction ls arbitrary: bc) simp_all

theorem batch_finishes:
  assumes "buf_inv b" "content b = concat (map wire ls)" "\<forall>l\<in>set ls. line_ok l" "bc_count bc + int (length ls) = int (length (bc_input bc))"
  shows "\<exists>b'. batch_onMessage b bc =
    Some (bc\<lparr>bc_count := bc_count bc + int (length ls), bc_done := bc_done bc + 1, bc_closing := True\<rparr>, b') \<and> content b' = []"
proof -
  let ?p = "\<lambda>(response :: string) c. Some (True, c\<lparr>bc_count := bc_count c + 1\<rparr>)"
  obtain b' where "request_loop ?p (\<lambda>_ c. c\<lparr>bc_closing := True\<rparr>) b bc = Some (bc\<lparr>bc_count := bc_count bc + int (length ls)\<rparr>, b')"
      "content b' = []"
    using request_loop_lines [of b ls "[]" ?p bc _ "\<lambda>_ c. c\<lparr>bc_closing := True\<rparr>", OF assms(1) _ assms(3) _ _ run_lines_count]
      assms(2) by (auto simp: kCRLF_def)
  then show ?thesis using assms(4) by (simp add: batch_onMessage_def)
qed

section \<open>The rate\<close>

text \<open>After every tick the number of requests is the rate times the time, rounded down: rounding errors do not add up.\<close>

lemma send_loop_count: "send_loop now n c = Some c' \<Longrightarrow> cl_count c' = cl_count c + int n \<and> cl_conn c' = cl_conn c"
proof (induction n arbitrary: c)
  case (Suc n)
  then show ?case by (auto simp: Let_def split: if_splits dest!: Suc.IH)
qed simp

lemma loadtest_send_count:
  assumes "loadtest_send now n c = Some c'" "cl_conn c"
  shows "cl_count c' = cl_count c + n \<and> cl_conn c'"
  using assms by (auto simp: loadtest_send_def send_buffer_def Option.bind_eq_Some_conv dest!: send_loop_count)

lemma send_all_count:
  "send_all now n cs = Some cs' \<Longrightarrow> \<forall>c\<in>set cs. cl_conn c \<and> cl_count c = k \<Longrightarrow> \<forall>c\<in>set cs'. cl_conn c \<and> cl_count c = k + n"
proof (induction cs arbitrary: cs')
  case (Cons c cs)
  then show ?case by (auto simp: Option.bind_eq_Some_conv dest!: loadtest_send_count)
qed simp

theorem tick_rate:
  assumes "tick rps now t = Some t'" "0 \<le> rps" "0 \<le> ticks t" "sofar t = rps * ticks t div kHz"
    "\<forall>c\<in>set (lt_clients t). cl_conn c \<and> cl_count c = sofar t"
  shows "ticks t' = ticks t + 1" "sofar t' = rps * ticks t' div kHz" "\<forall>c\<in>set (lt_clients t'). cl_conn c \<and> cl_count c = sofar t'"
proof -
  let ?n = "rps * (ticks t + 1) div kHz - sofar t"
  have "rps * ticks t div kHz \<le> rps * (ticks t + 1) div kHz"
    using assms(2) by (intro zdiv_mono1) (simp_all add: kHz_def algebra_simps)
  then have n: "0 \<le> ?n" using assms(4) by simp
  have q: "c_div (rps * (ticks t + 1)) kHz = rps * (ticks t + 1) div kHz" using assms(2,3) by (simp add: kHz_def)
  have "ticks t' = ticks t + 1 \<and> sofar t' = rps * (ticks t + 1) div kHz \<and>
      (\<forall>c\<in>set (lt_clients t'). cl_conn c \<and> cl_count c = sofar t')"
  proof (cases "?n = 0")
    case True
    then show ?thesis using assms(1,5) q by (auto simp: tick_def Let_def)
  next
    case False
    then obtain cs where "send_all now ?n (lt_clients t) = Some cs"
        "t' = t\<lparr>ticks := ticks t + 1, sofar := sofar t + ?n, lt_clients := cs\<rparr>"
      using assms(1) q n by (auto simp: tick_def Let_def Option.bind_eq_Some_conv)
    then show ?thesis using send_all_count [OF _ assms(5)] by simp
  qed
  then show "ticks t' = ticks t + 1" "sofar t' = rps * ticks t' div kHz" "\<forall>c\<in>set (lt_clients t'). cl_conn c \<and> cl_count c = sofar t'"
    by simp_all
qed

end
