(* ===== verification/ImServer.thy ===== *)
theory ImServer
  imports Prelude
begin

text \<open>
  The instant messaging server of \<open>src/excercises/chatServer\<close>: the class \<open>MysqlConnection\<close>
  (\<open>mysql_connection.h\<close>, \<open>mysql_connection.cc\<close>), the handlers of \<open>ChatServer\<close> (\<open>server_threaded.cc\<close>) with
  their maps of users, groups and message counts, and the commands of the client (\<open>client.cc\<close>).

  The libraries are parameters: a \<open>backend\<close> holds what the MySQL client answers to a statement, what the Redis
  commands return and how protobuf writes a private message. \<open>backend_ok\<close> states what their documentation says of
  lists and of parsing. A handler returns the messages it sends and the new state; the state is \<^term>\<open>None\<close> when
  the process runs into a null pointer, an access out of range or a second \<open>freeReplyObject\<close> of the same reply,
  and the messages are those sent before that.
\<close>

section \<open>The database connection\<close>

text \<open>The outcome of \<open>mysql_query\<close> with \<open>mysql_store_result\<close> and \<open>mysql_field_count\<close>: an error, a result set, a
  statement with no result set, or a result set that could not be read. A field is \<^term>\<open>None\<close> for \<open>NULL\<close>.\<close>

datatype sql_reply = Sql_error | Sql_rows "string option list list" | Sql_none | Sql_lost

record 'db mysql_conn =
  m_mysql :: 'db
  m_result :: "string option list list option"
  m_connected :: bool
  m_closed :: bool

definition MysqlConnection_new :: "'db \<Rightarrow> 'db mysql_conn" where
  "MysqlConnection_new db = \<lparr>m_mysql = db, m_result = None, m_connected = False, m_closed = False\<rparr>"

definition have_escape_char :: "string \<Rightarrow> bool" where
  "have_escape_char data = list_ex (\<lambda>c. of_char c < (128 :: nat) \<and>
     (of_char c < (36 :: nat) \<or> of_char c \<in> {37, 38, 39, 60, 62 :: nat})) data"

text \<open>\<open>connect\<close> is \<open>mysql_real_connect\<close> with the host, the port and the socket file it is given.\<close>

definition mysql_init_conn :: "(string option \<Rightarrow> int \<Rightarrow> string option \<Rightarrow> 'db \<Rightarrow> bool \<times> 'db) \<Rightarrow> string \<Rightarrow> int \<Rightarrow> 'db mysql_conn \<Rightarrow> int \<times> 'db mysql_conn" where
  "mysql_init_conn connect host port m =
     (let (up, db) = (if CHR ''/'' \<notin> set host then connect (Some host) port None (m_mysql m) else connect None 0 (Some host) (m_mysql m))
      in (if up then 0 else - 1, m\<lparr>m_mysql := db, m_connected := True\<rparr>))"

definition mysql_use :: "(string \<Rightarrow> 'db \<Rightarrow> int \<times> 'db) \<Rightarrow> string \<Rightarrow> 'db mysql_conn \<Rightarrow> int \<times> 'db mysql_conn" where
  "mysql_use select_db dbname m =
     (if \<not> m_connected m then (- 1, m) else let (r, db) = select_db dbname (m_mysql m) in (r, m\<lparr>m_mysql := db\<rparr>))"

definition free_result :: "'db mysql_conn \<Rightarrow> 'db mysql_conn" where
  "free_result m = m\<lparr>m_result := None\<rparr>"

definition mysql_fini :: "'db mysql_conn \<Rightarrow> 'db mysql_conn" where
  "mysql_fini m = (if \<not> m_connected m then (free_result m)\<lparr>m_closed := True, m_connected := False\<rparr> else m)"

definition mysql_exec :: "(string \<Rightarrow> 'db \<Rightarrow> sql_reply \<times> 'db) \<Rightarrow> string \<Rightarrow> 'db mysql_conn \<Rightarrow> int \<times> 'db mysql_conn" where
  "mysql_exec query sql m =
     (if \<not> m_connected m then (- 1, m)
      else case query sql (m_mysql m) of
          (Sql_error, db) \<Rightarrow> (- 1, m\<lparr>m_mysql := db\<rparr>)
        | (Sql_lost, db) \<Rightarrow> (- 1, m\<lparr>m_mysql := db\<rparr>)
        | (Sql_none, db) \<Rightarrow> (0, m\<lparr>m_mysql := db, m_result := None\<rparr>)
        | (Sql_rows rows, db) \<Rightarrow> (0, m\<lparr>m_mysql := db, m_result := Some rows\<rparr>))"

text \<open>\<open>exec_format\<close>, given the text that the format and its arguments make.\<close>

definition exec_format :: "(string \<Rightarrow> 'db \<Rightarrow> sql_reply \<times> 'db) \<Rightarrow> string \<Rightarrow> 'db mysql_conn \<Rightarrow> int \<times> 'db mysql_conn" where
  "exec_format query text m = (if length text < 1 then (- 1, m) else mysql_exec query (take 4093 text) m)"

definition result_row_count :: "'db mysql_conn \<Rightarrow> nat" where
  "result_row_count m = (case m_result m of None \<Rightarrow> 0 | Some rows \<Rightarrow> length rows)"

definition result_row_data :: "nat \<Rightarrow> 'db mysql_conn \<Rightarrow> string option list option" where
  "result_row_data rowno m =
     (case m_result m of None \<Rightarrow> None | Some rows \<Rightarrow> if rowno < length rows then Some (rows ! rowno) else None)"

section \<open>Messages and state of the server\<close>

datatype im_message =
    SignUp string string | Login int string | CreateGroup int | AddGroup int | GMessage int string
  | PMessage int int string | Success int | Quit int | Failure int string | Empty

datatype UserStaus = Offline | Away | Idle | Online | Busy

primrec status_num :: "UserStaus \<Rightarrow> int" where
  "status_num Offline = 0" | "status_num Away = 1" | "status_num Idle = 2" | "status_num Online = 3" | "status_num Busy = 4"

text \<open>\<open>llen\<close>, \<open>lrange\<close> and \<open>lpush\<close> are the Redis commands on the list of a user, \<^term>\<open>None\<close> being a null reply.\<close>

record ('db, 'r) backend =
  query :: "string \<Rightarrow> 'db \<Rightarrow> sql_reply \<times> 'db"
  llen :: "int \<Rightarrow> 'r \<Rightarrow> int option"
  lrange :: "int \<Rightarrow> int \<Rightarrow> int \<Rightarrow> 'r \<Rightarrow> bytes list option"
  lpush :: "int \<Rightarrow> bytes \<Rightarrow> 'r \<Rightarrow> 'r"
  serialize :: "im_message \<Rightarrow> bytes"
  parse_pm :: "bytes \<Rightarrow> im_message"

text \<open>A user may have an entry with a null connection, which \<open>operator[]\<close> leaves behind.\<close>

record ('db, 'r) im_server =
  userconnections :: "int \<rightharpoonup> nat option"
  groupconnections :: "(int \<times> nat) list"
  lastestRecord :: "int \<rightharpoonup> int"
  mysql :: "'db mysql_conn"
  redis :: 'r

type_synonym ('db, 'r) im_result = "(nat \<times> im_message) list \<times> ('db, 'r) im_server option"

definition ImServer_new :: "'db \<Rightarrow> 'r \<Rightarrow> ('db, 'r) im_server" where
  "ImServer_new db r = \<lparr>userconnections = Map.empty, groupconnections = [], lastestRecord = Map.empty,
     mysql = MysqlConnection_new db, redis = r\<rparr>"

definition initMysql :: "(string option \<Rightarrow> int \<Rightarrow> string option \<Rightarrow> 'db \<Rightarrow> bool \<times> 'db) \<Rightarrow> (string \<Rightarrow> 'db \<Rightarrow> int \<times> 'db)
    \<Rightarrow> string \<Rightarrow> string \<Rightarrow> int \<Rightarrow> ('db, 'r) im_server \<Rightarrow> int \<times> ('db, 'r) im_server" where
  "initMysql connect select_db host db port s =
     (let (r, m) = mysql_init_conn connect host port (mysql s)
      in if r \<noteq> 0 then (- 1, s\<lparr>mysql := m\<rparr>) else (0, s\<lparr>mysql := snd (mysql_use select_db db m)\<rparr>))"

text \<open>The statements; \<open>c_str\<close> ends a string at its first null byte.\<close>

definition c_str :: "string \<Rightarrow> string" where
  "c_str s = takeWhile (\<lambda>c. c \<noteq> CHR 0x00) s"

definition insert_text :: "string \<Rightarrow> string \<Rightarrow> string" where
  "insert_text name passwd = ''INSERT INTO userinfo(user_name, password) VALUES('' @ [CHR 0x27] @ c_str name @ [CHR 0x27]
     @ '', '' @ [CHR 0x27] @ c_str passwd @ [CHR 0x27] @ '')''"

definition select_text :: "int \<Rightarrow> string" where
  "select_text uid = ''SELECT password FROM userinfo WHERE user_id = '' @ [CHR 0x27] @ show_int uid @ [CHR 0x27]"

definition update_text :: "string \<Rightarrow> UserStaus \<Rightarrow> int \<Rightarrow> string" where
  "update_text field st uid = ''UPDATE userinfo SET '' @ field @ '' = '' @ [CHR 0x27] @ show_int (status_num st) @ [CHR 0x27]
     @ '' WHERE user_id = '' @ [CHR 0x27] @ show_int uid @ [CHR 0x27]"

section \<open>The handlers\<close>

definition onSignUp :: "('db, 'r) backend \<Rightarrow> ('db, 'r) im_server \<Rightarrow> nat \<Rightarrow> string \<Rightarrow> string \<Rightarrow> ('db, 'r) im_result" where
  "onSignUp B s conn name passwd =
     (let m = snd (exec_format (query B) (insert_text name passwd) (mysql s));
          m = snd (mysql_exec (query B) ''SELECT last_insert_id()'' m)
      in case result_row_data 0 m of
           Some (Some str # _) \<Rightarrow>
             (let uid = atol str;
                  s = s\<lparr>mysql := m,
                    userconnections := (if uid \<in> dom (userconnections s) then userconnections s else (userconnections s)(uid \<mapsto> Some conn)),
                    lastestRecord := (if uid \<in> dom (lastestRecord s) then lastestRecord s else (lastestRecord s)(uid \<mapsto> 0))\<rparr>
              in ([(conn, Success uid)], Some s))
         | _ \<Rightarrow> ([], None))"

text \<open>Freeing a reply that is no longer allocated is undefined.\<close>

definition freeReplyObject :: "bool \<Rightarrow> bool option" where
  "freeReplyObject allocated = (if allocated then Some False else None)"

definition onLogin :: "('db, 'r) backend \<Rightarrow> ('db, 'r) im_server \<Rightarrow> nat \<Rightarrow> int \<Rightarrow> string \<Rightarrow> ('db, 'r) im_result" where
  "onLogin B s conn uid passwd =
     (let m = snd (exec_format (query B) (select_text uid) (mysql s))
      in case result_row_data 0 m of
           Some (Some pwd # _) \<Rightarrow>
             if pwd = passwd then
               (let m = snd (exec_format (query B) (update_text ''status'' Online uid) m);
                    lastestIndex = (case lastestRecord s uid of Some n \<Rightarrow> n | None \<Rightarrow> 0);
                    s = s\<lparr>mysql := m, lastestRecord := (lastestRecord s)(uid \<mapsto> lastestIndex)\<rparr>
                in case llen B uid (redis s) of
                     None \<Rightarrow> ([], None)
                   | Some currentIndex \<Rightarrow>
                       (case lrange B uid lastestIndex (- 1) (redis s) of
                          None \<Rightarrow> ([], do {
                            reply \<leftarrow> freeReplyObject True;
                            Some (s\<lparr>userconnections := (userconnections s)(uid \<mapsto> Some conn)\<rparr>)
                          })
                        | Some elements \<Rightarrow>
                            (let count = nat (currentIndex - lastestIndex)
                             in (map (\<lambda>e. (conn, parse_pm B e)) (take count elements), do {
                               reply \<leftarrow> freeReplyObject True;
                               ensure (count \<le> length elements);
                               reply \<leftarrow> freeReplyObject reply;
                               Some (s\<lparr>userconnections := (userconnections s)(uid \<mapsto> Some conn)\<rparr>)
                             }))))
             else ([], Some (s\<lparr>mysql := m\<rparr>))
         | _ \<Rightarrow> ([], None))"

definition onQuit :: "('db, 'r) backend \<Rightarrow> ('db, 'r) im_server \<Rightarrow> int \<Rightarrow> ('db, 'r) im_result" where
  "onQuit B s uid =
     (let s = s\<lparr>mysql := snd (exec_format (query B) (update_text ''status'' Offline uid) (mysql s))\<rparr>
      in ([], Some (case llen B uid (redis s) of
                      None \<Rightarrow> s
                    | Some n \<Rightarrow> s\<lparr>lastestRecord := (lastestRecord s)(uid \<mapsto> n)\<rparr>)))"

definition onPMessage :: "('db, 'r) backend \<Rightarrow> ('db, 'r) im_server \<Rightarrow> nat \<Rightarrow> int \<Rightarrow> int \<Rightarrow> string \<Rightarrow> ('db, 'r) im_result" where
  "onPMessage B s conn uid peerId content =
     (let message = PMessage uid peerId content;
          peer = (case userconnections s peerId of Some c \<Rightarrow> c | None \<Rightarrow> None);
          out = (case peer of Some c \<Rightarrow> [(c, message), (conn, Success uid)] | None \<Rightarrow> [])
      in (out, Some (s\<lparr>userconnections := (userconnections s)(peerId \<mapsto> peer), redis := lpush B peerId (serialize B message) (redis s)\<rparr>)))"

definition onGMessage :: "('db, 'r) im_server \<Rightarrow> int \<Rightarrow> string \<Rightarrow> ('db, 'r) im_result" where
  "onGMessage s gid content = (map (\<lambda>(g, c). (c, GMessage gid content)) (groupconnections s), Some s)"

definition onCreateGroup :: "('db, 'r) im_server \<Rightarrow> nat \<Rightarrow> int \<Rightarrow> ('db, 'r) im_result" where
  "onCreateGroup s conn gid = ([], Some (s\<lparr>groupconnections := groupconnections s @ [(gid, conn)]\<rparr>))"

definition onAddGroup :: "('db, 'r) im_server \<Rightarrow> nat \<Rightarrow> int \<Rightarrow> ('db, 'r) im_result" where
  "onAddGroup s conn gid = ([], Some (s\<lparr>groupconnections := groupconnections s @ [(gid, conn)]\<rparr>))"

text \<open>The callbacks that the constructor registers with the dispatcher; other messages go to \<open>onUnknownMessage\<close>.\<close>

fun im_dispatch :: "('db, 'r) backend \<Rightarrow> ('db, 'r) im_server \<Rightarrow> nat \<Rightarrow> im_message \<Rightarrow> ('db, 'r) im_result" where
  "im_dispatch B s conn (SignUp name passwd) = onSignUp B s conn name passwd"
| "im_dispatch B s conn (Login uid passwd) = onLogin B s conn uid passwd"
| "im_dispatch B s conn (PMessage uid peer content) = onPMessage B s conn uid peer content"
| "im_dispatch B s conn (GMessage gid content) = onGMessage s gid content"
| "im_dispatch B s conn (Quit uid) = onQuit B s uid"
| "im_dispatch B s conn (CreateGroup gid) = onCreateGroup s conn gid"
| "im_dispatch B s conn (AddGroup gid) = onAddGroup s conn gid"
| "im_dispatch B s conn m = ([], Some s)"

fun im_run :: "('db, 'r) backend \<Rightarrow> ('db, 'r) im_server \<Rightarrow> (nat \<times> im_message) list \<Rightarrow> ('db, 'r) im_result" where
  "im_run B s [] = ([], Some s)"
| "im_run B s ((conn, m) # ms) =
     (case im_dispatch B s conn m of
        (out, None) \<Rightarrow> (out, None)
      | (out, Some s) \<Rightarrow> (let (out', r) = im_run B s ms in (out @ out', r)))"

section \<open>What the libraries promise\<close>

text \<open>
  \<open>rl\<close> are the lists of a Redis store: \<open>LLEN\<close> is the length, \<open>LRANGE k a -1\<close> all elements from index \<open>a\<close> on and
  \<open>LPUSH\<close> puts an element at the front. Parsing what has been serialized gives the message back.
\<close>

definition backend_ok :: "('db, 'r) backend \<Rightarrow> ('r \<Rightarrow> int \<Rightarrow> bytes list) \<Rightarrow> bool" where
  "backend_ok B rl \<longleftrightarrow>
     (\<forall>k r. llen B k r = Some (int (length (rl r k)))) \<and>
     (\<forall>k a r. 0 \<le> a \<longrightarrow> lrange B k a (- 1) r = Some (drop (nat a) (rl r k))) \<and>
     (\<forall>k x r. rl (lpush B k x r) = (rl r)(k := x # rl r k)) \<and>
     (\<forall>a b t. parse_pm B (serialize B (PMessage a b t)) = PMessage a b t)"

text \<open>The private messages to a user, among messages received or sent.\<close>

primrec to_user :: "int \<Rightarrow> im_message \<Rightarrow> bool" where
  "to_user u (SignUp n p) = False" | "to_user u (Login i p) = False" | "to_user u (CreateGroup g) = False"
| "to_user u (AddGroup g) = False" | "to_user u (GMessage g t) = False" | "to_user u (PMessage a b t) = (b = u)"
| "to_user u (Success i) = False" | "to_user u (Quit i) = False" | "to_user u (Failure i t) = False" | "to_user u Empty = False"

definition pms :: "int \<Rightarrow> (nat \<times> im_message) list \<Rightarrow> im_message list" where
  "pms u ms = filter (to_user u) (map snd ms)"

lemma pms_simps [simp]: "pms u [] = []" "pms u ((c, m) # ms) = (if to_user u m then m # pms u ms else pms u ms)"
  "pms u (ms @ ms') = pms u ms @ pms u ms'"
  by (simp_all add: pms_def)

lemma backend_okD:
  assumes "backend_ok B rl"
  shows "llen B k r = Some (int (length (rl r k)))" "0 \<le> a \<Longrightarrow> lrange B k a (- 1) r = Some (drop (nat a) (rl r k))"
    "rl (lpush B k x r) = (rl r)(k := x # rl r k)" "to_user u m \<Longrightarrow> parse_pm B (serialize B m) = m"
  using assms by (auto simp: backend_ok_def) (cases m; simp)

lemma im_run_Cons_Some:
  "im_run B s ((c, m) # ms) = (out, Some s') \<longleftrightarrow>
   (\<exists>o1 s1 o2. im_dispatch B s c m = (o1, Some s1) \<and> im_run B s1 ms = (o2, Some s') \<and> out = o1 @ o2)"
  by (auto split: prod.splits option.splits)

lemma im_run_append:
  "im_run B s (ms @ ms') = (out, Some s') \<longleftrightarrow>
   (\<exists>o1 s1 o2. im_run B s ms = (o1, Some s1) \<and> im_run B s1 ms' = (o2, Some s') \<and> out = o1 @ o2)"
proof (induction ms arbitrary: s out)
  case (Cons a ms)
  obtain c m where a: "a = (c, m)" by fastforce
  show ?case unfolding a append_Cons im_run_Cons_Some Cons.IH by fastforce
qed simp

lemma onSignUp_cases:
  assumes "onSignUp B s c name passwd = (out, Some s')"
  obtains uid m where "out = [(c, Success uid)]" "s' = s\<lparr>mysql := m,
      userconnections := (if uid \<in> dom (userconnections s) then userconnections s else (userconnections s)(uid \<mapsto> Some c)),
      lastestRecord := (if uid \<in> dom (lastestRecord s) then lastestRecord s else (lastestRecord s)(uid \<mapsto> 0))\<rparr>"
  using assms by (auto simp: onSignUp_def Let_def split: option.splits list.splits)

text \<open>A login that finds the password and reaches a Redis server does not return.\<close>

lemma onLogin_cases:
  assumes "backend_ok B rl" "onLogin B s c uid passwd = (out, Some s')" "\<forall>n. lastestRecord s uid = Some n \<longrightarrow> 0 \<le> n"
  shows "out = [] \<and> (\<exists>m. s' = s\<lparr>mysql := m\<rparr>)"
  using assms(2,3) backend_okD(1,2) [OF assms(1)]
  by (auto simp: onLogin_def Let_def freeReplyObject_def split: option.splits list.splits if_splits)

section \<open>What is stored\<close>

definition record_ok :: "('db, 'r) im_server \<Rightarrow> bool" where
  "record_ok s \<longleftrightarrow> (\<forall>u n. lastestRecord s u = Some n \<longrightarrow> 0 \<le> n)"

lemma im_dispatch_stored:
  assumes ok: "backend_ok B rl" "record_ok s" and d: "im_dispatch B s c m = (out, Some s')"
  shows "record_ok s'" "rl (redis s') u = (if to_user u m then [serialize B m] else []) @ rl (redis s) u"
    "lastestRecord s u = Some n \<Longrightarrow> m \<noteq> Quit u \<Longrightarrow> lastestRecord s' u = Some n"
    "m = Quit u \<Longrightarrow> lastestRecord s' u = Some (int (length (rl (redis s) u)))"
proof -
  have "record_ok s' \<and> rl (redis s') u = (if to_user u m then [serialize B m] else []) @ rl (redis s) u \<and>
    (\<forall>n. lastestRecord s u = Some n \<longrightarrow> m \<noteq> Quit u \<longrightarrow> lastestRecord s' u = Some n) \<and>
    (m = Quit u \<longrightarrow> lastestRecord s' u = Some (int (length (rl (redis s) u))))"
  proof (cases m)
    case (SignUp name passwd)
    then have "onSignUp B s c name passwd = (out, Some s')" using d by simp
    then show ?thesis by (rule onSignUp_cases) (use ok SignUp in \<open>auto simp: record_ok_def\<close>)
  next
    case (Login uid passwd)
    then have "onLogin B s c uid passwd = (out, Some s')" using d by simp
    then show ?thesis using onLogin_cases [OF ok(1)] ok(2) Login by (fastforce simp: record_ok_def)
  qed (use d ok backend_okD(1,3) [OF ok(1)] in \<open>auto simp: record_ok_def onPMessage_def onQuit_def onGMessage_def
      onCreateGroup_def onAddGroup_def Let_def split: if_splits\<close>)
  then show "record_ok s'" "rl (redis s') u = (if to_user u m then [serialize B m] else []) @ rl (redis s) u"
    "lastestRecord s u = Some n \<Longrightarrow> m \<noteq> Quit u \<Longrightarrow> lastestRecord s' u = Some n"
    "m = Quit u \<Longrightarrow> lastestRecord s' u = Some (int (length (rl (redis s) u)))" by auto
qed

lemma im_run_stored:
  assumes ok: "backend_ok B rl"
  shows "record_ok s \<Longrightarrow> im_run B s ms = (out, Some s') \<Longrightarrow>
    record_ok s' \<and> rl (redis s') u = rev (map (serialize B) (pms u ms)) @ rl (redis s) u"
proof (induction ms arbitrary: s out)
  case (Cons a ms)
  obtain c m where a: "a = (c, m)" by fastforce
  obtain o1 s1 o2 where r: "im_dispatch B s c m = (o1, Some s1)" "im_run B s1 ms = (o2, Some s')"
    using Cons.prems(2) unfolding a im_run_Cons_Some by blast
  from Cons.IH [OF im_dispatch_stored(1) [OF ok Cons.prems(1) r(1)] r(2)] im_dispatch_stored(2) [OF ok Cons.prems(1) r(1), of u] a
  show ?case by simp
qed simp

lemma im_run_record:
  assumes ok: "backend_ok B rl"
  shows "record_ok s \<Longrightarrow> im_run B s ms = (out, Some s') \<Longrightarrow> \<forall>(c, m)\<in>set ms. m \<noteq> Quit u \<Longrightarrow> lastestRecord s u = Some n \<Longrightarrow>
    lastestRecord s' u = Some n"
proof (induction ms arbitrary: s out)
  case (Cons a ms)
  obtain c m where a: "a = (c, m)" by fastforce
  obtain o1 s1 o2 where r: "im_dispatch B s c m = (o1, Some s1)" "im_run B s1 ms = (o2, Some s')"
    using Cons.prems(2) unfolding a im_run_Cons_Some by blast
  have "lastestRecord s1 u = Some n" using im_dispatch_stored(3) [OF ok Cons.prems(1) r(1)] Cons.prems(3,4) a by simp
  with Cons.IH [OF im_dispatch_stored(1) [OF ok Cons.prems(1) r(1)] r(2)] Cons.prems(3) show ?case by simp
qed simp

text \<open>A concrete backend: a database that knows one password, lists in a function, numbers in unary.\<close>

definition enc_int :: "int \<Rightarrow> string" where
  "enc_int i = (if i < 0 then CHR ''-'' else CHR ''+'') # replicate (nat \<bar>i\<bar>) (CHR ''1'')"

definition dec_int :: "string \<Rightarrow> int" where
  "dec_int s = (case s of c # cs \<Rightarrow> if c = CHR ''-'' then - int (length cs) else int (length cs) | [] \<Rightarrow> 0)"

definition sample_backend :: "(nat, int \<Rightarrow> bytes list) backend" where
  "sample_backend = \<lparr>
     query = (\<lambda>sql db. if sql = ''SELECT last_insert_id()'' then (Sql_rows [[Some ''7'']], db)
                       else if take 6 sql = ''SELECT'' then (Sql_rows [[Some ''pw'']], db) else (Sql_none, db + 1)),
     llen = (\<lambda>k r. Some (int (length (r k)))),
     lrange = (\<lambda>k a b r. Some (drop (nat a) (r k))),
     lpush = (\<lambda>k x r. r(k := x # r k)),
     serialize = (\<lambda>m. case m of PMessage a b t \<Rightarrow> enc_int a @ '' '' @ enc_int b @ '' '' @ t | _ \<Rightarrow> []),
     parse_pm = (\<lambda>x. let a = takeWhile (\<lambda>c. c \<noteq> CHR '' '') x; y = tl (dropWhile (\<lambda>c. c \<noteq> CHR '' '') x)
                     in PMessage (dec_int a) (dec_int (takeWhile (\<lambda>c. c \<noteq> CHR '' '') y)) (tl (dropWhile (\<lambda>c. c \<noteq> CHR '' '') y)))\<rparr>"

lemma enc_int_blank:
  "takeWhile (\<lambda>c. c \<noteq> CHR '' '') (enc_int i @ CHR '' '' # t) = enc_int i" "dropWhile (\<lambda>c. c \<noteq> CHR '' '') (enc_int i @ CHR '' '' # t) = CHR '' '' # t"
  "dec_int (enc_int i) = i"
  by (auto simp: enc_int_def dec_int_def takeWhile_append dropWhile_append)

lemma sample_backend_ok: "backend_ok sample_backend (\<lambda>r. r)"
  by (simp add: backend_ok_def sample_backend_def Let_def enc_int_blank)

definition sample_im :: "(nat, int \<Rightarrow> bytes list) im_server" where
  "sample_im = (ImServer_new 0 (\<lambda>_. []))\<lparr>mysql := (MysqlConnection_new 0)\<lparr>m_connected := True\<rparr>\<rparr>"

lemma sample_im_record: "record_ok sample_im"
  by (simp add: record_ok_def sample_im_def ImServer_new_def)

lemmas im_eval = sample_im_def ImServer_new_def MysqlConnection_new_def onPMessage_def onQuit_def Let_def exec_format_def mysql_exec_def
  sample_backend_def update_text_def status_num.simps

text \<open>
  C99: a login replays the wrong messages and ends the process. If a user quits, misses some private messages and
  logs in with the right password, then the server sends as many messages as have been missed, but the oldest ones
  that the user ever got, the newest of them first; after that it frees the reply of \<open>LLEN\<close> a second time.
\<close>

theorem login_replays_oldest:
  assumes ok: "backend_ok B rl" "record_ok s0" "rl (redis s0) uid = []"
    and run: "im_run B s0 (before @ (c, Quit uid) # missed) = (out, Some s)" "\<forall>(c, m)\<in>set missed. m \<noteq> Quit uid"
    and pwd: "query B (take 4093 (select_text uid)) (m_mysql (mysql s)) = (Sql_rows [[Some passwd]], db)" "m_connected (mysql s)"
  shows "onLogin B s conn uid passwd =
    (map (Pair conn) (rev (take (length (pms uid missed)) (pms uid (before @ missed)))), None)"
proof -
  let ?n = "length (pms uid before)" and ?all = "pms uid (before @ missed)"
  obtain o1 s1 o2 s2 o3 where r: "im_run B s0 before = (o1, Some s1)" "im_dispatch B s1 c (Quit uid) = (o2, Some s2)" "im_run B s2 missed = (o3, Some s)"
    using run(1) unfolding im_run_append im_run_Cons_Some by blast
  note s1 = im_run_stored [OF ok(1,2) r(1), of uid]
  have s2: "record_ok s2" "rl (redis s2) uid = rl (redis s1) uid" "lastestRecord s2 uid = Some (int (length (rl (redis s1) uid)))"
    using im_dispatch_stored(1,2,4) [OF ok(1) conjunct1 [OF s1] r(2)] by simp_all
  have l: "rl (redis s) uid = rev (map (serialize B) ?all)"
    using im_run_stored [OF ok(1) s2(1) r(3), of uid] s2(2) s1 ok(3) by simp
  have n: "lastestRecord s uid = Some (int ?n)" using im_run_record [OF ok(1) s2(1) r(3) run(2)] s2(3) s1 ok(3) by simp
  let ?k = "length (pms uid missed)"
  have len: "length ?all = ?n + ?k" by simp
  have "drop ?n (rev (map (serialize B) ?all)) = rev (map (serialize B) (take ?k ?all))"
    by (simp only: drop_rev length_map len take_map add_diff_cancel_left')
  moreover have "map (\<lambda>e. (conn, parse_pm B e)) (rev (map (serialize B) (take ?k ?all))) = map (Pair conn) (rev (take ?k ?all))"
    using backend_okD(4) [OF ok(1), of uid] by (auto simp: rev_map pms_def dest!: in_set_takeD simp del: pms_simps)
  moreover have "exec_format (query B) (select_text uid) (mysql s) = (0, (mysql s)\<lparr>m_mysql := db, m_result := Some [[Some passwd]]\<rparr>)"
    using pwd by (simp add: exec_format_def mysql_exec_def select_text_def)
  ultimately show ?thesis using n l backend_okD(1,2) [OF ok(1)] len
    by (simp add: onLogin_def Let_def result_row_data_def freeReplyObject_def)
qed

theorem login_replays_oldest_witness:
  "\<exists>s. snd (im_run sample_backend sample_im [(1, PMessage 5 7 ''first''), (2, Quit 7), (1, PMessage 5 7 ''second'')]) = Some s \<and>
     onLogin sample_backend s 3 7 ''pw'' = ([(3, PMessage 5 7 ''first'')], None)"
proof -
  obtain out s where s: "im_run sample_backend sample_im ([(1, PMessage 5 7 ''first'')] @ (2, Quit 7) # [(1, PMessage 5 7 ''second'')]) = (out, Some s)"
      "m_connected (mysql s)"
    by (simp add: im_eval)
  have "query sample_backend (take 4093 (select_text 7)) (m_mysql (mysql s)) = (Sql_rows [[Some ''pw'']], m_mysql (mysql s))"
    by (simp add: sample_backend_def select_text_def)
  from login_replays_oldest [OF sample_backend_ok sample_im_record _ s(1) _ this s(2), of 3] s(1) show ?thesis
    by (simp add: sample_im_def ImServer_new_def del: im_run.simps)
qed

section \<open>Who is sent what\<close>

lemma im_dispatch_delivers:
  assumes ok: "backend_ok B rl" "record_ok s" and u: "userconnections s u = Some (Some k)"
    and d: "im_dispatch B s c m = (out, Some s')"
  shows "userconnections s' u = Some (Some k) \<and> filter (\<lambda>(c, m). to_user u m) out = (if to_user u m then [(k, m)] else [])"
proof (cases m)
  case (SignUp name passwd)
  then have "onSignUp B s c name passwd = (out, Some s')" using d by simp
  then show ?thesis by (rule onSignUp_cases) (use u SignUp in auto)
next
  case (Login uid passwd)
  then have "onLogin B s c uid passwd = (out, Some s')" using d by simp
  then show ?thesis using onLogin_cases [OF ok(1)] ok(2) Login u by (fastforce simp: record_ok_def)
qed (use d u in \<open>auto simp: onPMessage_def onQuit_def onGMessage_def onCreateGroup_def onAddGroup_def Let_def filter_empty_conv
    split: option.splits\<close>)

lemma im_run_delivers:
  assumes ok: "backend_ok B rl"
  shows "record_ok s \<Longrightarrow> userconnections s u = Some (Some k) \<Longrightarrow> im_run B s ms = (out, Some s') \<Longrightarrow>
    filter (\<lambda>(c, m). to_user u m) out = map (Pair k) (pms u ms)"
proof (induction ms arbitrary: s out)
  case (Cons a ms)
  obtain c m where a: "a = (c, m)" by fastforce
  obtain o1 s1 o2 where r: "im_dispatch B s c m = (o1, Some s1)" "im_run B s1 ms = (o2, Some s')" "out = o1 @ o2"
    using Cons.prems(3) unfolding a im_run_Cons_Some by blast
  note d = im_dispatch_delivers [OF ok Cons.prems(1,2) r(1)]
  from Cons.IH [OF im_dispatch_stored(1) [OF ok Cons.prems(1) r(1)] conjunct1 [OF d] r(2)] d a r(3) show ?case by simp
qed simp

text \<open>
  C99: private messages reach their user. Once a new user has signed up, every private message to the user that any
  client sends is sent exactly once, in order, on the connection that signed up and on no other, whatever else the
  clients do; and Redis holds all of them, the newest first.
\<close>

theorem private_messages_delivered:
  assumes ok: "backend_ok B rl" "record_ok s0"
    and signed: "onSignUp B s0 k name passwd = ([(k, Success u)], Some s)" "userconnections s0 u = None"
    and run: "im_run B s ms = (out, Some s')"
  shows "filter (\<lambda>(c, m). to_user u m) out = map (Pair k) (pms u ms) \<and>
    rl (redis s') u = rev (map (serialize B) (pms u ms)) @ rl (redis s0) u"
proof -
  have s: "userconnections s u = Some (Some k)" "redis s = redis s0"
    using signed by (auto elim!: onSignUp_cases)
  have "record_ok s" using im_dispatch_stored(1) [OF ok, of k "SignUp name passwd"] signed(1) by simp
  with im_run_delivers [OF ok(1) _ s(1) run] im_run_stored [OF ok(1) _ run, of u] s(2) show ?thesis by simp
qed

theorem private_messages_delivered_witness:
  "\<exists>s out s'. onSignUp sample_backend sample_im 3 ''bob'' ''pw'' = ([(3, Success 7)], Some s) \<and>
     im_run sample_backend s [(1, PMessage 5 7 ''hi''), (1, GMessage 9 ''x''), (3, PMessage 7 5 ''yo''), (2, PMessage 6 7 ''hey'')] = (out, Some s') \<and>
     filter (\<lambda>(c, m). to_user 7 m) out = [(3, PMessage 5 7 ''hi''), (3, PMessage 6 7 ''hey'')]"
proof -
  let ?ms = "[(1, PMessage 5 7 ''hi''), (1, GMessage 9 ''x''), (3, PMessage 7 5 ''yo''), (2, PMessage 6 7 ''hey'')]"
  have "atol ''7'' = 7" by code_simp
  then obtain s where s: "onSignUp sample_backend sample_im 3 ''bob'' ''pw'' = ([(3, Success 7)], Some s)"
    by (simp add: onSignUp_def im_eval insert_text_def c_str_def result_row_data_def)
  obtain out s' where r: "im_run sample_backend s ?ms = (out, Some s')"
    by (simp add: onPMessage_def onGMessage_def Let_def split: option.splits)
  have "userconnections sample_im 7 = None" by (simp add: sample_im_def ImServer_new_def)
  from private_messages_delivered [OF sample_backend_ok sample_im_record s this r]
  have "filter (\<lambda>(c, m). to_user 7 m) out = [(3, PMessage 5 7 ''hi''), (3, PMessage 6 7 ''hey'')]" by simp
  with s r show ?thesis by blast
qed

text \<open>A group message goes to the members of every group.\<close>

lemma group_message_to_all: "onGMessage s gid t = (out, Some s') \<Longrightarrow> (g, c) \<in> set (groupconnections s) \<Longrightarrow> (c, GMessage gid t) \<in> set out"
  by (force simp: onGMessage_def)

text \<open>The password pasted into the statement can change it; and the destructor of an open connection closes nothing.\<close>

lemma sign_up_injects:
  "insert_text ''eve'' ([CHR 0x27] @ ''),('' @ [CHR 0x27] @ ''root'' @ [CHR 0x27] @ '','' @ [CHR 0x27] @ ''x'') =
   ''INSERT INTO userinfo(user_name, password) VALUES('' @ [CHR 0x27] @ ''eve'' @ [CHR 0x27] @ '', '' @ [CHR 0x27, CHR 0x27] @ ''),(''
     @ [CHR 0x27] @ ''root'' @ [CHR 0x27] @ '','' @ [CHR 0x27] @ ''x'' @ [CHR 0x27] @ '')''"
  by (simp add: insert_text_def c_str_def)

lemma fini_keeps_open: "m_connected m \<Longrightarrow> mysql_fini m = m"
  by (simp add: mysql_fini_def)

lemma failed_connect_connected: "fst (mysql_init_conn connect host port m) = - 1 \<Longrightarrow> m_connected (snd (mysql_init_conn connect host port m))"
  by (simp add: mysql_init_conn_def Let_def split: prod.splits)

lemma sign_up_database_down: "\<not> m_connected (mysql s) \<Longrightarrow> m_result (mysql s) = None \<Longrightarrow> onSignUp B s c name passwd = ([], None)"
  by (simp add: onSignUp_def exec_format_def mysql_exec_def result_row_data_def Let_def)

end
