(* ===== verification/ImClient.thy ===== *)
theory ImClient
  imports ImServer
begin

text \<open>
  The terminal client of the instant messaging server (\<open>src/excercises/chatServer/client.cc\<close>): the words of a
  command line, and the message that each command writes to the connection. The file \<open>user.info\<close> is a list of
  lines, the identifier that the server returns to a sign-up an argument.
\<close>

section \<open>Words\<close>

fun split_loop :: "char \<Rightarrow> string \<Rightarrow> nat \<Rightarrow> string \<Rightarrow> string list \<times> string" where
  "split_loop sep [] n tmp = ([], [])"
| "split_loop sep (c # cs) n tmp =
     (if n = 0 then ([], c # cs)
      else if c \<noteq> sep then split_loop sep cs n (tmp @ [c])
      else let (res, rest) = split_loop sep cs (n - 1) [] in (if tmp \<noteq> [] then tmp # res else res, rest))"

definition split_words :: "string \<Rightarrow> char \<Rightarrow> string list" where
  "split_words src sep = (let (res, rest) = split_loop sep src (count_list src sep) [] in res @ [rest])"

section \<open>Commands\<close>

text \<open>A subscript beyond the words is undefined.\<close>

definition word :: "string list \<Rightarrow> nat \<Rightarrow> string option" where
  "word message i = (if i < length message then Some (message ! i) else None)"

definition joined :: "nat \<Rightarrow> string list \<Rightarrow> string" where
  "joined i message = concat (map (\<lambda>w. w @ '' '') (drop i message))"

text \<open>The first line of \<open>user.info\<close>, empty if there is none.\<close>

definition own_uid :: "string list \<Rightarrow> int" where
  "own_uid user_info = atol (case user_info of [] \<Rightarrow> [] | l # ls \<Rightarrow> l)"

definition sign :: "int \<Rightarrow> string list \<Rightarrow> (im_message \<times> string list) option" where
  "sign uid message = do {
     name \<leftarrow> word message 1;
     passwd \<leftarrow> word message 2;
     Some (SignUp name passwd, [show_int uid, name, passwd])
   }"

definition login :: "string list \<Rightarrow> im_message option" where
  "login message = do { u \<leftarrow> word message 1; passwd \<leftarrow> word message 2; Some (Login (atol u) passwd) }"

definition privateChat :: "string list \<Rightarrow> string list \<Rightarrow> im_message option" where
  "privateChat user_info message = do { peer \<leftarrow> word message 1; Some (PMessage (own_uid user_info) (atol peer) (joined 2 message)) }"

definition quit_message :: "string list \<Rightarrow> im_message" where
  "quit_message user_info = Quit (own_uid user_info)"

definition groupChat :: "string list \<Rightarrow> im_message option" where
  "groupChat message = do { g \<leftarrow> word message 1; Some (GMessage (atol g) (joined 1 message)) }"

definition createGroup :: "string list \<Rightarrow> im_message option" where
  "createGroup message = do { g \<leftarrow> word message 1; Some (CreateGroup (atol g)) }"

definition addGroup :: "string list \<Rightarrow> im_message option" where
  "addGroup message = do { g \<leftarrow> word message 1; Some (AddGroup (atol g)) }"

text \<open>The result: the message written, if any, the file, and whether the client disconnects.\<close>

definition dispatch_command :: "int \<Rightarrow> string list \<Rightarrow> string list \<Rightarrow> (im_message option \<times> string list \<times> bool) option" where
  "dispatch_command uid user_info message = do {
     w \<leftarrow> word message 0;
     let c = (case w of [] \<Rightarrow> CHR 0x00 | c # cs \<Rightarrow> c);
     if c = CHR ''s'' then do { (m, info) \<leftarrow> sign uid message; Some (Some m, info, False) }
     else if c = CHR ''l'' then do { m \<leftarrow> login message; Some (Some m, user_info, False) }
     else if c = CHR ''p'' then do { m \<leftarrow> privateChat user_info message; Some (Some m, user_info, False) }
     else if c = CHR ''c'' then do { m \<leftarrow> createGroup message; Some (Some m, user_info, False) }
     else if c = CHR ''a'' then do { m \<leftarrow> addGroup message; Some (Some m, user_info, False) }
     else if c = CHR ''g'' then do { m \<leftarrow> groupChat message; Some (Some m, user_info, False) }
     else if c = CHR ''q'' then Some (Some (quit_message user_info), user_info, True)
     else Some (None, user_info, False)
   }"

section \<open>The words are the fields\<close>

text \<open>The fields between separators, and what \<open>split\<close> makes of them: empty fields are dropped, but not the last.\<close>

fun fields :: "char \<Rightarrow> string \<Rightarrow> string list" where
  "fields sep [] = [[]]"
| "fields sep (c # cs) = (if c = sep then [] # fields sep cs else (c # hd (fields sep cs)) # tl (fields sep cs))"

lemma fields_nonempty [simp]: "fields sep s \<noteq> []"
  by (cases s) auto

lemma fields_clean: "sep \<notin> set s \<Longrightarrow> fields sep s = [s]"
  by (induction s) auto

lemma fields_sep: "sep \<notin> set s \<Longrightarrow> fields sep (s @ sep # t) = s # fields sep t"
  by (induction s) auto

lemma split_loop_fields:
  "(count_list s sep = 0 \<longrightarrow> tmp = []) \<Longrightarrow>
   split_loop sep s (count_list s sep) tmp =
     (filter (\<lambda>w. w \<noteq> []) (butlast ((tmp @ hd (fields sep s)) # tl (fields sep s))), last (fields sep s))"
proof (induction s arbitrary: tmp)
  case (Cons c s)
  show ?case
  proof (cases "count_list (c # s) sep = 0")
    case True
    then have "sep \<notin> set (c # s)" by (simp add: count_list_0_iff split: if_splits)
    with True Cons.prems show ?thesis using fields_clean [of sep "c # s"] by (auto simp: count_list_0_iff)
  next
    case False
    obtain f fs where f: "fields sep s = f # fs" by (cases "fields sep s") auto
    show ?thesis
    proof (cases "c = sep")
      case True
      then show ?thesis using Cons.IH [of "[]"] f by auto
    next
      case c: False
      with False have "count_list s sep \<noteq> 0" by simp
      moreover have "fs \<noteq> []"
      proof
        assume "fs = []"
        have "sep \<in> set s" using calculation by (simp add: count_list_0_iff)
        then obtain a b where "s = a @ sep # b" "sep \<notin> set a" by (metis split_list_first)
        then show False using fields_sep [of sep a b] f \<open>fs = []\<close> by simp
      qed
      ultimately show ?thesis using Cons.IH [of "tmp @ [c]"] c f by simp
    qed
  qed
qed simp

lemma split_words_fields: "split_words s sep = filter (\<lambda>w. w \<noteq> []) (butlast (fields sep s)) @ [last (fields sep s)]"
  by (simp add: split_words_def split_loop_fields Let_def)

lemma split_words_plain:
  "\<forall>w\<in>set ws. w \<noteq> [] \<and> sep \<notin> set w \<Longrightarrow> sep \<notin> set l \<Longrightarrow> split_words (concat (map (\<lambda>w. w @ [sep]) ws) @ l) sep = ws @ [l]"
proof -
  assume ws: "\<forall>w\<in>set ws. w \<noteq> [] \<and> sep \<notin> set w" and l: "sep \<notin> set l"
  then have "fields sep (concat (map (\<lambda>w. w @ [sep]) ws) @ l) = ws @ [l]"
    by (induction ws) (simp_all add: fields_clean fields_sep)
  with ws show ?thesis by (simp add: split_words_fields)
qed

text \<open>A line for a private message, and the message it makes: the words again, with a blank after each.\<close>

lemma private_command:
  assumes "\<forall>w\<in>set ws. w \<noteq> [] \<and> CHR '' '' \<notin> set w" "CHR '' '' \<notin> set l"
  shows "dispatch_command uid info (split_words (''p '' @ show_nat n @ '' '' @ concat (map (\<lambda>w. w @ '' '') ws) @ l) (CHR '' '')) =
    Some (Some (PMessage (own_uid info) (int n) (concat (map (\<lambda>w. w @ '' '') (ws @ [l])))), info, False)"
proof -
  have "CHR '' '' \<notin> set (show_nat n)" using show_nat_digits [of _ n] by (fastforce simp: is_digit_def)
  then have "split_words (concat (map (\<lambda>w. w @ [CHR '' '']) ([''p'', show_nat n] @ ws)) @ l) (CHR '' '') = [''p'', show_nat n] @ ws @ [l]"
    using assms by (subst split_words_plain) auto
  then show ?thesis
    by (simp add: dispatch_command_def word_def privateChat_def joined_def atol_show_nat)
qed

end
