(* ===== verification/Services.thy ===== *)
theory Services
  imports Buffer Timestamp
begin

text \<open>
  The small servers of \<open>src/excercises\<close>: \<open>echo/echo.cc\<close>, \<open>discard/discard.cc\<close>, \<open>finger/main.cc\<close>,
  \<open>time/time.cc\<close> with its client \<open>time/timeclient.cc\<close>, and the three file servers
  \<open>filetransfer/download.cc\<close>, \<open>download2.cc\<close> and \<open>download3.cc\<close>. A connection is what a handler sees of
  it: \<open>send\<close> adds to what has been sent unless \<open>shutdown\<close> has been called. A \<open>FILE\<close> is the content of the file
  with a position and whether it is open; reading a file that has been closed is undefined.
\<close>

record service_conn =
  written :: "bytes list"
  write_shut :: bool

definition svc_send :: "bytes \<Rightarrow> service_conn \<Rightarrow> service_conn" where
  "svc_send msg c = (if write_shut c then c else c\<lparr>written := written c @ [msg]\<rparr>)"

definition svc_shutdown :: "service_conn \<Rightarrow> service_conn" where
  "svc_shutdown c = c\<lparr>write_shut := True\<rparr>"

definition svc_new :: service_conn where
  "svc_new = \<lparr>written = [], write_shut = False\<rparr>"

section \<open>Echo and discard\<close>

definition echo_onMessage :: "buffer \<Rightarrow> service_conn \<Rightarrow> (service_conn \<times> buffer) option" where
  "echo_onMessage buf c = do {
     (msg, buf) \<leftarrow> retrieveAllAsString buf;
     Some (svc_send msg c, buf)
   }"

definition discard_onMessage :: "buffer \<Rightarrow> service_conn \<Rightarrow> (service_conn \<times> buffer) option" where
  "discard_onMessage buf c = do {
     (msg, buf) \<leftarrow> retrieveAllAsString buf;
     Some (c, buf)
   }"

text \<open>A connection that receives its input in pieces.\<close>

fun svc_session :: "(buffer \<Rightarrow> service_conn \<Rightarrow> (service_conn \<times> buffer) option) \<Rightarrow> buffer \<Rightarrow> service_conn \<Rightarrow> bytes list \<Rightarrow> (service_conn \<times> buffer) option" where
  "svc_session onMsg b c [] = Some (c, b)"
| "svc_session onMsg b c (p # ps) = do {
     b \<leftarrow> append_buf b p;
     (c, b) \<leftarrow> onMsg b c;
     svc_session onMsg b c ps
   }"

lemma retrieveAllAsString_ok:
  assumes "buf_inv b"
  shows "\<exists>b'. retrieveAllAsString b = Some (content b, b') \<and> buf_inv b' \<and> content b' = []"
proof -
  obtain b' where "retrieve b (readableBytes b) = Some b'" "buf_inv b'" "content b' = drop (readableBytes b) (content b)"
    using retrieve_ok [OF assms order_refl] by blast
  moreover have "slice b (peek b) (peek b + readableBytes b) = content b"
    using content_split [OF assms, of "readableBytes b"] assms by simp
  ultimately show ?thesis using assms by (simp add: retrieveAllAsString_def retrieveAsString_def)
qed

lemma take_all_piece:
  assumes "buf_inv b" "content b = []"
  shows "\<exists>b1 b'. append_buf b p = Some b1 \<and> retrieveAllAsString b1 = Some (p, b') \<and> buf_inv b' \<and> content b' = []"
proof -
  obtain b1 where b1: "append_buf b p = Some b1" "buf_inv b1" "content b1 = content b @ p" using append_buf_ok [OF assms(1)] by blast
  from retrieveAllAsString_ok [OF b1(2)] b1(1,3) assms(2) show ?thesis by simp
qed

lemma echo_session:
  "buf_inv b \<Longrightarrow> content b = [] \<Longrightarrow> \<not> write_shut c \<Longrightarrow>
   \<exists>b'. svc_session echo_onMessage b c ps = Some (c\<lparr>written := written c @ ps\<rparr>, b') \<and> content b' = []"
proof (induction ps arbitrary: b c)
  case (Cons p ps)
  obtain b1 b2 where b: "append_buf b p = Some b1" "retrieveAllAsString b1 = Some (p, b2)" "buf_inv b2" "content b2 = []"
    using take_all_piece [OF Cons.prems(1,2)] by blast
  from Cons.IH [OF b(3,4), of "c\<lparr>written := written c @ [p]\<rparr>"] Cons.prems(3) b(1,2) show ?case
    by (simp add: echo_onMessage_def svc_send_def)
qed simp

lemma discard_session:
  "buf_inv b \<Longrightarrow> content b = [] \<Longrightarrow> \<exists>b'. svc_session discard_onMessage b c ps = Some (c, b') \<and> content b' = []"
proof (induction ps arbitrary: b c)
  case (Cons p ps)
  obtain b1 b2 where b: "append_buf b p = Some b1" "retrieveAllAsString b1 = Some (p, b2)" "buf_inv b2" "content b2 = []"
    using take_all_piece [OF Cons.prems(1,2)] by blast
  from Cons.IH [OF b(3,4)] b(1,2) show ?case by (simp add: discard_onMessage_def)
qed simp

section \<open>Finger\<close>

definition getUser :: "(string \<rightharpoonup> string) \<Rightarrow> string \<Rightarrow> string" where
  "getUser users user = (case users user of Some s \<Rightarrow> s | None \<Rightarrow> ''No such user'')"

definition finger_users :: "string \<rightharpoonup> string" where
  "finger_users = [''xiehui'' \<mapsto> ''Happy and Well'']"

definition finger_onConnection :: "bool \<Rightarrow> service_conn \<Rightarrow> service_conn" where
  "finger_onConnection up c = (if up then svc_send (''hello World'' @ [CHR 0x0A]) c else c)"

definition finger_onMessage :: "(string \<rightharpoonup> string) \<Rightarrow> buffer \<Rightarrow> service_conn \<Rightarrow> (service_conn \<times> buffer) option" where
  "finger_onMessage users buf c =
     (case findCRLF buf of
        Some crlf \<Rightarrow> do {
          let user = slice buf (peek buf) crlf;
          let c = svc_send (getUser users user @ kCRLF) c;
          buf \<leftarrow> retrieveUntil buf (crlf + 2);
          Some (svc_shutdown c, buf)
        }
      | None \<Rightarrow> Some (c, buf))"

text \<open>A query in pieces is answered once, when its line is complete, and then the connection is shut down.\<close>

lemma finger_closed:
  "buf_inv b \<Longrightarrow> write_shut c \<Longrightarrow> \<exists>b'. svc_session (finger_onMessage users) b c ps = Some (c, b')"
proof (induction ps arbitrary: b)
  case (Cons p ps)
  obtain b1 where b1: "append_buf b p = Some b1" "buf_inv b1" using append_buf_ok [OF Cons.prems(1)] by blast
  have c: "svc_shutdown (svc_send x c) = c" for x using Cons.prems(2) by (simp add: svc_shutdown_def svc_send_def)
  show ?case
  proof (cases "search_first kCRLF (content b1)")
    case None
    with Cons.IH [OF b1(2) Cons.prems(2)] b1(1) show ?thesis by (simp add: finger_onMessage_def findCRLF_def)
  next
    case (Some i)
    obtain b2 where b2: "retrieveUntil b1 (peek b1 + (i + 2)) = Some b2" "buf_inv b2"
      using retrieveUntil_ok [OF b1(2) line_slice(1) [OF b1(2) Some]] by blast
    from Cons.IH [OF b2(2) Cons.prems(2)] b1(1) b2(1) Some c show ?thesis
      by (simp add: finger_onMessage_def findCRLF_def add.assoc)
  qed
qed simp

lemma finger_query:
  "buf_inv b \<Longrightarrow> \<not> write_shut c \<Longrightarrow> search_first kCRLF (content b) = None \<Longrightarrow>
   search_first kCRLF (content b @ concat ps) = Some i \<Longrightarrow>
   \<exists>b'. svc_session (finger_onMessage users) b c ps =
     Some (c\<lparr>written := written c @ [getUser users (take i (content b @ concat ps)) @ kCRLF], write_shut := True\<rparr>, b')"
proof (induction ps arbitrary: b)
  case (Cons p ps)
  obtain b1 where b1: "append_buf b p = Some b1" "buf_inv b1" "content b1 = content b @ p" using append_buf_ok [OF Cons.prems(1)] by blast
  show ?case
  proof (cases "search_first kCRLF (content b1)")
    case None
    with Cons.IH [OF b1(2) Cons.prems(2) None] Cons.prems(4) b1 show ?thesis by (simp add: finger_onMessage_def findCRLF_def)
  next
    case (Some j)
    note line = line_slice [OF b1(2) Some]
    obtain b2 where b2: "retrieveUntil b1 (peek b1 + (j + 2)) = Some b2" "buf_inv b2"
      using retrieveUntil_ok [OF b1(2) line(1)] by blast
    have j: "j = i" using search_first_append [OF Some, of "concat ps"] Cons.prems(4) b1(3) by simp
    let ?c = "c\<lparr>written := written c @ [getUser users (take i (content b1)) @ kCRLF], write_shut := True\<rparr>"
    have "finger_onMessage users b1 c = Some (?c, b2)"
      using Some j b2(1) line(2) Cons.prems(2) by (simp add: finger_onMessage_def findCRLF_def svc_send_def svc_shutdown_def add.assoc)
    moreover have "take i (content b @ concat (p # ps)) = take i (content b1)" using line(1) j b1(2,3) length_content [of b1] by simp
    moreover obtain b' where "svc_session (finger_onMessage users) b2 ?c ps = Some (?c, b')" using finger_closed [OF b2(2), of ?c] by auto
    ultimately show ?thesis using b1(1) by (simp del: append_assoc)
  qed
qed simp

section \<open>Time\<close>

definition time_onConnection :: "int \<Rightarrow> bool \<Rightarrow> service_conn \<Rightarrow> service_conn" where
  "time_onConnection now up c =
     (if up then svc_shutdown (svc_send (mem32 (hostToNetwork32 (word_of_int now))) c) else c)"

text \<open>The time that the client prints.\<close>

definition timeclient_onMessage :: "buffer \<Rightarrow> ((int \<times> Timestamp) option \<times> buffer) option" where
  "timeclient_onMessage buf =
     (if readableBytes buf \<ge> 4 then do {
        let be = load32 (slice buf (peek buf) (peek buf + 4));
        buf \<leftarrow> retrieve buf 4;
        let time = sint (networkToHost32 be);
        Some (Some (time, Timestamp (time * kMicroSecondsPerSecond)), buf)
      }
      else Some (None, buf))"

lemma time_roundtrip:
  assumes "buf_inv b" "content b = concat (written (time_onConnection now True svc_new))" "- (2 ^ 31) \<le> now" "now < 2 ^ 31"
  shows "\<exists>b'. timeclient_onMessage b = Some (Some (now, Timestamp (now * kMicroSecondsPerSecond)), b') \<and> content b' = []"
proof -
  have c: "content b = mem32 (hostToNetwork32 (word_of_int now))" using assms(2) by (simp add: time_onConnection_def svc_new_def svc_send_def svc_shutdown_def)
  then have r: "readableBytes b = 4" using assms(1) length_content [of b] by simp
  have s: "slice b (peek b) (peek b + 4) = content b" using content_split [OF assms(1), of 4] r assms(1) by simp
  obtain b' where b': "retrieve b 4 = Some b'" "content b' = drop 4 (content b)" using retrieve_ok [OF assms(1), of 4] r by auto
  have "sint (word_of_int now :: 32 word) = now" using assms(3,4) by (simp add: signed_take_bit_int_eq_self sint_sbintrunc')
  with r s b' c show ?thesis by (simp add: timeclient_onMessage_def)
qed

section \<open>File servers\<close>

definition kBufSize :: nat where
  "kBufSize = 65536"

text \<open>\<open>download.cc\<close> reads the whole file and sends it at once; its buffer has one megabyte.\<close>

function readFile_loop :: "bytes \<Rightarrow> nat \<Rightarrow> bytes \<Rightarrow> bytes" where
  "readFile_loop f pos acc =
     (let chunk = take 1048576 (drop pos f)
      in if length chunk > 0 then readFile_loop f (pos + length chunk) (acc @ chunk) else acc)"
  by pat_completeness auto
termination
  by (relation "measure (\<lambda>(f, pos, acc). length f - pos)") auto

declare readFile_loop.simps [simp del]

definition readFile :: "bytes option \<Rightarrow> bytes" where
  "readFile f = (case f of Some f \<Rightarrow> readFile_loop f 0 [] | None \<Rightarrow> [])"

definition download_onConnection :: "bytes option \<Rightarrow> bool \<Rightarrow> service_conn \<Rightarrow> service_conn" where
  "download_onConnection f up c = (if up then svc_shutdown (svc_send (readFile f) c) else c)"

text \<open>
  The other two read a piece whenever the one before has been written. The context of the connection is empty, a
  null pointer or the file; \<open>file_open\<close> says whether the file has been closed.
\<close>

datatype context_value = No_context | Null_file | File

record download =
  file_data :: bytes
  file_pos :: nat
  file_open :: bool
  conn_context :: context_value
  conn_out :: service_conn

definition Download_new :: "bytes \<Rightarrow> download" where
  "Download_new f = \<lparr>file_data = f, file_pos = 0, file_open = False, conn_context = No_context, conn_out = svc_new\<rparr>"

definition fread :: "download \<Rightarrow> (bytes \<times> download) option" where
  "fread d = do {
     ensure (file_open d);
     let chunk = take kBufSize (drop (file_pos d) (file_data d));
     Some (chunk, d\<lparr>file_pos := file_pos d + length chunk\<rparr>)
   }"

definition fclose :: "download \<Rightarrow> download option" where
  "fclose d = do { ensure (file_open d); Some (d\<lparr>file_open := False\<rparr>) }"

definition send_chunk :: "bytes \<Rightarrow> download \<Rightarrow> download" where
  "send_chunk chunk d = d\<lparr>conn_out := svc_send chunk (conn_out d)\<rparr>"

definition shut_download :: "download \<Rightarrow> download" where
  "shut_download d = d\<lparr>conn_out := svc_shutdown (conn_out d)\<rparr>"

definition download2_onConnection :: "bool \<Rightarrow> bool \<Rightarrow> download \<Rightarrow> download option" where
  "download2_onConnection exists up d =
     (if up then
        if exists then do {
          let d = d\<lparr>file_open := True, conn_context := File\<rparr>;
          (chunk, d) \<leftarrow> fread d;
          Some (send_chunk chunk d)
        }
        else Some (shut_download d)
      else if conn_context d = File then fclose d
      else Some d)"

definition download2_onWriteComplete :: "download \<Rightarrow> download option" where
  "download2_onWriteComplete d = do {
     ensure (conn_context d = File);
     (chunk, d) \<leftarrow> fread d;
     if length chunk > 0 then Some (send_chunk chunk d)
     else do {
       d \<leftarrow> fclose d;
       Some (shut_download (d\<lparr>conn_context := Null_file\<rparr>))
     }
   }"

text \<open>\<open>download3.cc\<close> keeps the file in a shared pointer, which closes it when the connection is destroyed.\<close>

definition download3_onConnection :: "bool \<Rightarrow> bool \<Rightarrow> download \<Rightarrow> download option" where
  "download3_onConnection exists up d =
     (if up then
        if exists then do {
          let d = d\<lparr>file_open := True, conn_context := File\<rparr>;
          (chunk, d) \<leftarrow> fread d;
          Some (send_chunk chunk d)
        }
        else Some (shut_download d)
      else Some d)"

definition download3_onWriteComplete :: "download \<Rightarrow> download option" where
  "download3_onWriteComplete d = do {
     ensure (conn_context d = File);
     (chunk, d) \<leftarrow> fread d;
     Some (if length chunk > 0 then send_chunk chunk d else shut_download d)
   }"

fun repeat_handler :: "nat \<Rightarrow> (download \<Rightarrow> download option) \<Rightarrow> download \<Rightarrow> download option" where
  "repeat_handler 0 h d = Some d"
| "repeat_handler (Suc n) h d = do { d \<leftarrow> h d; repeat_handler n h d }"

lemma take_rest: "take n xs @ drop (length (take n xs)) xs = xs"
  by (cases "n \<le> length xs") auto

lemma readFile_loop_all: "pos \<le> length f \<Longrightarrow> readFile_loop f pos acc = acc @ drop pos f"
proof (induction f pos acc rule: readFile_loop.induct)
  case (1 f pos acc)
  show ?case
  proof (cases "pos < length f")
    case True
    let ?chunk = "take 1048576 (drop pos f)"
    have "0 < length ?chunk" "pos + length ?chunk \<le> length f" using True by auto
    with "1.IH" [OF refl] have "readFile_loop f pos acc = (acc @ ?chunk) @ drop (pos + length ?chunk) f"
      by (subst readFile_loop.simps) (simp add: Let_def)
    moreover have "?chunk @ drop (pos + length ?chunk) f = drop pos f"
      using take_rest [of 1048576 "drop pos f"] by (simp only: drop_drop add.commute)
    ultimately show ?thesis by simp
  next
    case False
    with "1.prems" show ?thesis by (subst readFile_loop.simps) simp
  qed
qed

lemma readFile_all: "readFile (Some f) = f"
  by (simp add: readFile_def readFile_loop_all)

text \<open>While a file is sent: what has been sent is the file up to the position.\<close>

definition sending :: "bytes \<Rightarrow> download \<Rightarrow> bool" where
  "sending f d \<longleftrightarrow> file_data d = f \<and> file_open d \<and> conn_context d = File \<and> \<not> write_shut (conn_out d) \<and>
     file_pos d \<le> length f \<and> concat (written (conn_out d)) = take (file_pos d) f"

definition sent_all :: "bytes \<Rightarrow> download \<Rightarrow> bool" where
  "sent_all f d \<longleftrightarrow> concat (written (conn_out d)) = f \<and> write_shut (conn_out d)"

lemma sending_chunk:
  assumes "sending f d" "chunk = take kBufSize (drop (file_pos d) f)"
  shows "fread d = Some (chunk, d\<lparr>file_pos := file_pos d + length chunk\<rparr>)"
    "sending f (send_chunk chunk (d\<lparr>file_pos := file_pos d + length chunk\<rparr>))"
    "chunk = [] \<Longrightarrow> file_pos d = length f" "chunk \<noteq> [] \<Longrightarrow> file_pos d < length f"
proof -
  have "take (file_pos d + length chunk) f = take (file_pos d) f @ chunk"
    using assms by (auto simp: sending_def take_add min_def)
  with assms show "fread d = Some (chunk, d\<lparr>file_pos := file_pos d + length chunk\<rparr>)"
    "sending f (send_chunk chunk (d\<lparr>file_pos := file_pos d + length chunk\<rparr>))"
    by (auto simp: fread_def sending_def send_chunk_def svc_send_def)
  show "chunk = [] \<Longrightarrow> file_pos d = length f" "chunk \<noteq> [] \<Longrightarrow> file_pos d < length f"
    using assms by (auto simp: sending_def kBufSize_def)
qed

lemma download_starts:
  "\<exists>d. download2_onConnection True True (Download_new f) = Some d \<and> sending f d"
  "\<exists>d. download3_onConnection True True (Download_new f) = Some d \<and> sending f d"
proof -
  let ?d = "(Download_new f)\<lparr>file_open := True, conn_context := File\<rparr>"
  have s: "sending f ?d" by (simp add: sending_def Download_new_def svc_new_def)
  note c = sending_chunk [OF s refl]
  from c(1,2) show "\<exists>d. download2_onConnection True True (Download_new f) = Some d \<and> sending f d"
    "\<exists>d. download3_onConnection True True (Download_new f) = Some d \<and> sending f d"
    by (simp_all add: download2_onConnection_def download3_onConnection_def Let_def)
qed

text \<open>Both servers send the whole file and then shut the connection down, after as many callbacks as it takes.\<close>

lemma download_finishes:
  assumes one: "\<And>d. sending f d \<Longrightarrow> \<exists>d'. h d = Some d' \<and>
      (if file_pos d = length f then sent_all f d' else sending f d' \<and> file_pos d < file_pos d')"
  shows "sending f d \<Longrightarrow> \<exists>n d'. repeat_handler (Suc n) h d = Some d' \<and> sent_all f d'"
proof (induction "length f - file_pos d" arbitrary: d rule: less_induct)
  case less
  obtain d' where d': "h d = Some d'" "if file_pos d = length f then sent_all f d' else sending f d' \<and> file_pos d < file_pos d'"
    using one [OF less.prems] by blast
  show ?case
  proof (cases "file_pos d = length f")
    case True
    with d' show ?thesis by (intro exI [of _ 0] exI [of _ d']) simp
  next
    case False
    then have "sending f d'" "file_pos d < length f" "file_pos d < file_pos d'" using d'(2) less.prems by (auto simp: sending_def)
    then obtain n d2 where "repeat_handler (Suc n) h d' = Some d2" "sent_all f d2" using less.hyps [of d'] by fastforce
    with d'(1) show ?thesis by (intro exI [of _ "Suc n"] exI [of _ d2]) simp
  qed
qed

lemma sending_rest:
  assumes "sending f d"
  obtains (finished) "file_pos d = length f" "fread d = Some ([], d)" "concat (written (conn_out d)) = f"
  | (chunk) chunk d' where "file_pos d < length f" "chunk \<noteq> []" "fread d = Some (chunk, d')" "sending f (send_chunk chunk d')"
      "file_pos d < file_pos (send_chunk chunk d')"
proof (cases "take kBufSize (drop (file_pos d) f) = []")
  case True
  then show ?thesis using that(1) sending_chunk(1,3) [OF assms True [symmetric]] assms by (simp add: sending_def)
next
  case False
  then show ?thesis using that(2) [OF sending_chunk(4) [OF assms refl False] False sending_chunk(1,2) [OF assms refl]]
    by (simp add: send_chunk_def)
qed

lemma download2_step:
  assumes "sending f d"
  shows "\<exists>d'. download2_onWriteComplete d = Some d' \<and>
    (if file_pos d = length f then sent_all f d' \<and> \<not> file_open d' else sending f d' \<and> file_pos d < file_pos d')"
  using assms
proof (cases rule: sending_rest)
  case finished
  with assms show ?thesis
    by (simp add: download2_onWriteComplete_def fclose_def sending_def sent_all_def shut_download_def svc_shutdown_def)
next
  case (chunk chunk d')
  with assms show ?thesis by (simp add: download2_onWriteComplete_def sending_def [of f d])
qed

lemma download3_step:
  assumes "sending f d"
  shows "\<exists>d'. download3_onWriteComplete d = Some d' \<and>
    (if file_pos d = length f then sent_all f d' else sending f d' \<and> file_pos d < file_pos d')"
  using assms
proof (cases rule: sending_rest)
  case finished
  with assms show ?thesis by (simp add: download3_onWriteComplete_def sending_def sent_all_def shut_download_def svc_shutdown_def)
next
  case (chunk chunk d')
  with assms show ?thesis by (simp add: download3_onWriteComplete_def sending_def [of f d])
qed

theorem downloads_complete:
  "\<exists>d n d'. download2_onConnection True True (Download_new f) = Some d \<and>
     repeat_handler (Suc n) download2_onWriteComplete d = Some d' \<and> sent_all f d'"
  "\<exists>d n d'. download3_onConnection True True (Download_new f) = Some d \<and>
     repeat_handler (Suc n) download3_onWriteComplete d = Some d' \<and> sent_all f d'"
proof -
  obtain d where d: "download2_onConnection True True (Download_new f) = Some d" "sending f d" using download_starts(1) by blast
  have "\<exists>n d'. repeat_handler (Suc n) download2_onWriteComplete d = Some d' \<and> sent_all f d'"
    by (rule download_finishes [OF _ d(2)]) (use download2_step in \<open>fastforce split: if_splits\<close>)
  with d(1) show "\<exists>d n d'. download2_onConnection True True (Download_new f) = Some d \<and>
     repeat_handler (Suc n) download2_onWriteComplete d = Some d' \<and> sent_all f d'" by blast
next
  obtain d where d: "download3_onConnection True True (Download_new f) = Some d" "sending f d" using download_starts(2) by blast
  have "\<exists>n d'. repeat_handler (Suc n) download3_onWriteComplete d = Some d' \<and> sent_all f d'"
    by (rule download_finishes [OF download3_step d(2)])
  with d(1) show "\<exists>d n d'. download3_onConnection True True (Download_new f) = Some d \<and>
     repeat_handler (Suc n) download3_onWriteComplete d = Some d' \<and> sent_all f d'" by blast
qed

text \<open>
  A peer that closes while a write complete callback is queued makes \<open>download2.cc\<close> read the file it has just closed;
  \<open>download3.cc\<close> does not.
\<close>

lemma download2_reads_closed:
  "download2_onConnection True True (Download_new f) \<bind> download2_onConnection True False \<bind> download2_onWriteComplete = None"
proof -
  obtain d where d: "download2_onConnection True True (Download_new f) = Some d" "sending f d" using download_starts(1) by blast
  then have "download2_onConnection True False d = Some (d\<lparr>file_open := False\<rparr>)"
    by (simp add: download2_onConnection_def fclose_def sending_def)
  moreover have "download2_onWriteComplete (d\<lparr>file_open := False\<rparr>) = None"
    by (simp add: download2_onWriteComplete_def fread_def)
  ultimately show ?thesis using d(1) by simp
qed

lemma download3_reads_open:
  "\<exists>d. (download3_onConnection True True (Download_new f) \<bind> download3_onConnection True False \<bind> download3_onWriteComplete) = Some d"
proof -
  obtain d where d: "download3_onConnection True True (Download_new f) = Some d" "sending f d" using download_starts(2) by blast
  with download3_step [OF d(2)] show ?thesis by (auto simp: download3_onConnection_def)
qed

end
