(* ===== verification/FileUtil.thy ===== *)
theory FileUtil
  imports Prelude
begin

text \<open>
  \<open>StringPiece\<close> (\<open>src/StringPiece.h\<close>), a pointer into an array with a length, and the two classes of
  \<open>src/FileUtil.cc\<close>. \<open>open\<close>, \<open>fstat\<close>, \<open>read\<close>, \<open>pread\<close> and \<open>fwrite\<close> are arguments: what they return for an offset
  and a size. The lemmas say that the comparison operators are the lexicographic order of the bytes, that a file is
  read as far as the limit allows however short the reads are, and what is in a file after \<open>append\<close>.
\<close>

section \<open>String pieces\<close>

record string_piece =
  sp_array :: bytes
  sp_ptr :: nat
  sp_length :: nat

text \<open>The bytes of a piece; \<open>as_string\<close> and \<open>CopyToString\<close> copy them.\<close>

definition as_string :: "string_piece \<Rightarrow> string" where
  "as_string p = take (sp_length p) (drop (sp_ptr p) (sp_array p))"

definition piece_ok :: "string_piece \<Rightarrow> bool" where
  "piece_ok p \<longleftrightarrow> sp_ptr p + sp_length p \<le> length (sp_array p)"

definition StringPiece_string :: "string \<Rightarrow> string_piece" where
  "StringPiece_string s = \<lparr>sp_array = s, sp_ptr = 0, sp_length = length s\<rparr>"

definition remove_prefix :: "nat \<Rightarrow> string_piece \<Rightarrow> string_piece" where
  "remove_prefix n p = p\<lparr>sp_ptr := sp_ptr p + n, sp_length := sp_length p - n\<rparr>"

definition remove_suffix :: "nat \<Rightarrow> string_piece \<Rightarrow> string_piece" where
  "remove_suffix n p = p\<lparr>sp_length := sp_length p - n\<rparr>"

text \<open>\<open>memcmp\<close> of the first \<open>n\<close> bytes, which compares them as unsigned.\<close>

fun memcmp :: "bytes \<Rightarrow> bytes \<Rightarrow> nat \<Rightarrow> int" where
  "memcmp xs ys 0 = 0"
| "memcmp (x # xs) (y # ys) (Suc n) =
     (if x = y then memcmp xs ys n else if (of_char x :: nat) < of_char y then - 1 else 1)"
| "memcmp _ _ (Suc n) = 0"

definition sp_compare :: "string_piece \<Rightarrow> string_piece \<Rightarrow> int" where
  "sp_compare p x =
     (let r = memcmp (as_string p) (as_string x) (if sp_length p < sp_length x then sp_length p else sp_length x)
      in if r = 0 then if sp_length p < sp_length x then - 1 else if sp_length p > sp_length x then 1 else r else r)"

definition sp_eq :: "string_piece \<Rightarrow> string_piece \<Rightarrow> bool" where
  "sp_eq p x \<longleftrightarrow> sp_length p = sp_length x \<and> memcmp (as_string p) (as_string x) (sp_length p) = 0"

definition sp_less :: "string_piece \<Rightarrow> string_piece \<Rightarrow> bool" where
  "sp_less p x \<longleftrightarrow> (let r = memcmp (as_string p) (as_string x) (if sp_length p < sp_length x then sp_length p else sp_length x)
     in r < 0 \<or> r = 0 \<and> sp_length p < sp_length x)"

definition starts_with :: "string_piece \<Rightarrow> string_piece \<Rightarrow> bool" where
  "starts_with p x \<longleftrightarrow> sp_length p \<ge> sp_length x \<and> memcmp (as_string p) (as_string x) (sp_length x) = 0"

text \<open>The lexicographic order of unsigned bytes, as the comparison of two lists.\<close>

fun lex_compare :: "bytes \<Rightarrow> bytes \<Rightarrow> int" where
  "lex_compare [] [] = 0"
| "lex_compare [] (y # ys) = - 1"
| "lex_compare (x # xs) [] = 1"
| "lex_compare (x # xs) (y # ys) = (if x = y then lex_compare xs ys else if (of_char x :: nat) < of_char y then - 1 else 1)"

lemma length_as_string: "piece_ok p \<Longrightarrow> length (as_string p) = sp_length p"
  by (simp add: piece_ok_def as_string_def)

lemma memcmp_lex:
  "(let r = memcmp xs ys (min (length xs) (length ys))
    in if r = 0 then if length xs < length ys then - 1 else if length xs > length ys then 1 else r else r) = lex_compare xs ys"
  by (induction xs ys rule: lex_compare.induct) (auto simp: Let_def)

lemma memcmp_zero: "n \<le> length xs \<Longrightarrow> n \<le> length ys \<Longrightarrow> memcmp xs ys n = 0 \<longleftrightarrow> take n xs = take n ys"
  by (induction xs ys n rule: memcmp.induct) auto

lemma lex_compare_zero: "lex_compare xs ys = 0 \<longleftrightarrow> xs = ys"
  by (induction xs ys rule: lex_compare.induct) auto

lemma lex_compare_swap: "lex_compare ys xs = - lex_compare xs ys"
proof (induction xs ys rule: lex_compare.induct)
  case (4 x xs y ys)
  have "x = y \<or> (of_char x :: nat) < of_char y \<or> (of_char y :: nat) < of_char x"
    using char_of_char [of x] char_of_char [of y] linorder_neq_iff by metis
  with 4 show ?case by auto
qed auto

lemma lex_compare_trans: "lex_compare xs ys < 0 \<Longrightarrow> lex_compare ys zs < 0 \<Longrightarrow> lex_compare xs zs < 0"
proof (induction xs ys arbitrary: zs rule: lex_compare.induct)
  case (2 y ys)
  then show ?case by (cases zs) auto
next
  case (4 x xs y ys)
  then show ?case by (cases zs) (auto split: if_splits)
qed auto

text \<open>The operators are those of the lexicographic order, so pieces can be the keys of a map.\<close>

lemma sp_compare_lex:
  assumes "piece_ok p" "piece_ok x"
  shows "sp_compare p x = lex_compare (as_string p) (as_string x)"
proof -
  note len = length_as_string [OF assms(1)] length_as_string [OF assms(2)]
  have "(if sp_length p < sp_length x then sp_length p else sp_length x) = min (sp_length p) (sp_length x)" by (simp add: min_def)
  then show ?thesis using memcmp_lex [of "as_string p" "as_string x"] unfolding sp_compare_def len by simp
qed

lemma sp_less_compare: "piece_ok p \<Longrightarrow> piece_ok x \<Longrightarrow> sp_less p x \<longleftrightarrow> sp_compare p x < 0"
  by (auto simp: sp_less_def sp_compare_def Let_def)

lemma sp_eq_string: "piece_ok p \<Longrightarrow> piece_ok x \<Longrightarrow> sp_eq p x \<longleftrightarrow> as_string p = as_string x"
  using memcmp_zero [of "sp_length p" "as_string p" "as_string x"] length_as_string [of p] length_as_string [of x]
  by (auto simp: sp_eq_def)

lemma starts_with_prefix: "piece_ok p \<Longrightarrow> piece_ok x \<Longrightarrow> starts_with p x \<longleftrightarrow> prefix (as_string x) (as_string p)"
  using memcmp_zero [of "sp_length x" "as_string p" "as_string x"] length_as_string [of p] length_as_string [of x]
  by (auto simp: starts_with_def prefix_def take_is_prefix) (metis append_take_drop_id)

lemma remove_prefix_string:
  "piece_ok p \<Longrightarrow> n \<le> sp_length p \<Longrightarrow> piece_ok (remove_prefix n p) \<and> as_string (remove_prefix n p) = drop n (as_string p)"
  by (auto simp: piece_ok_def remove_prefix_def as_string_def drop_take add.commute)

lemma remove_suffix_string:
  "piece_ok p \<Longrightarrow> n \<le> sp_length p \<Longrightarrow> piece_ok (remove_suffix n p) \<and> as_string (remove_suffix n p) = take (sp_length p - n) (as_string p)"
  by (auto simp: piece_ok_def remove_suffix_def as_string_def)

section \<open>Reading small files\<close>

definition kBufferSize :: nat where
  "kBufferSize = 65536"

record small_file =
  rs_fd :: int
  rs_err :: int
  rs_buf :: bytes

definition ReadSmallFile_new :: "int \<Rightarrow> int \<Rightarrow> bytes \<Rightarrow> small_file" where
  "ReadSmallFile_new fd errno garbage = \<lparr>rs_fd = fd, rs_err = (if fd < 0 then errno else 0), rs_buf = CHR 0x00 # garbage\<rparr>"

text \<open>\<open>rd off n\<close> is the result of reading at most \<open>n\<close> bytes at offset \<open>off\<close>: an error number or the bytes.\<close>

function read_loop :: "(nat \<Rightarrow> nat \<Rightarrow> int + bytes) \<Rightarrow> nat \<Rightarrow> int \<Rightarrow> bytes \<Rightarrow> int \<times> bytes" where
  "read_loop rd maxSize err acc =
     (if length acc < maxSize
      then case rd (length acc) (min (maxSize - length acc) kBufferSize) of
          Inl e \<Rightarrow> (e, acc)
        | Inr bs \<Rightarrow> if bs = [] then (err, acc) else read_loop rd maxSize err (acc @ bs)
      else (err, acc))"
  by pat_completeness auto
termination
  by (relation "measure (\<lambda>(rd, maxSize, err, acc). maxSize - length acc)") (auto intro!: diff_less_mono2)

declare read_loop.simps [simp del]

datatype file_mode = Regular | Directory | Other_mode

record file_stat =
  st_mode :: file_mode
  st_size :: int
  st_mtime :: int
  st_ctime :: int

definition EISDIR :: int where
  "EISDIR = 21"

text \<open>The sizes and times are stored only if asked for and if \<open>fstat\<close> succeeds; the result has the error number, the
  text and what has been stored.\<close>

definition readToString :: "small_file \<Rightarrow> (nat \<Rightarrow> nat \<Rightarrow> int + bytes) \<Rightarrow> int + file_stat \<Rightarrow> nat \<Rightarrow> bool \<Rightarrow> bool \<Rightarrow> bool \<Rightarrow> string
    \<Rightarrow> int \<times> string \<times> int option \<times> int option \<times> int option" where
  "readToString f rd fstat maxSize wantSize wantModify wantCreate target =
     (if rs_fd f \<ge> 0 then
        let (err, size, mtime, ctime) =
          (if wantSize then
             (case fstat of
                Inr st \<Rightarrow> (if st_mode st = Directory then EISDIR else rs_err f,
                           if st_mode st = Regular then Some (st_size st) else None,
                           if wantModify then Some (st_mtime st) else None, if wantCreate then Some (st_ctime st) else None)
              | Inl e \<Rightarrow> (e, None, None, None))
           else (rs_err f, None, None, None));
            (err, text) = read_loop rd maxSize err []
        in (err, text, size, mtime, ctime)
      else (rs_err f, target, None, None, None))"

definition readToBuffer :: "small_file \<Rightarrow> int + bytes \<Rightarrow> (int \<times> int option \<times> small_file) option" where
  "readToBuffer f pread =
     (if rs_fd f \<ge> 0 then
        (case pread of
           Inr bs \<Rightarrow> do {
             ensure (length bs < kBufferSize);
             Some (rs_err f, Some (int (length bs)), f\<lparr>rs_buf := copy_to (rs_buf f) 0 (bs @ [CHR 0x00])\<rparr>)
           }
         | Inl e \<Rightarrow> Some (e, None, f))
      else Some (rs_err f, None, f))"

text \<open>A file that can be read: every read returns some bytes of it, and none only at its end.\<close>

definition reads_file :: "(nat \<Rightarrow> nat \<Rightarrow> int + bytes) \<Rightarrow> bytes \<Rightarrow> bool" where
  "reads_file rd f \<longleftrightarrow> (\<forall>off n. 0 < n \<longrightarrow> (\<exists>m. rd off n = Inr (take m (drop off f)) \<and> m \<le> n \<and> (off < length f \<longrightarrow> 0 < m)))"

lemma read_loop_content:
  "reads_file rd f \<Longrightarrow> length acc \<le> maxSize \<Longrightarrow> prefix acc f \<Longrightarrow> read_loop rd maxSize err acc = (err, take maxSize f)"
proof (induction rd maxSize err acc rule: read_loop.induct)
  case (1 rd maxSize err acc)
  let ?n = "min (maxSize - length acc) kBufferSize"
  show ?case
  proof (cases "length acc < maxSize")
    case True
    then have "0 < ?n" by (simp add: kBufferSize_def)
    then obtain m where m: "rd (length acc) ?n = Inr (take m (drop (length acc) f))" "m \<le> ?n" "length acc < length f \<Longrightarrow> 0 < m"
      using "1.prems"(1) unfolding reads_file_def by blast
    obtain r where r: "f = acc @ r" using "1.prems"(3) by (auto simp: prefix_def)
    show ?thesis
    proof (cases "take m (drop (length acc) f) = []")
      case empty: True
      then have "r = []" using r m(3) by (cases r) auto
      then show ?thesis using True m(1) empty r by (subst read_loop.simps) simp
    next
      case False
      have "prefix (acc @ take m r) f" using r by (simp add: take_is_prefix)
      moreover have "length (acc @ take m r) \<le> maxSize" using m(2) True by auto
      ultimately show ?thesis using "1.IH" [OF True m(1) False] "1.prems"(1) True m(1) False r
        by (subst read_loop.simps) simp
    qed
  next
    case False
    then have "acc = take maxSize f" using "1.prems"(2,3) by (auto simp: prefix_def)
    with False show ?thesis by (subst read_loop.simps) simp
  qed
qed

theorem readFile_content:
  assumes "reads_file rd f" "0 \<le> fd"
  shows "readToString (ReadSmallFile_new fd errno g) rd fstat maxSize False False False target = (0, take maxSize f, None, None, None)"
  using read_loop_content [OF assms(1), of "[]" maxSize 0] assms(2) by (simp add: readToString_def ReadSmallFile_new_def)

section \<open>Appending\<close>

record append_file =
  af_data :: bytes
  writtenBytes :: nat

text \<open>\<open>wr n k\<close> is how many of \<open>k\<close> bytes \<open>fwrite\<close> takes when \<open>n\<close> bytes of the line have been written.\<close>

function append_loop :: "(nat \<Rightarrow> nat \<Rightarrow> nat) \<Rightarrow> nat \<Rightarrow> nat \<Rightarrow> nat" where
  "append_loop wr len n =
     (if n < len then let x = min (wr n (len - n)) (len - n) in if x = 0 then n else append_loop wr len (n + x) else n)"
  by pat_completeness auto
termination
  by (relation "measure (\<lambda>(wr, len, n). len - n)") auto

declare append_loop.simps [simp del]

definition af_append :: "(nat \<Rightarrow> nat \<Rightarrow> nat) \<Rightarrow> bytes \<Rightarrow> append_file \<Rightarrow> append_file" where
  "af_append wr logline f =
     (let len = length logline;
          n = append_loop wr len (min (wr 0 len) len)
      in f\<lparr>af_data := af_data f @ take n logline, writtenBytes := writtenBytes f + len\<rparr>)"

lemma append_loop_all: "(\<And>n k. 0 < k \<Longrightarrow> 0 < wr n k) \<Longrightarrow> n \<le> len \<Longrightarrow> append_loop wr len n = len"
proof (induction wr len n rule: append_loop.induct)
  case (1 wr len n)
  show ?case
  proof (cases "n < len")
    case True
    then have x: "0 < min (wr n (len - n)) (len - n)" using "1.prems"(1) by simp
    with "1.IH" [OF True refl] "1.prems"(1) True show ?thesis by (subst append_loop.simps) (simp add: Let_def)
  next
    case False
    with "1.prems"(2) show ?thesis by (subst append_loop.simps) simp
  qed
qed

text \<open>The whole line is written, however few bytes each call takes, unless one takes none; then the count of written
  bytes is too large.\<close>

lemma af_append_all: "(\<And>n k. 0 < k \<Longrightarrow> 0 < wr n k) \<Longrightarrow> af_append wr l f = f\<lparr>af_data := af_data f @ l, writtenBytes := writtenBytes f + length l\<rparr>"
  by (simp add: af_append_def append_loop_all Let_def)

lemma af_append_full_disk: "l \<noteq> [] \<Longrightarrow> af_append (\<lambda>n k. 0) l f = f\<lparr>writtenBytes := writtenBytes f + length l\<rparr>"
  by (simp add: af_append_def append_loop.simps Let_def)

end
