(* ===== verification/Spec2Isabelle.thy ===== *)
theory Spec2Isabelle
  imports LengthHeaderCodec ProtobufCodec TimeZone EPoller EventLoop TcpServer Sockets Connector Logging Hub SudokuClients ImClient Services FileUtil
begin

text \<open>
  \<^bold>\<open>A verified model of the chat reactor library and its servers\<close>

  The program is a reactor network library in C++ (the files directly under \<open>src/\<close>) with servers and
  clients built on it (\<open>src/excercises/\<close>).
\<close>

end
